(* ===== verification/Rtos_Prelude.thy ===== *)
theory Rtos_Prelude
  imports Main "HOL-Library.Word" "HOL-Library.Monad_Syntax"
begin

text \<open>
  Shared vocabulary of the development: the 32-bit word type of the target, pointers as
  options, null-terminated lists threaded through a link field, insertion by priority,
  and the arithmetic of ring buffers. Nothing here mentions the kernel.
\<close>

unbundle bit_operations_syntax

type_synonym u32 = "32 word"

named_theorems crit_simps \<open>effect of a balanced critical section\<close>
named_theorems frame_simps \<open>fields an operation leaves alone\<close>
named_theorems wait_simps \<open>rewriting of the pointer-level wait-queue functions\<close>

section \<open>End points of lists as pointers\<close>

definition hd_opt :: "'a list \<Rightarrow> 'a option" where
  "hd_opt xs = (case xs of [] \<Rightarrow> None | x # _ \<Rightarrow> Some x)"

definition last_opt :: "'a list \<Rightarrow> 'a option" where
  "last_opt xs = (if xs = [] then None else Some (last xs))"

lemma hd_opt_simps [simp]:
  "hd_opt [] = None" "hd_opt (x # xs) = Some x"
  by (simp_all add: hd_opt_def)

lemma hd_opt_eq_None [simp]: "hd_opt xs = None \<longleftrightarrow> xs = []"
  by (cases xs) simp_all

lemma last_opt_Nil [simp]: "last_opt [] = None"
  by (simp add: last_opt_def)

lemma last_opt_eq_None [simp]: "last_opt xs = None \<longleftrightarrow> xs = []"
  by (simp add: last_opt_def)

lemma last_opt_append: "last_opt (xs @ ys) = (if ys = [] then last_opt xs else last_opt ys)"
  by (simp add: last_opt_def)

lemma last_opt_Cons: "last_opt (x # xs) = (if xs = [] then Some x else last_opt xs)"
  by (simp add: last_opt_def)

lemma last_opt_SomeD: "last_opt xs = Some x \<Longrightarrow> x \<in> set xs"
  by (auto simp: last_opt_def split: if_splits)

section \<open>Null-terminated lists in a store\<close>

text \<open>
  \<open>segment nx p xs q\<close>: following the link \<open>nx\<close> from pointer \<open>p\<close> visits exactly \<open>xs\<close> and
  arrives at pointer \<open>q\<close>. A null-terminated list is a segment that arrives at \<open>None\<close>.
\<close>

fun segment :: "('a \<Rightarrow> 'a option) \<Rightarrow> 'a option \<Rightarrow> 'a list \<Rightarrow> 'a option \<Rightarrow> bool" where
  "segment nx p [] q = (p = q)"
| "segment nx p (x # xs) q = (p = Some x \<and> segment nx (nx x) xs q)"

abbreviation linked :: "('a \<Rightarrow> 'a option) \<Rightarrow> 'a option \<Rightarrow> 'a list \<Rightarrow> bool" where
  "linked nx p xs \<equiv> segment nx p xs None"

lemma segment_append:
  "segment nx p (xs @ ys) q \<longleftrightarrow> (\<exists>r. segment nx p xs r \<and> segment nx r ys q)"
  by (induction xs arbitrary: p) auto

lemma segment_cong:
  "(\<And>x. x \<in> set xs \<Longrightarrow> nx x = nx' x) \<Longrightarrow> segment nx p xs q = segment nx' p xs q"
  by (induction xs arbitrary: p) auto

lemma segment_update [simp]:
  "x \<notin> set xs \<Longrightarrow> segment (nx(x := r)) p xs q = segment nx p xs q"
  by (rule segment_cong) auto

lemma linked_hd: "linked nx p xs \<Longrightarrow> p = hd_opt xs"
  by (cases xs) auto

lemma linked_functional: "linked nx p xs \<Longrightarrow> linked nx p ys \<Longrightarrow> xs = ys"
proof (induction xs arbitrary: p ys)
  case Nil
  then show ?case by (cases ys) auto
next
  case (Cons x xs)
  then show ?case by (cases ys) auto
qed

lemma linked_next_suffix:
  "linked nx p xs \<Longrightarrow> x \<in> set xs \<Longrightarrow> \<exists>us vs. xs = us @ x # vs \<and> linked nx (nx x) vs"
proof (induction xs arbitrary: p)
  case Nil
  then show ?case by simp
next
  case (Cons y ys)
  show ?case
  proof (cases "x = y")
    case True
    with Cons.prems have "linked nx (nx x) ys" by simp
    with True show ?thesis by (intro exI[of _ "[]"] exI[of _ ys]) simp
  next
    case False
    with Cons.prems have "linked nx (nx y) ys" and "x \<in> set ys" by simp_all
    from Cons.IH[OF this] obtain us vs where "ys = us @ x # vs" "linked nx (nx x) vs" by blast
    then show ?thesis by (intro exI[of _ "y # us"] exI[of _ vs]) simp
  qed
qed

text \<open>A null-terminated list cannot visit an element twice: the two tails would agree.\<close>

lemma linked_distinct: "linked nx p xs \<Longrightarrow> distinct xs"
proof (induction xs arbitrary: p)
  case Nil
  then show ?case by simp
next
  case (Cons x xs)
  have "x \<notin> set xs"
  proof
    assume "x \<in> set xs"
    with Cons.prems obtain us vs where split: "xs = us @ x # vs" and vs: "linked nx (nx x) vs"
      using linked_next_suffix[of nx "nx x" xs x] by auto
    from Cons.prems have "linked nx (nx x) xs" by simp
    from linked_functional[OF this vs] have "length xs = length vs" by simp
    with split show False by simp
  qed
  with Cons show ?case by auto
qed

lemma linked_insert_mid:
  assumes "linked nx p (as @ bs)" and "as \<noteq> []" and "t \<notin> set (as @ bs)"
  shows "linked (nx(t := hd_opt bs, last as := Some t)) p (as @ t # bs)"
proof -
  from \<open>as \<noteq> []\<close> obtain us a where as: "as = us @ [a]"
    by (metis append_butlast_last_id)
  from linked_distinct[OF assms(1)] have dis: "a \<notin> set us" "a \<notin> set bs"
    by (auto simp: as)
  from assms(1) obtain q where "segment nx p us q" "q = Some a" "linked nx (nx a) bs"
    by (auto simp: as segment_append)
  moreover from this have "nx a = hd_opt bs" by (auto dest: linked_hd)
  ultimately show ?thesis
    using assms(3) dis by (auto simp: as segment_append)
qed

lemma linked_remove_mid:
  assumes "linked nx p (as @ t # bs)" and "as \<noteq> []"
  shows "linked (nx(last as := nx t)) p (as @ bs)"
proof -
  from \<open>as \<noteq> []\<close> obtain us a where as: "as = us @ [a]"
    by (metis append_butlast_last_id)
  from linked_distinct[OF assms(1)] have "a \<notin> set us" "a \<notin> set bs" "a \<noteq> t"
    by (auto simp: as)
  with assms(1) show ?thesis
    by (auto simp: as segment_append)
qed

text \<open>An address as a pointer: 0 is null.\<close>

definition pointer :: "u32 \<Rightarrow> u32 option" where
  "pointer a = (if a = 0 then None else Some a)"

lemma pointer_eq [simp]: "pointer a = None \<longleftrightarrow> a = 0" "pointer a = Some b \<longleftrightarrow> a = b \<and> b \<noteq> 0"
  by (auto simp: pointer_def)

section \<open>Insertion by priority\<close>

text \<open>
  \<open>prio_insert f t xs\<close> puts \<open>t\<close> in front of the first element of strictly smaller
  priority: highest first, first come first served among equals.
\<close>

fun prio_insert :: "('a \<Rightarrow> 'p::linorder) \<Rightarrow> 'a \<Rightarrow> 'a list \<Rightarrow> 'a list" where
  "prio_insert f t [] = [t]"
| "prio_insert f t (x # xs) = (if f t \<le> f x then x # prio_insert f t xs else t # x # xs)"

definition prio_sorted :: "('a \<Rightarrow> 'p::linorder) \<Rightarrow> 'a list \<Rightarrow> bool" where
  "prio_sorted f xs \<longleftrightarrow> sorted_wrt (\<lambda>x y. f y \<le> f x) xs"

lemma prio_sorted_simps [simp]:
  "prio_sorted f []"
  "prio_sorted f (x # xs) \<longleftrightarrow> (\<forall>y \<in> set xs. f y \<le> f x) \<and> prio_sorted f xs"
  by (simp_all add: prio_sorted_def)

lemma set_prio_insert [simp]: "set (prio_insert f t xs) = insert t (set xs)"
  by (induction xs) auto

lemma length_prio_insert [simp]: "length (prio_insert f t xs) = Suc (length xs)"
  by (induction xs) auto

lemma prio_insert_neq_Nil [simp]: "prio_insert f t xs \<noteq> []"
  by (cases xs) auto

lemma prio_insert_split:
  "prio_insert f t xs = takeWhile (\<lambda>x. f t \<le> f x) xs @ t # dropWhile (\<lambda>x. f t \<le> f x) xs"
  by (induction xs) auto

lemma prio_sorted_insert: "prio_sorted f xs \<Longrightarrow> prio_sorted f (prio_insert f t xs)"
proof (induction xs)
  case Nil
  then show ?case by simp
next
  case (Cons x xs)
  then show ?case by (auto intro: order_trans)
qed

lemma prio_insert_filter:
  "\<not> P t \<Longrightarrow> filter P (prio_insert f t xs) = filter P xs"
  by (induction xs) auto

lemma prio_insert_front:
  "(\<And>y. y \<in> set ys \<Longrightarrow> \<not> f t \<le> f y) \<Longrightarrow> prio_insert f t ys = t # ys"
  by (cases ys) auto

lemma filter_prio_insert:
  "prio_sorted f xs \<Longrightarrow> P t \<Longrightarrow> filter P (prio_insert f t xs) = prio_insert f t (filter P xs)"
proof (induction xs)
  case Nil
  then show ?case by simp
next
  case (Cons x xs)
  show ?case
  proof (cases "f t \<le> f x")
    case True
    with Cons show ?thesis by simp
  next
    case False
    then have "\<And>y. y \<in> set (filter P (x # xs)) \<Longrightarrow> \<not> f t \<le> f y"
      using Cons.prems(1) by (auto dest: order_trans split: if_splits)
    then have "prio_insert f t (filter P (x # xs)) = t # filter P (x # xs)"
      by (rule prio_insert_front)
    with False Cons.prems(2) show ?thesis by simp
  qed
qed

lemma prio_insert_cong:
  "(\<And>x. x \<in> insert t (set xs) \<Longrightarrow> f x = g x) \<Longrightarrow> prio_insert f t xs = prio_insert g t xs"
  by (induction xs) auto

section \<open>Ring buffers\<close>

text \<open>
  The \<open>n\<close> elements of a ring of \<open>c\<close> slots that starts at index \<open>h\<close>, oldest first. The slots
  are a function, so that the lemmas serve arrays in memory and static arrays alike.
\<close>

definition ring_list :: "(nat \<Rightarrow> 'a) \<Rightarrow> nat \<Rightarrow> nat \<Rightarrow> nat \<Rightarrow> 'a list" where
  "ring_list g h n c = map (\<lambda>i. g ((h + i) mod c)) [0..<n]"

lemma length_ring_list [simp]: "length (ring_list g h n c) = n"
  by (simp add: ring_list_def)

lemma ring_list_0 [simp]: "ring_list g h 0 c = []"
  by (simp add: ring_list_def)

lemma ring_list_eq_Nil [simp]: "ring_list g h n c = [] \<longleftrightarrow> n = 0"
  by (simp add: ring_list_def)

lemma ring_list_cong:
  assumes "0 < c" and "\<And>i. i < c \<Longrightarrow> g i = g' i"
  shows "ring_list g h n c = ring_list g' h n c"
  using assms by (simp add: ring_list_def)

lemma ring_index_neq:
  assumes "i < n" and "n < (c::nat)"
  shows "(h + i) mod c \<noteq> (h + n) mod c"
proof
  assume "(h + i) mod c = (h + n) mod c"
  then have "c dvd (h + n) - (h + i)"
    using assms by (intro mod_eq_dvd_iff_nat[THEN iffD1]) auto
  with assms show False by (auto dest: dvd_imp_le)
qed

lemma ring_put:
  assumes "n < c"
  shows "ring_list (g((h + n) mod c := x)) h (Suc n) c = ring_list g h n c @ [x]"
  using ring_index_neq[OF _ assms] by (auto simp: ring_list_def)

lemma ring_get: "ring_list g h (Suc n) c = g (h mod c) # ring_list g (Suc h mod c) n c"
  by (auto simp: ring_list_def upt_conv_Cons map_Suc_upt[symmetric] mod_simps simp del: upt_Suc)

lemma ring_overwrite:
  assumes "0 < c" and "h < c"
  shows "ring_list (g(h := x)) (Suc h mod c) c c = tl (ring_list g h c c) @ [x]"
proof -
  obtain d where c: "c = Suc d" using \<open>0 < c\<close> by (cases c) auto
  have "(Suc h mod c + d) mod c = (h + c) mod c"
    by (simp add: c mod_simps)
  then have pos: "(Suc h mod c + d) mod c = h"
    using \<open>h < c\<close> by simp
  have "ring_list (g(h := x)) (Suc h mod c) (Suc d) c = ring_list g (Suc h mod c) d c @ [x]"
    using ring_put[of d c g "Suc h mod c" x] unfolding pos by (simp add: c)
  moreover have "tl (ring_list g h c c) = ring_list g (Suc h mod c) d c"
    using ring_get[of g h d c] by (simp add: c)
  ultimately show ?thesis by (simp add: c)
qed

text \<open>The last \<open>n\<close> elements of a list: what a ring that overwrites its oldest slot keeps.\<close>

definition last_n :: "nat \<Rightarrow> 'a list \<Rightarrow> 'a list" where
  "last_n n xs = drop (length xs - n) xs"

lemma last_n_snoc: "0 < n \<Longrightarrow> last_n n (last_n n xs @ [x]) = last_n n (xs @ [x])"
  by (cases "n \<le> length xs") (auto simp: last_n_def Suc_diff_le)

lemma last_n_short: "length xs \<le> n \<Longrightarrow> last_n n xs = xs"
  by (simp add: last_n_def)

lemma length_last_n: "length (last_n n xs) = min n (length xs)"
  by (simp add: last_n_def)

section \<open>Word lemmas\<close>

lemma u32_less_max: "unat (x::u32) < 4294967296"
  by (rule unsigned_less[of x, simplified])

lemma unat_Suc_u32:
  "unat (x::u32) < 4294967295 \<Longrightarrow> unat (x + 1) = Suc (unat x)"
  by (simp add: unat_word_ariths)

lemma unat_inc_u32: "(a::u32) < b \<Longrightarrow> unat (a + 1) = Suc (unat a)"
  using u32_less_max[of b] by (simp add: word_less_nat_alt unat_Suc_u32)

lemma u32_inc_le: "(a::u32) < b \<Longrightarrow> a + 1 \<le> b"
  by (simp add: word_le_nat_alt unat_inc_u32) (simp add: word_less_nat_alt)

lemma unat_pred_u32: "x \<noteq> (0::u32) \<Longrightarrow> unat (x - 1) = unat x - 1"
  by (simp add: unat_minus_one)

lemma u32_gt_0: "0 < (x::u32) \<longleftrightarrow> x \<noteq> 0"
  by (simp add: word_neq_0_conv)

lemma u32_wrap_index:
  assumes "unat (i::u32) < unat c"
  shows "unat ((i + 1) mod c) = Suc (unat i) mod unat c"
  using assms u32_less_max[of c] by (simp add: unat_mod_distrib unat_word_ariths)

end
