(* ===== verification/Kernel_State.thy ===== *)
theory Kernel_State
  imports Rtos_Prelude
begin

text \<open>
  The data of the kernel, in the order of the headers under include/: status codes and
  configuration, the enumerations, one record per C structure, and the record of all
  kernel variables that the operations of the other theories read and update.

  Conventions. A pointer to a task control block is \<open>nat option\<close>: the index of the block in
  the static array \<open>tasks\<close> of kernel/task.c, or \<open>None\<close> for NULL. A pointer to any other
  object (semaphore, queue, buffer, block, callback, argument) is its 32-bit address, 0 for
  NULL; kernel objects of one kind live in a store indexed by address. Buffers, memory pool
  blocks and task stacks share one word memory \<open>ram\<close>. Names are \<open>string option\<close>.
\<close>

section \<open>Status codes and configuration (rtos\_status.h, rtos\_config.h)\<close>

definition RTOS_OK :: int where [simp]: "RTOS_OK = 0"
definition RTOS_ERR_INVALID :: int where [simp]: "RTOS_ERR_INVALID = -1"
definition RTOS_ERR_TIMEOUT :: int where [simp]: "RTOS_ERR_TIMEOUT = -2"
definition RTOS_ERR_FULL :: int where [simp]: "RTOS_ERR_FULL = -3"
definition RTOS_TIMEOUT_FOREVER :: u32 where [simp]: "RTOS_TIMEOUT_FOREVER = 0xFFFFFFFF"

definition RTOS_MAX_TASKS :: u32 where [simp]: "RTOS_MAX_TASKS = 6"
definition RTOS_TASK_STACK_WORDS :: u32 where [simp]: "RTOS_TASK_STACK_WORDS = 128"
definition RTOS_DEFAULT_PRIORITY :: u32 where [simp]: "RTOS_DEFAULT_PRIORITY = 1"
definition RTOS_IDLE_PRIORITY :: u32 where [simp]: "RTOS_IDLE_PRIORITY = 0"
definition RTOS_CPU_HZ :: u32 where [simp]: "RTOS_CPU_HZ = 16000000"
definition RTOS_TICK_HZ :: u32 where [simp]: "RTOS_TICK_HZ = 1000"
definition RTOS_MAX_OBJECTS :: nat where [simp]: "RTOS_MAX_OBJECTS = 16"
definition RTOS_WORK_QUEUE_LENGTH :: u32 where [simp]: "RTOS_WORK_QUEUE_LENGTH = 4"
definition RTOS_TRACE_LENGTH :: u32 where [simp]: "RTOS_TRACE_LENGTH = 32"

section \<open>Enumerations\<close>

datatype rtos_task_state_t =
    RTOS_TASK_READY | RTOS_TASK_RUNNING | RTOS_TASK_BLOCKED | RTOS_TASK_STOPPED

datatype rtos_wait_type_t =
    RTOS_WAIT_NONE | RTOS_WAIT_SLEEP | RTOS_WAIT_SEM | RTOS_WAIT_QUEUE | RTOS_WAIT_MUTEX
  | RTOS_WAIT_EVENT | RTOS_WAIT_MEMPOOL | RTOS_WAIT_NOTIFICATION

datatype rtos_object_type_t =
    RTOS_OBJECT_NONE | RTOS_OBJECT_QUEUE | RTOS_OBJECT_SEM | RTOS_OBJECT_MUTEX
  | RTOS_OBJECT_TIMER | RTOS_OBJECT_EVENT_FLAGS | RTOS_OBJECT_MEMPOOL

datatype rtos_trace_event_t =
    RTOS_TRACE_NONE | RTOS_TRACE_SWITCH | RTOS_TRACE_NOTIFY | RTOS_TRACE_WORK_SUBMIT
  | RTOS_TRACE_WORK_RUN

text \<open>The value a trace event has in C, which is what the trace ring stores.\<close>

fun trace_event_code :: "rtos_trace_event_t \<Rightarrow> u32" where
  "trace_event_code RTOS_TRACE_NONE = 0"
| "trace_event_code RTOS_TRACE_SWITCH = 1"
| "trace_event_code RTOS_TRACE_NOTIFY = 2"
| "trace_event_code RTOS_TRACE_WORK_SUBMIT = 3"
| "trace_event_code RTOS_TRACE_WORK_RUN = 4"

lemma trace_event_code_inject [simp]: "trace_event_code a = trace_event_code b \<longleftrightarrow> a = b"
  by (cases a; cases b) simp_all

text \<open>
  C orders enumeration constants by their values; the library's order type class gives the
  model's events the same order, so sorted trace views need no conversion.
\<close>

instantiation rtos_trace_event_t :: linorder
begin

definition less_eq_rtos_trace_event_t :: "rtos_trace_event_t \<Rightarrow> rtos_trace_event_t \<Rightarrow> bool" where
  "less_eq_rtos_trace_event_t a b \<longleftrightarrow> trace_event_code a \<le> trace_event_code b"

definition less_rtos_trace_event_t :: "rtos_trace_event_t \<Rightarrow> rtos_trace_event_t \<Rightarrow> bool" where
  "less_rtos_trace_event_t a b \<longleftrightarrow> trace_event_code a < trace_event_code b"

instance
proof (intro_classes, goal_cases)
  case (4 x y)
  then show ?case
    by (metis less_eq_rtos_trace_event_t_def order_antisym trace_event_code_inject)
qed (auto simp: less_eq_rtos_trace_event_t_def less_rtos_trace_event_t_def less_le)

end

section \<open>Task control block (rtos\_task.h)\<close>

record rtos_task =
  task_sp :: u32
  stack_base :: u32
  stack_words :: u32
  delay_ticks :: u32
  base_priority :: u32
  priority :: u32
  task_state :: rtos_task_state_t
  next_task :: "nat option"
  wait_next :: "nat option"
  task_name :: "string option"
  wait_type :: rtos_wait_type_t
  wait_result :: int
  wait_flags :: u32
  wait_flags_result :: u32
  wait_flags_all :: u32
  wait_flags_clear :: u32
  wait_object_result :: u32
  notify_value :: u32
  notify_pending :: u32
  switch_count :: u32
  run_ticks :: u32

type_synonym task_store = "nat \<Rightarrow> rtos_task"

text \<open>A pair of head and tail pointers, as every wait queue of the kernel has.\<close>

type_synonym wait_ends = "nat option \<times> nat option"

section \<open>Synchronisation objects\<close>

record rtos_sem =
  sem_count :: u32
  sem_max_count :: u32
  sem_wait_head :: "nat option"
  sem_wait_tail :: "nat option"

record rtos_queue =
  q_buffer :: u32
  q_capacity :: u32
  q_count :: u32
  q_head :: u32
  q_tail :: u32
  recv_wait_head :: "nat option"
  recv_wait_tail :: "nat option"
  send_wait_head :: "nat option"
  send_wait_tail :: "nat option"

record rtos_mutex =
  mtx_owner :: "nat option"
  mtx_lock_count :: u32
  mtx_wait_head :: "nat option"
  mtx_wait_tail :: "nat option"

record rtos_event_flags =
  ev_flags :: u32
  ev_wait_head :: "nat option"
  ev_wait_tail :: "nat option"

record rtos_mempool =
  mp_storage :: u32
  mp_free_list :: u32
  mp_block_size :: u32
  mp_block_count :: u32
  mp_free_count :: u32
  mp_wait_head :: "nat option"
  mp_wait_tail :: "nat option"

record rtos_timer =
  tm_period_ticks :: u32
  tm_remaining_ticks :: u32
  tm_reload :: u32
  tm_active :: u32
  tm_linked :: u32
  tm_callback :: u32
  tm_arg :: u32
  tm_next :: u32

section \<open>Registry, trace, work queue, debug and fault records\<close>

record object_record =
  or_type :: rtos_object_type_t
  or_object :: u32
  or_name :: "string option"

record rtos_trace_entry =
  te_tick :: u32
  te_event :: u32
  te_arg0 :: u32
  te_arg1 :: u32

record trace_ring =
  trace_write_index :: u32
  trace_count :: u32
  trace_total_count :: u32
  trace_entries :: "rtos_trace_entry list"

record work_item =
  wi_handler :: u32
  wi_arg :: u32

record work_ring =
  work_queue :: "work_item list"
  work_head :: u32
  work_tail :: u32
  work_task_handle :: "nat option"
  work_pending_items :: u32
  work_drop_count :: u32

record task_snapshot =
  sn_name :: "string option"
  sn_task :: "nat option"
  sn_sp :: u32
  sn_stack_base :: u32
  sn_stack_words :: u32
  sn_stack_used_words :: u32
  sn_delay_ticks :: u32
  sn_base_priority :: u32
  sn_priority :: u32
  sn_state :: rtos_task_state_t
  sn_wait_result :: int
  sn_stack_guard_ok :: u32
  sn_switch_count :: u32
  sn_run_ticks :: u32

record cpu_usage_snapshot =
  cu_total_ticks :: u32
  cu_idle_ticks :: u32
  cu_active_ticks :: u32
  cu_idle_permille :: u32
  cu_active_permille :: u32

record assert_info =
  as_active :: u32
  as_expression :: string
  as_file :: string
  as_line :: u32
  as_tick :: u32
  as_task :: "nat option"

section \<open>Processor state seen by the port (port/cortex\_m4/port.c)\<close>

text \<open>
  The two static variables of the port, the special registers it reads and writes, and the
  system control registers it programs. Writing PENDSVSET to ICSR makes the PendSV exception
  pending, which the hardware keeps as one bit.
\<close>

record port_state =
  critical_nesting :: u32
  saved_primask :: u32
  cpu_primask :: u32
  cpu_ipsr :: u32
  pendsv_pending :: bool
  scb_shpr3 :: u32
  syst_csr :: u32
  syst_rvr :: u32
  syst_cvr :: u32

text \<open>Addresses the linker chooses; no operation changes them.\<close>

record link_image =
  tasks_base :: u32
  stacks_base :: u32
  addr_task_exit :: u32
  addr_idle_task :: u32
  addr_work_task :: u32

section \<open>All kernel variables\<close>

record kernel =
  linked_at :: link_image
  port :: port_state
  ram :: "u32 \<Rightarrow> u32"
  tasks :: task_store
  task_count :: u32
  stack_guard_check_index :: u32
  idle_hook :: u32
  idle_hook_arg :: u32
  current_task :: "nat option"
  scheduler_lock_count :: u32
  scheduler_pending :: u32
  tick_count :: u32
  debug_update_ticks :: u32
  trace :: trace_ring
  registry :: "object_record list"
  object_snapshots :: "object_record list"
  object_snapshot_count :: u32
  sems :: "u32 \<Rightarrow> rtos_sem"
  queues :: "u32 \<Rightarrow> rtos_queue"
  mutexes :: "u32 \<Rightarrow> rtos_mutex"
  events :: "u32 \<Rightarrow> rtos_event_flags"
  pools :: "u32 \<Rightarrow> rtos_mempool"
  timers :: "u32 \<Rightarrow> rtos_timer"
  timer_list :: u32
  work :: work_ring
  debug_snapshots :: "task_snapshot list"
  debug_snapshot_count :: u32
  cpu_usage :: cpu_usage_snapshot
  assert_record :: assert_info

text \<open>
  Functions the application passes by address (timer callbacks, work handlers, idle hooks) are
  a parameter of the operations that call them: \<open>call f a k\<close> is the state after the function at
  \<open>f\<close> has run on the argument \<open>a\<close>, \<open>None\<close> if it does not return.
\<close>

type_synonym callbacks = "u32 \<Rightarrow> u32 \<Rightarrow> kernel \<Rightarrow> kernel option"

section \<open>The state after reset\<close>

text \<open>
  Reset\_Handler clears .bss, which holds every kernel variable, so the kernel starts from
  zeros: RTOS\_TASK\_READY, RTOS\_WAIT\_NONE and RTOS\_OBJECT\_NONE are the enumeration
  constants of value 0.
\<close>

definition zero_task :: rtos_task where
  "zero_task = \<lparr>task_sp = 0, stack_base = 0, stack_words = 0, delay_ticks = 0, base_priority = 0,
     priority = 0, task_state = RTOS_TASK_READY, next_task = None, wait_next = None,
     task_name = None, wait_type = RTOS_WAIT_NONE, wait_result = 0, wait_flags = 0,
     wait_flags_result = 0, wait_flags_all = 0, wait_flags_clear = 0, wait_object_result = 0,
     notify_value = 0, notify_pending = 0, switch_count = 0, run_ticks = 0\<rparr>"

definition zero_record :: object_record where
  "zero_record = \<lparr>or_type = RTOS_OBJECT_NONE, or_object = 0, or_name = None\<rparr>"

definition zero_port :: port_state where
  "zero_port = \<lparr>critical_nesting = 0, saved_primask = 0, cpu_primask = 0, cpu_ipsr = 0,
     pendsv_pending = False, scb_shpr3 = 0, syst_csr = 0, syst_rvr = 0, syst_cvr = 0\<rparr>"

definition zero_kernel :: "link_image \<Rightarrow> kernel" where
  "zero_kernel im = \<lparr>linked_at = im, port = zero_port, ram = (\<lambda>_. 0), tasks = (\<lambda>_. zero_task),
     task_count = 0, stack_guard_check_index = 0, idle_hook = 0, idle_hook_arg = 0,
     current_task = None, scheduler_lock_count = 0, scheduler_pending = 0, tick_count = 0,
     debug_update_ticks = 0,
     trace = \<lparr>trace_write_index = 0, trace_count = 0, trace_total_count = 0,
       trace_entries = replicate 32 \<lparr>te_tick = 0, te_event = 0, te_arg0 = 0, te_arg1 = 0\<rparr>\<rparr>,
     registry = replicate 16 zero_record, object_snapshots = replicate 16 zero_record,
     object_snapshot_count = 0,
     sems = (\<lambda>_. \<lparr>sem_count = 0, sem_max_count = 0, sem_wait_head = None, sem_wait_tail = None\<rparr>),
     queues = (\<lambda>_. \<lparr>q_buffer = 0, q_capacity = 0, q_count = 0, q_head = 0, q_tail = 0,
       recv_wait_head = None, recv_wait_tail = None, send_wait_head = None, send_wait_tail = None\<rparr>),
     mutexes = (\<lambda>_. \<lparr>mtx_owner = None, mtx_lock_count = 0, mtx_wait_head = None, mtx_wait_tail = None\<rparr>),
     events = (\<lambda>_. \<lparr>ev_flags = 0, ev_wait_head = None, ev_wait_tail = None\<rparr>),
     pools = (\<lambda>_. \<lparr>mp_storage = 0, mp_free_list = 0, mp_block_size = 0, mp_block_count = 0,
       mp_free_count = 0, mp_wait_head = None, mp_wait_tail = None\<rparr>),
     timers = (\<lambda>_. \<lparr>tm_period_ticks = 0, tm_remaining_ticks = 0, tm_reload = 0, tm_active = 0,
       tm_linked = 0, tm_callback = 0, tm_arg = 0, tm_next = 0\<rparr>),
     timer_list = 0,
     work = \<lparr>work_queue = replicate 4 \<lparr>wi_handler = 0, wi_arg = 0\<rparr>, work_head = 0, work_tail = 0,
       work_task_handle = None, work_pending_items = 0, work_drop_count = 0\<rparr>,
     debug_snapshots = replicate 6 \<lparr>sn_name = None, sn_task = None, sn_sp = 0, sn_stack_base = 0,
       sn_stack_words = 0, sn_stack_used_words = 0, sn_delay_ticks = 0, sn_base_priority = 0,
       sn_priority = 0, sn_state = RTOS_TASK_READY, sn_wait_result = 0, sn_stack_guard_ok = 0,
       sn_switch_count = 0, sn_run_ticks = 0\<rparr>,
     debug_snapshot_count = 0,
     cpu_usage = \<lparr>cu_total_ticks = 0, cu_idle_ticks = 0, cu_active_ticks = 0,
       cu_idle_permille = 0, cu_active_permille = 0\<rparr>,
     assert_record = \<lparr>as_active = 0, as_expression = [], as_file = [], as_line = 0, as_tick = 0,
       as_task = None\<rparr>\<rparr>"

text \<open>A placement of the linker as it can be, for examples: control blocks and stacks in SRAM.\<close>

definition sample_image :: link_image where
  "sample_image = \<lparr>tasks_base = 0x20000100, stacks_base = 0x20000400, addr_task_exit = 0x08000100,
     addr_idle_task = 0x08000200, addr_work_task = 0x08000300\<rparr>"

text \<open>Updating one control block through its pointer.\<close>

definition upd_task :: "nat \<Rightarrow> (rtos_task \<Rightarrow> rtos_task) \<Rightarrow> task_store \<Rightarrow> task_store" where
  "upd_task t f ts = ts(t := f (ts t))"

lemma upd_task_apply: "upd_task t f ts u = (if u = t then f (ts t) else ts u)"
  by (simp add: upd_task_def)

lemma upd_task_same [simp]: "upd_task t f ts t = f (ts t)"
  by (simp add: upd_task_def)

lemma upd_task_other [simp]: "u \<noteq> t \<Longrightarrow> upd_task t f ts u = ts u"
  by (simp add: upd_task_def)

text \<open>The C cast of a task pointer to an integer: 84 bytes is the size of a control block.\<close>

definition task_word :: "link_image \<Rightarrow> nat option \<Rightarrow> u32" where
  "task_word im p = (case p of None \<Rightarrow> 0 | Some t \<Rightarrow> tasks_base im + 84 * of_nat t)"

end
