(* ===== verification/Wait_Queue.thy ===== *)
theory Wait_Queue
  imports Kernel_State
begin

text \<open>
  The intrusive wait queues of the synchronisation objects: singly linked lists of task
  control blocks through \<open>wait_next\<close>, with a head and a tail pointer in the object. The three
  functions wait\_push, wait\_pop and wait\_remove are written out once in kernel/mutex.c and
  kernel/queue.c over pointers to the two ends, and once more in each of kernel/sem.c,
  kernel/event.c and kernel/mempool.c over the object. The pointer-level functions are
  modelled here; the locale \<open>wait_object\<close> states what every copy promises.

  The loops chase pointers, so they are partial functions: \<open>None\<close> is a loop that never ends.
  On a well-formed queue they return, which is part of each specification below.
\<close>

section \<open>The pointer-level functions\<close>

definition set_wait_next :: "nat \<Rightarrow> nat option \<Rightarrow> task_store \<Rightarrow> task_store" where
  "set_wait_next t p ts = upd_task t (\<lambda>b. b\<lparr>wait_next := p\<rparr>) ts"

text \<open>The loop of wait\_push: the first waiter of smaller priority and its predecessor.\<close>

partial_function (option) push_scan ::
  "task_store \<Rightarrow> u32 \<Rightarrow> nat option \<Rightarrow> nat option \<Rightarrow> (nat option \<times> nat option) option" where
  "push_scan ts prio prev scan =
     (case scan of
        None \<Rightarrow> Some (prev, None)
      | Some s \<Rightarrow> if prio \<le> priority (ts s) then push_scan ts prio scan (wait_next (ts s))
                  else Some (prev, scan))"

definition wait_push :: "nat \<Rightarrow> wait_ends \<Rightarrow> task_store \<Rightarrow> (wait_ends \<times> task_store) option" where
  "wait_push task q ts = do {
     let ts = set_wait_next task None ts;
     (prev, scan) \<leftarrow> push_scan ts (priority (ts task)) None (fst q);
     case prev of
       None \<Rightarrow>
         Some ((Some task, if snd q = None then Some task else snd q),
               set_wait_next task (fst q) ts)
     | Some p \<Rightarrow>
         (let ts = set_wait_next task scan ts;
              ts = set_wait_next p (Some task) ts
          in Some ((fst q, if scan = None then Some task else snd q), ts))
   }"

partial_function (option) wait_pop ::
  "wait_ends \<Rightarrow> task_store \<Rightarrow> (nat option \<times> wait_ends \<times> task_store) option" where
  "wait_pop q ts =
     (case fst q of
        None \<Rightarrow> Some (None, q, ts)
      | Some task \<Rightarrow>
          (let head = wait_next (ts task);
               q' = (head, if head = None then None else snd q);
               ts' = set_wait_next task None ts
           in if task_state (ts' task) = RTOS_TASK_BLOCKED \<and> wait_result (ts' task) = RTOS_OK
              then Some (Some task, q', upd_task task (\<lambda>b. b\<lparr>wait_type := RTOS_WAIT_NONE\<rparr>) ts')
              else wait_pop q' ts'))"

text \<open>Taking \<open>s\<close>, whose successor is \<open>nxt\<close>, out of the list behind its predecessor \<open>prev\<close>.\<close>

definition unlink ::
  "nat option \<Rightarrow> nat \<Rightarrow> nat option \<Rightarrow> wait_ends \<Rightarrow> task_store \<Rightarrow> wait_ends \<times> task_store" where
  "unlink prev s nxt q ts =
     (let (q, ts) =
        (case prev of
           None \<Rightarrow> ((nxt, snd q), ts)
         | Some p \<Rightarrow> (q, set_wait_next p nxt ts));
        q = (fst q, if snd q = Some s then prev else snd q)
      in (q, set_wait_next s None ts))"

partial_function (option) remove_scan ::
  "nat \<Rightarrow> wait_ends \<Rightarrow> task_store \<Rightarrow> nat option \<Rightarrow> nat option \<Rightarrow> (wait_ends \<times> task_store) option" where
  "remove_scan task q ts prev scan =
     (case scan of
        None \<Rightarrow> Some (q, ts)
      | Some s \<Rightarrow>
          (if s = task then Some (unlink prev s (wait_next (ts s)) q ts)
           else remove_scan task q ts scan (wait_next (ts s))))"

definition wait_remove :: "nat \<Rightarrow> wait_ends \<Rightarrow> task_store \<Rightarrow> (wait_ends \<times> task_store) option" where
  "wait_remove task q ts = remove_scan task q ts None (fst q)"

section \<open>The list a queue represents\<close>

text \<open>\<open>waitq ts q xs\<close>: from the head of \<open>q\<close> the tasks \<open>xs\<close> are linked, and the tail is the last.\<close>

definition waitq :: "task_store \<Rightarrow> wait_ends \<Rightarrow> nat list \<Rightarrow> bool" where
  "waitq ts q xs \<longleftrightarrow> linked (\<lambda>x. wait_next (ts x)) (fst q) xs \<and> snd q = last_opt xs"

lemma waitq_Nil [simp]: "waitq ts (None, None) []"
  by (simp add: waitq_def)

lemma waitq_distinct: "waitq ts q xs \<Longrightarrow> distinct xs"
  by (auto simp: waitq_def intro: linked_distinct)

lemma waitq_ends: "waitq ts q xs \<Longrightarrow> q = (hd_opt xs, last_opt xs)"
  by (cases q) (auto simp: waitq_def dest: linked_hd)

lemma waitq_unique: "waitq ts q xs \<Longrightarrow> waitq ts q ys \<Longrightarrow> xs = ys"
  by (auto simp: waitq_def intro: linked_functional)

lemma waitq_cong:
  "(\<And>x. x \<in> set xs \<Longrightarrow> wait_next (ts x) = wait_next (ts' x)) \<Longrightarrow> waitq ts q xs = waitq ts' q xs"
  unfolding waitq_def by (intro conj_cong segment_cong) auto

text \<open>A waiter that has been neither woken nor timed out.\<close>

definition live :: "task_store \<Rightarrow> nat \<Rightarrow> bool" where
  "live ts x \<longleftrightarrow> task_state (ts x) = RTOS_TASK_BLOCKED \<and> wait_result (ts x) = RTOS_OK"

text \<open>\<open>relinked S ts ts'\<close>: the stores differ in the links of the tasks in \<open>S\<close> only.\<close>

definition relinked :: "nat set \<Rightarrow> task_store \<Rightarrow> task_store \<Rightarrow> bool" where
  "relinked S ts ts' \<longleftrightarrow>
     (\<forall>x. ts' x = (ts x)\<lparr>wait_next := wait_next (ts' x)\<rparr>) \<and> (\<forall>x. x \<notin> S \<longrightarrow> ts' x = ts x)"

lemma set_wait_next_other [simp]: "x \<noteq> t \<Longrightarrow> set_wait_next t p ts x = ts x"
  by (simp add: set_wait_next_def)

lemma relinked_refl [simp]: "relinked S ts ts"
  by (simp add: relinked_def)

lemma relinked_set [simp]: "x \<in> S \<Longrightarrow> relinked S ts (set_wait_next x p ts)"
  by (simp add: relinked_def set_wait_next_def upd_task_apply)

lemma relinked_trans: "relinked S ts ts' \<Longrightarrow> relinked S ts' ts'' \<Longrightarrow> relinked S ts ts''"
  unfolding relinked_def by (metis rtos_task.surjective rtos_task.update_convs(9))

lemma relinked_fields:
  assumes "relinked S ts ts'"
  shows "task_state (ts' x) = task_state (ts x)" "wait_result (ts' x) = wait_result (ts x)"
    "priority (ts' x) = priority (ts x)" "base_priority (ts' x) = base_priority (ts x)"
    "delay_ticks (ts' x) = delay_ticks (ts x)" "wait_type (ts' x) = wait_type (ts x)"
    "next_task (ts' x) = next_task (ts x)" "live ts' x = live ts x"
    "wait_flags (ts' x) = wait_flags (ts x)" "wait_flags_all (ts' x) = wait_flags_all (ts x)"
    "wait_flags_clear (ts' x) = wait_flags_clear (ts x)"
    "wait_flags_result (ts' x) = wait_flags_result (ts x)"
    "wait_object_result (ts' x) = wait_object_result (ts x)"
proof -
  from assms have "ts' x = (ts x)\<lparr>wait_next := wait_next (ts' x)\<rparr>" by (simp add: relinked_def)
  then obtain p where "ts' x = (ts x)\<lparr>wait_next := p\<rparr>" by blast
  then show "task_state (ts' x) = task_state (ts x)" "wait_result (ts' x) = wait_result (ts x)"
    "priority (ts' x) = priority (ts x)" "base_priority (ts' x) = base_priority (ts x)"
    "delay_ticks (ts' x) = delay_ticks (ts x)" "wait_type (ts' x) = wait_type (ts x)"
    "next_task (ts' x) = next_task (ts x)" "live ts' x = live ts x"
    "wait_flags (ts' x) = wait_flags (ts x)" "wait_flags_all (ts' x) = wait_flags_all (ts x)"
    "wait_flags_clear (ts' x) = wait_flags_clear (ts x)"
    "wait_flags_result (ts' x) = wait_flags_result (ts x)"
    "wait_object_result (ts' x) = wait_object_result (ts x)"
    by (simp_all add: live_def)
qed

lemma relinked_other: "relinked S ts ts' \<Longrightarrow> x \<notin> S \<Longrightarrow> ts' x = ts x"
  by (simp add: relinked_def)

lemma relinked_waitq:
  "relinked S ts ts' \<Longrightarrow> S \<inter> set ys = {} \<Longrightarrow> waitq ts' q ys = waitq ts q ys"
  by (rule waitq_cong) (metis disjoint_iff relinked_other)

lemma wait_next_set [simp]:
  "(\<lambda>x. wait_next (set_wait_next t p ts x)) = (\<lambda>x. wait_next (ts x))(t := p)"
  by (auto simp: set_wait_next_def upd_task_apply)

lemma set_wait_next_fields [simp]:
  "priority (set_wait_next t p ts x) = priority (ts x)"
  "task_state (set_wait_next t p ts x) = task_state (ts x)"
  "wait_result (set_wait_next t p ts x) = wait_result (ts x)"
  "wait_next (set_wait_next t p ts t) = p"
  "x \<noteq> t \<Longrightarrow> wait_next (set_wait_next t p ts x) = wait_next (ts x)"
  "live (set_wait_next t p ts) x = live ts x"
  by (simp_all add: set_wait_next_def upd_task_apply live_def)

section \<open>wait\_push inserts by priority\<close>

lemma push_scan_linked:
  assumes "linked (\<lambda>x. wait_next (ts x)) scan xs"
  shows "push_scan ts prio prev scan =
    (let as = takeWhile (\<lambda>x. prio \<le> priority (ts x)) xs;
         bs = dropWhile (\<lambda>x. prio \<le> priority (ts x)) xs
     in Some (if as = [] then prev else Some (last as), hd_opt bs))"
  using assms
proof (induction xs arbitrary: prev scan)
  case Nil
  then show ?case by (simp add: push_scan.simps)
next
  case (Cons x xs)
  then show ?case by (auto simp: push_scan.simps[of ts prio prev] Let_def)
qed

lemma wait_push_spec:
  assumes wq: "waitq ts q xs" and t: "t \<notin> set xs"
  shows "\<exists>q' ts'. wait_push t q ts = Some (q', ts') \<and>
           waitq ts' q' (prio_insert (\<lambda>x. priority (ts x)) t xs) \<and>
           relinked (insert t (set xs)) ts ts'"
proof -
  define ts1 where "ts1 = set_wait_next t None ts"
  define as where "as = takeWhile (\<lambda>x. priority (ts t) \<le> priority (ts x)) xs"
  define bs where "bs = dropWhile (\<lambda>x. priority (ts t) \<le> priority (ts x)) xs"
  have xs: "xs = as @ bs" by (simp add: as_def bs_def)
  have ins: "prio_insert (\<lambda>x. priority (ts x)) t xs = as @ t # bs"
    by (simp add: prio_insert_split as_def bs_def)
  have lk: "linked (\<lambda>x. wait_next (ts1 x)) (fst q) xs" and tl: "snd q = last_opt xs"
    using wq t by (simp_all add: waitq_def ts1_def)
  have scan: "push_scan ts1 (priority (ts1 t)) None (fst q) =
      Some (if as = [] then None else Some (last as), hd_opt bs)"
    using push_scan_linked[OF lk, of "priority (ts1 t)" None]
    by (simp add: Let_def as_def bs_def ts1_def)
  show ?thesis
  proof (cases "as = []")
    case True
    let ?ts = "set_wait_next t (fst q) ts1"
    have "wait_push t q ts = Some ((Some t, if snd q = None then Some t else snd q), ?ts)"
      using scan True by (simp add: wait_push_def flip: ts1_def)
    moreover have "waitq ?ts (Some t, if snd q = None then Some t else snd q) (t # xs)"
      using lk tl t by (simp add: waitq_def last_opt_Cons)
    moreover have "relinked (insert t (set xs)) ts ?ts"
      unfolding ts1_def by (rule relinked_trans[of _ _ "set_wait_next t None ts"]) simp_all
    ultimately show ?thesis using True xs ins by auto
  next
    case False
    let ?p = "last as"
    let ?ts = "set_wait_next ?p (Some t) (set_wait_next t (hd_opt bs) ts1)"
    have p: "?p \<in> set xs" using False xs by simp
    have "wait_push t q ts = Some ((fst q, if hd_opt bs = None then Some t else snd q), ?ts)"
      using scan False by (simp add: wait_push_def Let_def flip: ts1_def)
    moreover have "waitq ?ts (fst q, if hd_opt bs = None then Some t else snd q) (as @ t # bs)"
      using linked_insert_mid[of "\<lambda>x. wait_next (ts1 x)" "fst q" as bs t] lk tl t False
      by (simp add: waitq_def xs last_opt_append last_opt_Cons)
    moreover have "relinked (insert t (set xs)) ts ?ts"
      unfolding ts1_def
      by (rule relinked_trans[of _ _ "set_wait_next t (hd_opt bs) (set_wait_next t None ts)"],
          rule relinked_trans[of _ _ "set_wait_next t None ts"]) (use p in simp_all)
    ultimately show ?thesis using ins by auto
  qed
qed

section \<open>wait\_pop takes the first live waiter\<close>

text \<open>What popping does to the store: dead waiters and the woken one are unlinked.\<close>

fun pop_store :: "task_store \<Rightarrow> nat list \<Rightarrow> task_store" where
  "pop_store ts [] = ts"
| "pop_store ts (x # xs) =
     (if live ts x then upd_task x (\<lambda>b. b\<lparr>wait_type := RTOS_WAIT_NONE\<rparr>) (set_wait_next x None ts)
      else pop_store (set_wait_next x None ts) xs)"

definition first_live :: "task_store \<Rightarrow> nat list \<Rightarrow> nat option" where
  "first_live ts xs = hd_opt (dropWhile (\<lambda>y. \<not> live ts y) xs)"

definition after_live :: "task_store \<Rightarrow> nat list \<Rightarrow> nat list" where
  "after_live ts xs = tl (dropWhile (\<lambda>y. \<not> live ts y) xs)"

lemma first_live_simps [simp]:
  "first_live ts [] = None"
  "first_live ts (x # xs) = (if live ts x then Some x else first_live ts xs)"
  by (simp_all add: first_live_def)

lemma after_live_simps [simp]:
  "after_live ts [] = []"
  "after_live ts (x # xs) = (if live ts x then xs else after_live ts xs)"
  by (simp_all add: after_live_def)

lemma first_live_SomeD: "first_live ts xs = Some x \<Longrightarrow> x \<in> set xs \<and> live ts x"
  by (induction xs) (auto split: if_splits)

lemma first_live_None: "first_live ts xs = None \<longleftrightarrow> (\<forall>x \<in> set xs. \<not> live ts x)"
  by (induction xs) auto

lemma set_after_live: "set (after_live ts xs) \<subseteq> set xs"
  by (induction xs) auto

lemma first_live_cong:
  "(\<And>x. x \<in> set xs \<Longrightarrow> live ts x = live ts' x) \<Longrightarrow> first_live ts xs = first_live ts' xs"
  by (induction xs) auto

lemma first_live_max:
  "prio_sorted f xs \<Longrightarrow> first_live ts xs = Some t \<Longrightarrow> y \<in> set xs \<Longrightarrow> live ts y \<Longrightarrow> f y \<le> f t"
  by (induction xs) (auto split: if_splits)

lemma prio_sorted_after_live: "prio_sorted f xs \<Longrightarrow> prio_sorted f (after_live ts xs)"
  by (induction xs) auto

lemma after_live_distinct: "distinct xs \<Longrightarrow> first_live ts xs = Some t \<Longrightarrow> t \<notin> set (after_live ts xs)"
  by (induction xs) (auto split: if_splits)

lemma hd_filter_live: "hd_opt (filter (live ts) xs) = first_live ts xs"
  by (induction xs) auto

lemma filter_after_live: "filter (live ts) (after_live ts xs) = tl (filter (live ts) xs)"
  by (induction xs) auto

lemma after_live_Nil: "first_live ts xs = None \<Longrightarrow> after_live ts xs = []"
  by (induction xs) (auto split: if_splits)

lemma live_queries_relink [simp]:
  "first_live (set_wait_next t p ts) xs = first_live ts xs"
  "after_live (set_wait_next t p ts) xs = after_live ts xs"
  by (simp_all add: first_live_def after_live_def)

lemma pop_store_nonmember: "x \<notin> set xs \<Longrightarrow> pop_store ts xs x = ts x"
  by (induction xs arbitrary: ts) auto

lemma pop_store_fields [simp]:
  "task_state (pop_store ts xs x) = task_state (ts x)"
  "wait_result (pop_store ts xs x) = wait_result (ts x)"
  "priority (pop_store ts xs x) = priority (ts x)"
  "base_priority (pop_store ts xs x) = base_priority (ts x)"
  "delay_ticks (pop_store ts xs x) = delay_ticks (ts x)"
  "next_task (pop_store ts xs x) = next_task (ts x)"
  by (induction xs arbitrary: ts) (auto simp: set_wait_next_def upd_task_apply)

lemma pop_store_rest: "distinct xs \<Longrightarrow> x \<in> set (after_live ts xs) \<Longrightarrow> pop_store ts xs x = ts x"
proof (induction xs arbitrary: ts)
  case Nil
  then show ?case by simp
next
  case (Cons y ys)
  then have "x \<noteq> y" using set_after_live[of ts ys] by (auto split: if_splits)
  with Cons show ?case by (auto split: if_splits)
qed

lemma wait_pop_eq:
  assumes "waitq ts q xs"
  shows "wait_pop q ts =
    Some (first_live ts xs, (hd_opt (after_live ts xs), last_opt (after_live ts xs)), pop_store ts xs)"
  using assms
proof (induction xs arbitrary: q ts)
  case Nil
  then have "q = (None, None)" by (auto dest: waitq_ends)
  then show ?case by (simp add: wait_pop.simps)
next
  case (Cons x xs)
  then have q: "q = (Some x, last_opt (x # xs))" by (auto dest: waitq_ends)
  from Cons.prems have lk: "linked (\<lambda>y. wait_next (ts y)) (wait_next (ts x)) xs"
    by (simp add: waitq_def)
  have x: "x \<notin> set xs" using waitq_distinct[OF Cons.prems] by simp
  let ?ts = "set_wait_next x None ts"
  let ?q = "(wait_next (ts x), if wait_next (ts x) = None then None else snd q)"
  have q': "?q = (hd_opt xs, last_opt xs)"
    using linked_hd[OF lk] q by (auto simp: last_opt_Cons)
  have wq: "waitq ?ts ?q xs"
    using lk x linked_hd[OF lk] unfolding q' by (simp add: waitq_def)
  show ?case
  proof (cases "live ts x")
    case True
    then have "wait_pop q ts =
        Some (Some x, ?q, upd_task x (\<lambda>b. b\<lparr>wait_type := RTOS_WAIT_NONE\<rparr>) ?ts)"
      by (subst wait_pop.simps) (simp add: q Let_def live_def)
    with True show ?thesis by (simp add: q')
  next
    case False
    then have "wait_pop q ts = wait_pop ?q ?ts"
      by (subst wait_pop.simps) (auto simp: q Let_def live_def)
    also have "\<dots> = Some (first_live ?ts xs, (hd_opt (after_live ?ts xs), last_opt (after_live ?ts xs)),
        pop_store ?ts xs)"
      by (rule Cons.IH[OF wq])
    finally show ?thesis using False by simp
  qed
qed

lemma waitq_pop_store:
  assumes "waitq ts q xs"
  shows "waitq (pop_store ts xs) (hd_opt (after_live ts xs), last_opt (after_live ts xs)) (after_live ts xs)"
proof -
  obtain us where xs: "xs = us @ after_live ts xs"
    unfolding after_live_def by (metis append.assoc append_take_drop_id dropWhile_eq_drop drop_Suc tl_drop)
  have "\<exists>p. linked (\<lambda>y. wait_next (ts y)) p (after_live ts xs)"
    using assms by (subst (asm) xs) (auto simp: waitq_def segment_append)
  then have "linked (\<lambda>y. wait_next (ts y)) (hd_opt (after_live ts xs)) (after_live ts xs)"
    by (auto dest: linked_hd)
  then have "waitq ts (hd_opt (after_live ts xs), last_opt (after_live ts xs)) (after_live ts xs)"
    by (simp add: waitq_def)
  then show ?thesis
    using pop_store_rest[OF waitq_distinct[OF assms]] by (subst waitq_cong[where ts' = ts]) auto
qed

lemma pop_store_waitq:
  "set xs \<inter> set ys = {} \<Longrightarrow> waitq (pop_store ts xs) q ys = waitq ts q ys"
  by (rule waitq_cong) (metis disjoint_iff pop_store_nonmember)

lemma live_pop_store [simp]: "live (pop_store ts xs) x = live ts x"
  by (simp add: live_def)

section \<open>wait\_remove deletes one waiter\<close>

lemma unlink_linked:
  assumes wq: "waitq ts q (us @ x # xs)" and prev: "prev = last_opt us"
  shows "\<exists>q' ts'. unlink prev x (wait_next (ts x)) q ts = (q', ts') \<and> waitq ts' q' (us @ xs) \<and>
    relinked (set (us @ x # xs)) ts ts'"
proof -
  from wq have lk: "linked (\<lambda>y. wait_next (ts y)) (fst q) (us @ x # xs)"
    and tl: "snd q = last_opt (us @ x # xs)" by (simp_all add: waitq_def)
  have dis: "x \<notin> set us" "x \<notin> set xs" "distinct us"
    using waitq_distinct[OF wq] by auto
  have nx: "wait_next (ts x) = hd_opt xs"
    using lk by (auto simp: segment_append dest: linked_hd)
  have tail: "(if snd q = Some x then prev else snd q) = last_opt (us @ xs)"
    using tl dis prev by (auto simp: last_opt_append last_opt_Cons dest: last_opt_SomeD)
  show ?thesis
  proof (cases "us = []")
    case us: True
    have "unlink prev x (wait_next (ts x)) q ts =
        ((hd_opt xs, last_opt (us @ xs)), set_wait_next x None ts)"
      using prev us nx tail by (auto simp: unlink_def split: if_splits)
    moreover have "waitq (set_wait_next x None ts) (hd_opt xs, last_opt (us @ xs)) xs"
      using lk dis us nx by (simp add: waitq_def)
    ultimately show ?thesis using us by simp
  next
    case False
    let ?ts = "set_wait_next (last us) (wait_next (ts x)) ts"
    have "prev = Some (last us)" using prev False by (simp add: last_opt_def)
    then have "unlink prev x (wait_next (ts x)) q ts =
        ((fst q, last_opt (us @ xs)), set_wait_next x None ?ts)"
      using tail by (simp add: unlink_def Let_def split: if_splits)
    moreover have "waitq (set_wait_next x None ?ts) (fst q, last_opt (us @ xs)) (us @ xs)"
      using linked_remove_mid[OF lk False] dis by (simp add: waitq_def)
    moreover have "relinked (set (us @ x # xs)) ts (set_wait_next x None ?ts)"
      using False by (intro relinked_trans[OF relinked_set relinked_set]) simp_all
    ultimately show ?thesis by simp
  qed
qed

lemma waitq_next: "waitq ts q (us @ x # xs) \<Longrightarrow> wait_next (ts x) = hd_opt xs"
  by (auto simp: waitq_def segment_append dest: linked_hd)

lemma remove_scan_linked:
  assumes "waitq ts q (us @ xs)" and "prev = last_opt us" and "scan = hd_opt xs"
    and "t \<notin> set us"
  shows "\<exists>q' ts'. remove_scan t q ts prev scan = Some (q', ts') \<and>
     waitq ts' q' (us @ remove1 t xs) \<and> relinked (set (us @ xs)) ts ts'"
  using assms
proof (induction xs arbitrary: us prev scan)
  case Nil
  then show ?case by (simp add: remove_scan.simps)
next
  case (Cons x xs)
  show ?case
  proof (cases "x = t")
    case False
    then have "remove_scan t q ts prev scan = remove_scan t q ts (Some x) (hd_opt xs)"
      using Cons.prems waitq_next[OF Cons.prems(1)] by (subst remove_scan.simps) simp
    then show ?thesis
      using Cons.IH[of "us @ [x]" "Some x" "hd_opt xs"] Cons.prems False
      by (simp add: last_opt_append last_opt_Cons)
  next
    case True
    then have "remove_scan t q ts prev scan = Some (unlink prev x (wait_next (ts x)) q ts)"
      using Cons.prems(3) by (subst remove_scan.simps) simp
    then show ?thesis using unlink_linked[OF Cons.prems(1,2)] True by auto
  qed
qed

lemma wait_remove_spec:
  assumes "waitq ts q xs"
  shows "\<exists>q' ts'. wait_remove t q ts = Some (q', ts') \<and> waitq ts' q' (remove1 t xs) \<and>
           relinked (set xs) ts ts'"
  using remove_scan_linked[of ts q "[]" xs None "hd_opt xs" t] assms waitq_ends[OF assms]
  by (simp add: wait_remove_def)

end
