(* ===== verification/Port_Layer.thy ===== *)
theory Port_Layer
  imports Kernel_State
begin

text \<open>
  The Cortex-M4 port (port/cortex\_m4/port.c) and the critical sections the kernel builds on
  it (kernel/critical.c): nested masking of interrupts through PRIMASK, the request for a
  context switch through PendSV, and the programming of the system control registers.
\<close>

section \<open>Special registers\<close>

definition read_primask :: "port_state \<Rightarrow> u32" where
  "read_primask p = cpu_primask p"

definition read_ipsr :: "port_state \<Rightarrow> u32" where
  "read_ipsr p = cpu_ipsr p"

definition write_primask :: "u32 \<Rightarrow> port_state \<Rightarrow> port_state" where
  "write_primask v p = p\<lparr>cpu_primask := v\<rparr>"

text \<open>The instruction \<open>cpsid i\<close>.\<close>

definition cpsid_i :: "port_state \<Rightarrow> port_state" where
  "cpsid_i p = p\<lparr>cpu_primask := 1\<rparr>"

section \<open>Programming the system control block\<close>

definition port_init_scheduler :: "port_state \<Rightarrow> port_state" where
  "port_init_scheduler p = p\<lparr>scb_shpr3 := scb_shpr3 p OR (push_bit 16 0xFF OR push_bit 24 0xFF)\<rparr>"

definition port_setup_systick :: "u32 \<Rightarrow> u32 \<Rightarrow> port_state \<Rightarrow> port_state" where
  "port_setup_systick cpu_hz tick_hz p =
     (let reload = cpu_hz div tick_hz - 1;
          p1 = p\<lparr>syst_csr := 0\<rparr>;
          p2 = p1\<lparr>syst_rvr := reload\<rparr>;
          p3 = p2\<lparr>syst_cvr := 0\<rparr>
      in p3\<lparr>syst_csr := push_bit 2 1 OR push_bit 1 1 OR push_bit 0 1\<rparr>)"

definition port_trigger_pendsv :: "port_state \<Rightarrow> port_state" where
  "port_trigger_pendsv p = p\<lparr>pendsv_pending := True\<rparr>"

section \<open>Nested critical sections\<close>

definition port_enter_critical :: "port_state \<Rightarrow> port_state" where
  "port_enter_critical p =
     (let primask = read_primask p;
          p1 = cpsid_i p;
          p2 = (if critical_nesting p1 = 0 then p1\<lparr>saved_primask := primask\<rparr> else p1)
      in p2\<lparr>critical_nesting := critical_nesting p2 + 1\<rparr>)"

definition port_exit_critical :: "port_state \<Rightarrow> port_state" where
  "port_exit_critical p =
     (if critical_nesting p = 0 then p
      else let p1 = p\<lparr>critical_nesting := critical_nesting p - 1\<rparr>
           in if critical_nesting p1 = 0 then write_primask (saved_primask p1) p1 else p1)"

definition port_in_isr :: "port_state \<Rightarrow> u32" where
  "port_in_isr p = (if read_ipsr p \<noteq> 0 then 1 else 0)"

definition rtos_enter_critical :: "kernel \<Rightarrow> kernel" where
  "rtos_enter_critical k = k\<lparr>port := port_enter_critical (port k)\<rparr>"

definition rtos_exit_critical :: "kernel \<Rightarrow> kernel" where
  "rtos_exit_critical k = k\<lparr>port := port_exit_critical (port k)\<rparr>"

definition rtos_yield :: "kernel \<Rightarrow> kernel" where
  "rtos_yield k = k\<lparr>port := port_trigger_pendsv (port k)\<rparr>"

definition rtos_in_isr :: "kernel \<Rightarrow> u32" where
  "rtos_in_isr k = port_in_isr (port k)"

text \<open>
  Entering, leaving and yielding touch the port only, so these three unfold in every proof:
  the other fields of the kernel compute through them.
\<close>

lemmas port_calls [simp] = rtos_enter_critical_def rtos_exit_critical_def rtos_yield_def

section \<open>Well-formed port states and balanced sections\<close>

text \<open>
  \<open>crit_ok n p\<close>: inside a critical section interrupts are masked, and there is room for \<open>n\<close>
  more levels of nesting before the 32-bit counter wraps.
\<close>

definition crit_ok :: "nat \<Rightarrow> port_state \<Rightarrow> bool" where
  "crit_ok n p \<longleftrightarrow> unat (critical_nesting p) + n < 2 ^ 32 \<and>
     (critical_nesting p \<noteq> 0 \<longrightarrow> cpu_primask p = 1)"

text \<open>What an enter and its exit leave behind: the mask as it was, and the saved copy of it.\<close>

definition port_crit :: "port_state \<Rightarrow> port_state" where
  "port_crit p =
     p\<lparr>saved_primask := (if critical_nesting p = 0 then cpu_primask p else saved_primask p)\<rparr>"

lemma port_crit_simps [simp]:
  "critical_nesting (port_crit p) = critical_nesting p"
  "cpu_primask (port_crit p) = cpu_primask p"
  "pendsv_pending (port_crit p) = pendsv_pending p"
  "cpu_ipsr (port_crit p) = cpu_ipsr p"
  "port_crit (port_crit p) = port_crit p"
  by (simp_all add: port_crit_def)

lemma crit_ok_mono: "crit_ok n p \<Longrightarrow> m \<le> n \<Longrightarrow> crit_ok m p"
  by (auto simp: crit_ok_def)

lemma crit_ok_crit [simp]: "crit_ok n (port_crit p) = crit_ok n p"
  by (simp add: crit_ok_def)

lemma crit_ok_enter: "crit_ok (Suc n) p \<Longrightarrow> crit_ok n (port_enter_critical p)"
  by (auto simp: crit_ok_def port_enter_critical_def Let_def cpsid_i_def unat_Suc_u32)

lemma enter_masks [simp]: "cpu_primask (port_enter_critical p) = 1"
  by (simp add: port_enter_critical_def Let_def cpsid_i_def)

lemma nesting_enter:
  "crit_ok (Suc n) p \<Longrightarrow>
     unat (critical_nesting (port_enter_critical p)) = Suc (unat (critical_nesting p))"
  by (auto simp: crit_ok_def port_enter_critical_def Let_def cpsid_i_def unat_Suc_u32)

lemma exit_enter [crit_simps]:
  assumes "crit_ok (Suc n) p"
  shows "port_exit_critical (port_enter_critical p) = port_crit p"
proof -
  have "critical_nesting (port_enter_critical p) \<noteq> 0"
    using nesting_enter[OF assms] by auto
  then show ?thesis
    using assms
    by (auto simp: port_exit_critical_def port_enter_critical_def port_crit_def Let_def
        cpsid_i_def write_primask_def read_primask_def crit_ok_def)
qed

lemma crit_in_section [crit_simps]:
  assumes "crit_ok (Suc n) p"
  shows "port_crit (port_enter_critical p) = port_enter_critical p"
proof -
  have "critical_nesting (port_enter_critical p) \<noteq> 0"
    using nesting_enter[OF assms] by auto
  then show ?thesis by (simp add: port_crit_def)
qed

text \<open>
  Whole programs of enter and exit calls. A balanced program nests properly; sequences and
  nesting are both covered by the second rule.
\<close>

datatype crit_op = Enter | Exit

fun crit_call :: "crit_op \<Rightarrow> port_state \<Rightarrow> port_state" where
  "crit_call Enter p = port_enter_critical p"
| "crit_call Exit p = port_exit_critical p"

inductive balanced :: "crit_op list \<Rightarrow> bool" where
  empty: "balanced []"
| nest: "balanced xs \<Longrightarrow> balanced ys \<Longrightarrow> balanced (Enter # xs @ Exit # ys)"

lemma fold_balanced:
  assumes "balanced cs" and "crit_ok (length cs) p"
  shows "fold crit_call cs p = (if cs = [] then p else port_crit p)"
  using assms
proof (induction cs arbitrary: p rule: balanced.induct)
  case empty
  then show ?case by simp
next
  case (nest xs ys)
  have ok: "crit_ok (Suc (length xs)) p" "crit_ok (length ys) p"
    using nest.prems by (auto intro: crit_ok_mono)
  let ?q = "port_enter_critical p"
  have "fold crit_call xs ?q = (if xs = [] then ?q else port_crit ?q)"
    using nest.IH(1)[OF crit_ok_enter[OF ok(1)]] .
  then have "fold crit_call (Enter # xs @ [Exit]) p = port_crit p"
    using ok by (auto simp: crit_in_section exit_enter)
  moreover have "fold crit_call ys (port_crit p) = port_crit p"
    using nest.IH(2)[of "port_crit p"] ok by simp
  ultimately show ?case by simp
qed

lemma port_crit_yield [simp]:
  "critical_nesting (port_trigger_pendsv p) = critical_nesting p"
  "cpu_primask (port_trigger_pendsv p) = cpu_primask p"
  "pendsv_pending (port_trigger_pendsv p) = True"
  "crit_ok n (port_trigger_pendsv p) = crit_ok n p"
  by (simp_all add: port_trigger_pendsv_def crit_ok_def)

section \<open>Properties\<close>

lemma balanced_prefix_masked:
  assumes "balanced cs" and "crit_ok (length cs) p" and "critical_nesting p \<noteq> 0"
  shows "cpu_primask (fold crit_call (take n cs) p) = 1"
  using assms
proof (induction cs arbitrary: p n rule: balanced.induct)
  case empty
  then show ?case by (simp add: crit_ok_def)
next
  case (nest xs ys)
  let ?q = "port_enter_critical p"
  have ok: "crit_ok (Suc (length xs)) p" "crit_ok (length ys) p"
    using nest.prems(1) by (auto intro: crit_ok_mono)
  have q: "crit_ok (length xs) ?q" "critical_nesting ?q \<noteq> 0"
    using crit_ok_enter[OF ok(1)] nesting_enter[OF ok(1)] by auto
  consider "n = 0" | (inner) m where "n = Suc m" "m \<le> length xs"
    | (outer) m where "n = Suc (Suc (length xs) + m)"
    by (metis add_Suc_right le_Suc_ex not0_implies_Suc not_less_eq_eq add.commute)
  then show ?case
  proof cases
    case 1
    with nest.prems show ?thesis by (simp add: crit_ok_def)
  next
    case inner
    then show ?thesis using nest.IH(1)[OF q] by simp
  next
    case outer
    have "balanced (Enter # xs @ [Exit])"
      using balanced.nest[OF nest.hyps(1) balanced.empty] by simp
    then have "fold crit_call (Enter # xs @ [Exit]) p = port_crit p"
      using fold_balanced nest.prems(1) by (force intro: crit_ok_mono)
    then show ?thesis
      using nest.IH(2)[of "port_crit p" m] nest.prems(2) ok outer by simp
  qed
qed

text \<open>
  C18. Nested critical sections: a properly nested sequence of enter and exit calls leaves the
  interrupt mask and the nesting level as it found them, and from the outer enter to its exit
  interrupts are masked at every intermediate point.
\<close>

theorem balanced_sections:
  assumes "balanced cs" and "crit_ok (length cs + 2) p"
  shows "cpu_primask (fold crit_call (Enter # cs @ [Exit]) p) = cpu_primask p \<and>
    critical_nesting (fold crit_call (Enter # cs @ [Exit]) p) = critical_nesting p \<and>
    (\<forall>n. cpu_primask (fold crit_call (Enter # take n cs) p) = 1)"
proof (intro conjI)
  have "balanced (Enter # cs @ [Exit])"
    using balanced.nest[OF assms(1) balanced.empty] by simp
  from fold_balanced[OF this] assms(2)
  have all: "fold crit_call (Enter # cs @ [Exit]) p = port_crit p" by simp
  then show "cpu_primask (fold crit_call (Enter # cs @ [Exit]) p) = cpu_primask p"
    and "critical_nesting (fold crit_call (Enter # cs @ [Exit]) p) = critical_nesting p"
    by (simp_all only: port_crit_simps)
  have ok: "crit_ok (Suc (length cs)) p" using assms(2) by (auto intro: crit_ok_mono)
  have "critical_nesting (port_enter_critical p) \<noteq> 0" using nesting_enter[OF ok] by auto
  with balanced_prefix_masked[OF assms(1) crit_ok_enter[OF ok]]
  show "\<forall>n. cpu_primask (fold crit_call (Enter # take n cs) p) = 1" by simp
qed

theorem balanced_sections_witness:
  "cpu_primask (fold crit_call [Enter, Enter, Exit, Exit] zero_port) = 0 \<and>
   (\<forall>n. cpu_primask (fold crit_call (Enter # take n [Enter, Exit]) zero_port) = 1)"
proof -
  have b: "balanced [Enter, Exit]" using balanced.nest[OF balanced.empty balanced.empty] by simp
  have ok: "crit_ok (length [Enter, Exit] + 2) zero_port"
    by (simp add: crit_ok_def zero_port_def)
  show ?thesis
    using balanced_sections[OF b ok] by (simp add: zero_port_def)
qed

end
