(* ===== verification/Ticks.thy ===== *)
theory Ticks
  imports Port_Layer
begin

text \<open>
  The tick counter and the conversion of milliseconds to ticks (kernel/tick.c). The tick
  handler itself is in the theory of the system, since it calls most other components.
\<close>

definition rtos_tick_count :: "kernel \<Rightarrow> u32" where
  "rtos_tick_count k = tick_count k"

definition rtos_ms_to_ticks :: "u32 \<Rightarrow> u32" where
  "rtos_ms_to_ticks ms =
     (if ms = RTOS_TIMEOUT_FOREVER then 0
      else let ticks = (ms * RTOS_TICK_HZ + 999) div 1000
           in if ticks = 0 then 1 else ticks)"

lemma unat_ms_to_ticks:
  assumes "ms \<noteq> RTOS_TIMEOUT_FOREVER"
  shows "unat (rtos_ms_to_ticks ms) = max 1 ((1000 * unat ms + 999) mod 2 ^ 32 div 1000)"
proof -
  define t where "t = (ms * RTOS_TICK_HZ + 999) div 1000"
  have unat_t: "unat t = (1000 * unat ms + 999) mod 2 ^ 32 div 1000"
    by (simp add: t_def unat_div_distrib unat_word_ariths mod_simps mult.commute)
  have "rtos_ms_to_ticks ms = (if t = 0 then 1 else t)"
    using assms by (simp add: rtos_ms_to_ticks_def Let_def t_def)
  moreover have "t \<noteq> 0 \<Longrightarrow> 1 \<le> unat t"
    by (simp add: Suc_le_eq unat_gt_0)
  ultimately have "unat (rtos_ms_to_ticks ms) = max 1 (unat t)"
    by (cases "t = 0") (simp_all add: max_def)
  then show ?thesis by (simp only: unat_t)
qed

text \<open>Below the wrap of the product a millisecond is a tick, and no delay is rounded down.\<close>

lemma ms_to_ticks_exact:
  assumes "unat ms \<le> 4294966"
  shows "unat (rtos_ms_to_ticks ms) = max 1 (unat ms)"
proof -
  have "ms \<noteq> RTOS_TIMEOUT_FOREVER" using assms by auto
  then show ?thesis using assms by (simp add: unat_ms_to_ticks)
qed

text \<open>Beyond it every finite delay comes out short.\<close>

lemma ms_to_ticks_short:
  assumes "4294966 < unat ms" and "ms \<noteq> RTOS_TIMEOUT_FOREVER"
  shows "unat (rtos_ms_to_ticks ms) < unat ms"
proof -
  have bound: "(1000 * unat ms + 999) mod 2 ^ 32 div 1000 \<le> 4294967"
  proof -
    have "(1000 * unat ms + 999) mod 2 ^ 32 < 4294967296" by simp
    then show ?thesis by linarith
  qed
  show ?thesis
  proof (cases "unat ms = 4294967")
    case True
    then show ?thesis by (simp add: unat_ms_to_ticks[OF assms(2)])
  next
    case False
    with assms(1) bound show ?thesis by (simp add: unat_ms_to_ticks[OF assms(2)])
  qed
qed

lemma ms_to_ticks_zero_iff: "rtos_ms_to_ticks ms = 0 \<longleftrightarrow> ms = RTOS_TIMEOUT_FOREVER"
  by (auto simp: rtos_ms_to_ticks_def Let_def)

section \<open>Properties\<close>

text \<open>
  Delays are not shortened below 4294967 ms: the conversion returns one tick per
  millisecond (at least one), at the 1000 Hz tick rate; and it returns 0, which the kernel
  reads as no timeout, for RTOS\_TIMEOUT\_FOREVER only.
\<close>

lemma ms_to_ticks_correct:
  "(unat ms \<le> 4294966 \<longrightarrow> unat (rtos_ms_to_ticks ms) = max 1 (unat ms)) \<and>
   (rtos_ms_to_ticks ms = 0 \<longleftrightarrow> ms = RTOS_TIMEOUT_FOREVER)"
  using ms_to_ticks_exact ms_to_ticks_zero_iff by blast

lemma ms_to_ticks_correct_example: "unat (rtos_ms_to_ticks 250) = 250"
proof -
  have "unat (250 :: u32) \<le> 4294966" by simp
  with ms_to_ticks_correct[of 250] have "unat (rtos_ms_to_ticks 250) = max 1 (unat (250 :: u32))"
    by blast
  then show ?thesis by simp
qed

text \<open>
  C40. The product in the conversion wraps: every finite delay of 4294967 ms (71.6 minutes) or
  more is converted to fewer ticks than milliseconds, so rtos\_sleep and every timeout of that
  length end early; 4294967 ms itself becomes a single tick.
\<close>

theorem ms_to_ticks_wraps:
  "4294966 < unat ms \<Longrightarrow> ms \<noteq> RTOS_TIMEOUT_FOREVER \<Longrightarrow> unat (rtos_ms_to_ticks ms) < unat ms"
  by (rule ms_to_ticks_short)

theorem ms_to_ticks_wraps_witness:
  "unat (rtos_ms_to_ticks 4294967) < unat (4294967 :: u32) \<and> rtos_ms_to_ticks 4294967 = 1"
  using ms_to_ticks_wraps[of 4294967] by (simp add: rtos_ms_to_ticks_def Let_def)

end
