(* ===== verification/Wait_Object.thy ===== *)
theory Wait_Object
  imports Wait_Queue Ticks
begin

text \<open>
  The contract between a synchronisation object and its wait queue, as a locale: what the
  push, pop and remove functions of kernel/sem.c, kernel/event.c, kernel/mempool.c,
  kernel/mutex.c and kernel/queue.c promise about the list of waiters the object represents.
  The lemmas of the locale hold for every copy of these functions; each object's theory
  interprets the locale on its own definitions.

  The theory also holds the assignments all blocking calls make to a control block.
\<close>

text \<open>
  What happens between the moment a task yields inside a blocking call and the moment the
  scheduler runs it again: any number of steps of other tasks and of interrupts, as a
  function on the kernel state; \<open>None\<close> is that the task never runs again.
\<close>

type_synonym suspension = "kernel \<Rightarrow> kernel option"

section \<open>Blocking and waking a task\<close>

text \<open>The four assignments with which every blocking call marks the current task.\<close>

definition block_for :: "rtos_wait_type_t \<Rightarrow> u32 \<Rightarrow> rtos_task \<Rightarrow> rtos_task" where
  "block_for wt timeout_ms b =
     b\<lparr>task_state := RTOS_TASK_BLOCKED, delay_ticks := rtos_ms_to_ticks timeout_ms,
       wait_type := wt, wait_result := RTOS_OK\<rparr>"

text \<open>The four assignments with which a waiter is made ready (wake\_task of kernel/queue.c).\<close>

definition wake_up :: "rtos_task \<Rightarrow> rtos_task" where
  "wake_up b =
     b\<lparr>delay_ticks := 0, wait_type := RTOS_WAIT_NONE, wait_result := RTOS_OK,
       task_state := RTOS_TASK_READY\<rparr>"

lemma block_for_simps [simp]:
  "task_state (block_for wt ms b) = RTOS_TASK_BLOCKED"
  "wait_result (block_for wt ms b) = RTOS_OK"
  "wait_type (block_for wt ms b) = wt"
  "delay_ticks (block_for wt ms b) = rtos_ms_to_ticks ms"
  "priority (block_for wt ms b) = priority b"
  "base_priority (block_for wt ms b) = base_priority b"
  "wait_next (block_for wt ms b) = wait_next b"
  "next_task (block_for wt ms b) = next_task b"
  by (simp_all add: block_for_def)

lemma wake_up_simps [simp]:
  "task_state (wake_up b) = RTOS_TASK_READY"
  "wait_result (wake_up b) = RTOS_OK"
  "wait_type (wake_up b) = RTOS_WAIT_NONE"
  "delay_ticks (wake_up b) = 0"
  "priority (wake_up b) = priority b"
  "base_priority (wake_up b) = base_priority b"
  "wait_next (wake_up b) = wait_next b"
  "next_task (wake_up b) = next_task b"
  by (simp_all add: wake_up_def)

lemma waitq_upd_task:
  "(\<And>b. wait_next (f b) = wait_next b) \<Longrightarrow> waitq (upd_task t f ts) q xs = waitq ts q xs"
  by (rule waitq_cong) (simp add: upd_task_apply)

lemma live_upd_other: "x \<noteq> t \<Longrightarrow> live (upd_task t f ts) x = live ts x"
  by (simp add: live_def)

lemma live_blocked [simp]: "live (upd_task t (block_for wt ms) ts) t"
  by (simp add: live_def)

lemma not_live_woken [simp]: "\<not> live (upd_task t wake_up ts) t"
  by (simp add: live_def)

lemma live_wait_type [simp]: "live (upd_task t (wait_type_update f) ts) x = live ts x"
  by (cases "x = t") (simp_all add: live_def)

text \<open>
  The outcome of a call that wakes a waiter of \<open>zs\<close>: the first live one of them is made ready
  and a context switch is requested, and all other tasks keep their state.
\<close>

definition woke_first :: "kernel \<Rightarrow> nat list \<Rightarrow> kernel \<Rightarrow> bool" where
  "woke_first k zs k' \<longleftrightarrow>
     (\<forall>x. task_state (tasks k' x) =
        (if first_live (tasks k) zs = Some x then RTOS_TASK_READY else task_state (tasks k x))) \<and>
     (first_live (tasks k) zs \<noteq> None \<longrightarrow> pendsv_pending (port k'))"

lemma live_priority [simp]: "live (upd_task t (priority_update f) ts) x = live ts x"
  by (cases "x = t") (simp_all add: live_def)

lemma first_live_priority [simp]: "first_live (upd_task t (priority_update f) ts) xs = first_live ts xs"
  "after_live (upd_task t (priority_update f) ts) xs = after_live ts xs"
  by (simp_all add: first_live_def after_live_def)

section \<open>The contract\<close>

locale wait_list =
  fixes waiting :: "task_store \<Rightarrow> 'o \<Rightarrow> nat list \<Rightarrow> bool"
    and push :: "nat \<Rightarrow> 'o \<Rightarrow> task_store \<Rightarrow> ('o \<times> task_store) option"
    and remove :: "nat \<Rightarrow> 'o \<Rightarrow> task_store \<Rightarrow> ('o \<times> task_store) option"
    and payload :: "'o \<Rightarrow> 'p"
  assumes waiting_distinct: "waiting ts ob xs \<Longrightarrow> distinct xs"
    and waiting_unique: "waiting ts ob xs \<Longrightarrow> waiting ts ob ys \<Longrightarrow> xs = ys"
    and waiting_cong: "(\<And>x. x \<in> set xs \<Longrightarrow> wait_next (ts x) = wait_next (ts' x)) \<Longrightarrow>
      waiting ts ob xs = waiting ts' ob xs"
    and push_law: "waiting ts ob xs \<Longrightarrow> t \<notin> set xs \<Longrightarrow>
      \<exists>ob' ts'. push t ob ts = Some (ob', ts') \<and>
        waiting ts' ob' (prio_insert (\<lambda>x. priority (ts x)) t xs) \<and>
        relinked (insert t (set xs)) ts ts' \<and> payload ob' = payload ob"
    and remove_law: "waiting ts ob xs \<Longrightarrow>
      \<exists>ob' ts'. remove t ob ts = Some (ob', ts') \<and> waiting ts' ob' (remove1 t xs) \<and>
        relinked (set xs) ts ts' \<and> payload ob' = payload ob"
begin

text \<open>A store change outside the waiters does not change the list.\<close>

lemma waiting_relinked:
  "relinked S ts ts' \<Longrightarrow> S \<inter> set ys = {} \<Longrightarrow> waiting ts' ob ys = waiting ts ob ys"
  by (rule waiting_cong) (metis disjoint_iff relinked_other)

lemma waiting_upd:
  "t \<notin> set xs \<or> (\<forall>b. wait_next (f b) = wait_next b) \<Longrightarrow>
     waiting (upd_task t f ts) ob xs = waiting ts ob xs"
  by (rule waiting_cong) (auto simp: upd_task_apply)

lemma push_sorted:
  assumes "waiting ts ob xs" and "t \<notin> set xs" and "prio_sorted (\<lambda>x. priority (ts x)) xs"
    and "push t ob ts = Some (ob', ts')"
  shows "\<exists>ys. waiting ts' ob' ys \<and> set ys = insert t (set xs) \<and>
    prio_sorted (\<lambda>x. priority (ts' x)) ys"
proof -
  from push_law[OF assms(1,2)] assms(4)
  have w: "waiting ts' ob' (prio_insert (\<lambda>x. priority (ts x)) t xs)"
    and r: "relinked (insert t (set xs)) ts ts'" by auto
  have "(\<lambda>x. priority (ts' x)) = (\<lambda>x. priority (ts x))"
    using relinked_fields(3)[OF r] by auto
  with w prio_sorted_insert[OF assms(3), of t] show ?thesis by (intro exI) auto
qed

text \<open>Enqueueing and giving up again restores the list of waiters.\<close>

lemma push_remove:
  assumes "waiting ts ob xs" and "t \<notin> set xs"
  shows "\<exists>ob1 ts1 ob2 ts2. push t ob ts = Some (ob1, ts1) \<and> remove t ob1 ts1 = Some (ob2, ts2) \<and>
    waiting ts2 ob2 xs \<and> payload ob2 = payload ob"
proof -
  obtain ob1 ts1 where p: "push t ob ts = Some (ob1, ts1)" "payload ob1 = payload ob"
    and w: "waiting ts1 ob1 (prio_insert (\<lambda>x. priority (ts x)) t xs)"
    using push_law[OF assms] by blast
  have "remove1 t (prio_insert f t xs) = xs" for f :: "nat \<Rightarrow> u32"
    using assms(2) by (induction xs) auto
  with p remove_law[OF w, of t] show ?thesis by auto
qed

end

text \<open>An object that also wakes a waiter by popping the queue; event flags do not.\<close>

locale wait_object = wait_list +
  fixes pop :: "'o \<Rightarrow> task_store \<Rightarrow> (nat option \<times> 'o \<times> task_store) option"
  assumes pop_law: "waiting ts ob xs \<Longrightarrow>
      \<exists>ob'. pop ob ts = Some (first_live ts xs, ob', pop_store ts xs) \<and>
        waiting (pop_store ts xs) ob' (after_live ts xs) \<and> payload ob' = payload ob"
begin

text \<open>On a queue in priority order the woken task is a live one of highest priority.\<close>

lemma pop_highest:
  assumes "waiting ts ob xs" and "prio_sorted (\<lambda>x. priority (ts x)) xs"
    and "pop ob ts = Some (Some t, ob', ts')"
  shows "t \<in> set xs \<and> live ts t \<and> (\<forall>y \<in> set xs. live ts y \<longrightarrow> priority (ts y) \<le> priority (ts t))"
proof -
  from pop_law[OF assms(1)] assms(3) have fl: "first_live ts xs = Some t" by auto
  then show ?thesis
    using first_live_max[OF assms(2) fl] by (auto dest: first_live_SomeD)
qed

lemma pop_leaves:
  assumes "waiting ts ob xs" and "pop ob ts = Some (Some t, ob', ts')"
  shows "waiting ts' ob' (after_live ts xs) \<and> t \<notin> set (after_live ts xs) \<and> live ts t"
proof -
  from pop_law[OF assms(1)] assms(2)
  have fl: "first_live ts xs = Some t" and "waiting ts' ob' (after_live ts xs)" by auto
  then show ?thesis
    using after_live_distinct[OF waiting_distinct[OF assms(1)] fl] by (auto dest: first_live_SomeD)
qed

lemma pop_nobody:
  assumes "waiting ts ob xs" and "pop ob ts = Some (None, ob', ts')"
  shows "\<forall>x \<in> set xs. \<not> live ts x"
proof -
  from pop_law[OF assms(1)] assms(2) have "first_live ts xs = None" by auto
  then show ?thesis by (simp add: first_live_None)
qed

end

section \<open>Objects that embed the two end pointers\<close>

text \<open>
  Every object of the kernel keeps the ends of its queue in two fields and runs the shared
  pointer functions on them, so it is enough to name these fields and compare definitions.
\<close>

locale embedded_list =
  fixes ends :: "'o \<Rightarrow> wait_ends"
    and set_ends :: "wait_ends \<Rightarrow> 'o \<Rightarrow> 'o"
    and push :: "nat \<Rightarrow> 'o \<Rightarrow> task_store \<Rightarrow> ('o \<times> task_store) option"
    and remove :: "nat \<Rightarrow> 'o \<Rightarrow> task_store \<Rightarrow> ('o \<times> task_store) option"
    and payload :: "'o \<Rightarrow> 'p"
  assumes ends_set: "ends (set_ends q ob) = q"
    and payload_set: "payload (set_ends q ob) = payload ob"
    and push_runs: "push t ob ts =
      map_option (\<lambda>(q, ts'). (set_ends q ob, ts')) (wait_push t (ends ob) ts)"
    and remove_runs: "remove t ob ts =
      map_option (\<lambda>(q, ts'). (set_ends q ob, ts')) (wait_remove t (ends ob) ts)"

sublocale embedded_list \<subseteq> wait_list "\<lambda>ts ob xs. waitq ts (ends ob) xs" push remove payload
proof (unfold_locales, goal_cases)
  case (1 ts ob xs)
  then show ?case by (rule waitq_distinct)
next
  case (2 ts ob xs ys)
  then show ?case by (rule waitq_unique)
next
  case (3 xs ts ts' ob)
  then show ?case by (rule waitq_cong)
next
  case (4 ts ob xs t)
  from wait_push_spec[OF this] show ?case by (auto simp: push_runs ends_set payload_set)
next
  case (5 ts ob xs t)
  from wait_remove_spec[OF this, of t] show ?case by (auto simp: remove_runs ends_set payload_set)
qed

locale embedded_queue = embedded_list +
  fixes pop :: "'o \<Rightarrow> task_store \<Rightarrow> (nat option \<times> 'o \<times> task_store) option"
  assumes pop_runs: "pop ob ts =
      map_option (\<lambda>(r, q, ts'). (r, set_ends q ob, ts')) (wait_pop (ends ob) ts)"

sublocale embedded_queue \<subseteq> wait_object "\<lambda>ts ob xs. waitq ts (ends ob) xs" push remove payload pop
proof (unfold_locales, goal_cases)
  case (1 ts ob xs)
  from wait_pop_eq[OF this] waitq_pop_store[OF this] show ?case
    by (auto simp: pop_runs ends_set payload_set)
qed

end
