(* ===== verification/Object_Registry.thy ===== *)
theory Object_Registry
  imports Port_Layer
begin

text \<open>
  The kernel object registry of kernel/object.c: a fixed table of 16 records that every
  object enters when it is initialised, and the snapshot array a debugger reads. The table
  implements a finite map from object addresses to a type and a name.
\<close>

section \<open>Operations\<close>

fun snapshot_loop ::
  "object_record list \<Rightarrow> nat \<Rightarrow> object_record list \<Rightarrow> nat \<times> object_record list" where
  "snapshot_loop [] count out = (count, out)"
| "snapshot_loop (r # rs) count out =
     (if or_type r = RTOS_OBJECT_NONE then snapshot_loop rs count out
      else snapshot_loop rs (Suc count) (out[count := r]))"

definition update_snapshots_locked :: "kernel \<Rightarrow> kernel" where
  "update_snapshots_locked k =
     (let (count, out) = snapshot_loop (registry k) 0 (object_snapshots k)
      in k\<lparr>object_snapshots := out, object_snapshot_count := of_nat count\<rparr>)"

text \<open>
  The search of a registration: \<open>Inl i\<close> when slot \<open>i\<close> already holds the object, otherwise
  the first free slot, if there is one.
\<close>

fun register_scan :: "u32 \<Rightarrow> object_record list \<Rightarrow> nat \<Rightarrow> nat option \<Rightarrow> nat + nat option" where
  "register_scan object [] i free_slot = Inr free_slot"
| "register_scan object (r # rs) i free_slot =
     (if or_object r = object then Inl i
      else register_scan object rs (Suc i)
        (if free_slot = None \<and> or_type r = RTOS_OBJECT_NONE then Some i else free_slot))"

definition rtos_object_register_named ::
  "u32 \<Rightarrow> rtos_object_type_t \<Rightarrow> string option \<Rightarrow> kernel \<Rightarrow> int \<times> kernel" where
  "rtos_object_register_named object type name k =
     (if object = 0 \<or> type = RTOS_OBJECT_NONE then (RTOS_ERR_INVALID, k)
      else let k1 = rtos_enter_critical k; rs = registry k1 in
        case register_scan object rs 0 None of
          Inl i \<Rightarrow>
            let r1 = (rs ! i)\<lparr>or_type := type\<rparr>;
                r2 = (if name \<noteq> None then r1\<lparr>or_name := name\<rparr> else r1);
                k2 = update_snapshots_locked (k1\<lparr>registry := rs[i := r2]\<rparr>)
            in (RTOS_OK, rtos_exit_critical k2)
        | Inr (Some free_slot) \<Rightarrow>
            let r = \<lparr>or_type = type, or_object = object, or_name = name\<rparr>;
                k2 = update_snapshots_locked (k1\<lparr>registry := rs[free_slot := r]\<rparr>)
            in (RTOS_OK, rtos_exit_critical k2)
        | Inr None \<Rightarrow> (RTOS_ERR_FULL, rtos_exit_critical k1))"

definition rtos_object_register :: "u32 \<Rightarrow> rtos_object_type_t \<Rightarrow> kernel \<Rightarrow> int \<times> kernel" where
  "rtos_object_register object type k = rtos_object_register_named object type None k"

fun name_scan :: "u32 \<Rightarrow> object_record list \<Rightarrow> nat \<Rightarrow> nat option" where
  "name_scan object [] i = None"
| "name_scan object (r # rs) i =
     (if or_object r = object then Some i else name_scan object rs (Suc i))"

definition rtos_object_set_name :: "u32 \<Rightarrow> string option \<Rightarrow> kernel \<Rightarrow> int \<times> kernel" where
  "rtos_object_set_name object name k =
     (if object = 0 \<or> name = None then (RTOS_ERR_INVALID, k)
      else let k1 = rtos_enter_critical k; rs = registry k1 in
        case name_scan object rs 0 of
          Some i \<Rightarrow>
            let k2 = update_snapshots_locked (k1\<lparr>registry := rs[i := (rs ! i)\<lparr>or_name := name\<rparr>]\<rparr>)
            in (RTOS_OK, rtos_exit_critical k2)
        | None \<Rightarrow> (RTOS_ERR_INVALID, rtos_exit_critical k1))"

definition rtos_object_debug_update :: "kernel \<Rightarrow> kernel" where
  "rtos_object_debug_update k =
     (let k1 = rtos_enter_critical k in rtos_exit_critical (update_snapshots_locked k1))"

text \<open>
  The debug snapshot writes \<open>count\<close> rows through the pointer \<open>out\<close>; the model returns these
  rows beside the count.
\<close>

definition rtos_object_debug_snapshot ::
  "u32 \<Rightarrow> u32 \<Rightarrow> kernel \<Rightarrow> (u32 \<times> object_record list) \<times> kernel" where
  "rtos_object_debug_snapshot out max_count k =
     (if out = 0 \<or> max_count = 0 then ((0, []), k)
      else let k1 = rtos_enter_critical k;
               k2 = update_snapshots_locked k1;
               count = object_snapshot_count k2;
               count = (if count > max_count then max_count else count);
               rows = map ((!) (object_snapshots k2)) [0..<unat count]
           in ((count, rows), rtos_exit_critical k2))"

section \<open>The table as a map\<close>

definition registry_lookup :: "object_record list \<Rightarrow> u32 \<Rightarrow> (rtos_object_type_t \<times> string option) option" where
  "registry_lookup rs object =
     (if object = 0 then None
      else map_option (\<lambda>r. (or_type r, or_name r)) (find (\<lambda>r. or_object r = object) rs))"

definition used_records :: "object_record list \<Rightarrow> object_record list" where
  "used_records rs = filter (\<lambda>r. or_type r \<noteq> RTOS_OBJECT_NONE) rs"

text \<open>Well-formed tables: free slots hold NULL, used slots hold distinct objects.\<close>

definition registry_ok :: "object_record list \<Rightarrow> bool" where
  "registry_ok rs \<longleftrightarrow> length rs = RTOS_MAX_OBJECTS \<and>
     (\<forall>i < length rs. (or_type (rs ! i) = RTOS_OBJECT_NONE) = (or_object (rs ! i) = 0)) \<and>
     (\<forall>i < length rs. \<forall>j < length rs. or_object (rs ! i) = or_object (rs ! j) \<longrightarrow>
        or_object (rs ! i) \<noteq> 0 \<longrightarrow> i = j)"

lemma register_scan_Inl:
  "register_scan object rs i fs = Inl m \<Longrightarrow>
     \<exists>j < length rs. m = i + j \<and> or_object (rs ! j) = object"
proof (induction rs arbitrary: i fs)
  case Nil
  then show ?case by simp
next
  case (Cons r rs)
  show ?case
  proof (cases "or_object r = object")
    case True
    with Cons.prems show ?thesis by (intro exI[of _ 0]) simp
  next
    case False
    with Cons.prems obtain fs' where "register_scan object rs (Suc i) fs' = Inl m" by auto
    from Cons.IH[OF this] obtain j where "j < length rs" "m = Suc i + j" "or_object (rs ! j) = object"
      by blast
    then show ?thesis by (intro exI[of _ "Suc j"]) simp
  qed
qed

lemma register_scan_Inr:
  "register_scan object rs i fs = Inr fs' \<Longrightarrow>
     (\<forall>r \<in> set rs. or_object r \<noteq> object) \<and>
     (case fs of
        Some m \<Rightarrow> fs' = Some m
      | None \<Rightarrow> (case fs' of
          None \<Rightarrow> \<forall>r \<in> set rs. or_type r \<noteq> RTOS_OBJECT_NONE
        | Some m \<Rightarrow> \<exists>j < length rs. m = i + j \<and> or_type (rs ! j) = RTOS_OBJECT_NONE))"
proof (induction rs arbitrary: i fs)
  case Nil
  then show ?case by (auto split: option.splits)
next
  case (Cons r rs)
  then have neq: "or_object r \<noteq> object" by (auto split: if_splits)
  let ?fs = "if fs = None \<and> or_type r = RTOS_OBJECT_NONE then Some i else fs"
  from Cons.prems neq have "register_scan object rs (Suc i) ?fs = Inr fs'" by simp
  note IH = Cons.IH[OF this]
  show ?case
  proof (cases fs)
    case None
    show ?thesis
    proof (cases "or_type r = RTOS_OBJECT_NONE")
      case True
      with IH neq None show ?thesis by (auto intro!: exI[of _ 0])
    next
      case False
      with IH neq None show ?thesis
        by (auto split: option.splits)
    qed
  next
    case (Some m)
    with IH neq show ?thesis by simp
  qed
qed

lemma find_list_update:
  assumes "i < length rs" and "P r'" and "\<And>j. j < length rs \<Longrightarrow> j \<noteq> i \<Longrightarrow> \<not> P (rs ! j)"
  shows "find P (rs[i := r']) = Some r'"
  using assms
proof (induction rs arbitrary: i)
  case Nil
  then show ?case by simp
next
  case (Cons r rs)
  show ?case
  proof (cases i)
    case 0
    with Cons.prems show ?thesis by simp
  next
    case (Suc m)
    have "\<not> P r" using Cons.prems(3)[of 0] Suc by simp
    moreover have "find P (rs[m := r']) = Some r'"
      using Cons.prems(1,2) Cons.prems(3)[of "Suc _"] by (intro Cons.IH) (auto simp: Suc)
    ultimately show ?thesis by (simp add: Suc)
  qed
qed

lemma find_list_update_other:
  assumes "i < length rs" and "\<not> P r'" and "\<not> P (rs ! i)"
  shows "find P (rs[i := r']) = find P rs"
  using assms by (induction rs arbitrary: i) (auto split: nat.splits)

text \<open>Writing the one slot that may hold an object is an update of the map.\<close>

lemma lookup_update:
  assumes "i < length rs" and "object \<noteq> 0" and "or_object r' = object"
    and "or_object (rs ! i) = 0 \<or> or_object (rs ! i) = object"
    and "\<And>j. j < length rs \<Longrightarrow> j \<noteq> i \<Longrightarrow> or_object (rs ! j) \<noteq> object"
  shows "registry_lookup (rs[i := r']) = (registry_lookup rs)(object \<mapsto> (or_type r', or_name r'))"
proof
  fix ob
  show "registry_lookup (rs[i := r']) ob =
    ((registry_lookup rs)(object \<mapsto> (or_type r', or_name r'))) ob"
  proof (cases "ob = object")
    case True
    with assms show ?thesis
      by (simp add: registry_lookup_def find_list_update)
  next
    case False
    then show ?thesis
      using assms by (auto simp: registry_lookup_def find_list_update_other)
  qed
qed

lemma find_nth:
  assumes "i < length rs" and "P (rs ! i)" and "\<And>j. j < length rs \<Longrightarrow> P (rs ! j) \<Longrightarrow> j = i"
  shows "find P rs = Some (rs ! i)"
proof -
  have "find P (rs[i := rs ! i]) = Some (rs ! i)"
    using assms(3) by (intro find_list_update[of i rs P "rs ! i", OF assms(1,2)]) blast
  then show ?thesis by simp
qed

lemma registry_ok_lookup:
  assumes "registry_ok rs" and "i < length rs" and "or_object (rs ! i) = object" and "object \<noteq> 0"
  shows "registry_lookup rs object = Some (or_type (rs ! i), or_name (rs ! i))"
proof -
  have "find (\<lambda>r. or_object r = object) rs = Some (rs ! i)"
    using assms by (intro find_nth) (auto simp: registry_ok_def)
  then show ?thesis using assms(4) by (simp add: registry_lookup_def)
qed

lemma lookup_None_iff:
  "object \<noteq> 0 \<Longrightarrow> registry_lookup rs object = None \<longleftrightarrow> (\<forall>r \<in> set rs. or_object r \<noteq> object)"
  by (auto simp: registry_lookup_def find_None_iff)

lemma registry_ok_update:
  assumes ok: "registry_ok rs" and i: "i < length rs" and r: "or_object r' = object" "or_type r' \<noteq> RTOS_OBJECT_NONE"
    and "object \<noteq> 0" and others: "\<And>j. j < length rs \<Longrightarrow> j \<noteq> i \<Longrightarrow> or_object (rs ! j) \<noteq> object"
  shows "registry_ok (rs[i := r'])"
  unfolding registry_ok_def
proof (intro conjI allI impI)
  show "length (rs[i := r']) = RTOS_MAX_OBJECTS" using ok by (simp add: registry_ok_def)
next
  fix j assume "j < length (rs[i := r'])"
  then show "(or_type (rs[i := r'] ! j) = RTOS_OBJECT_NONE) = (or_object (rs[i := r'] ! j) = 0)"
    using ok r \<open>object \<noteq> 0\<close> by (cases "j = i") (auto simp: registry_ok_def)
next
  fix j l assume "j < length (rs[i := r'])" "l < length (rs[i := r'])"
    "or_object (rs[i := r'] ! j) = or_object (rs[i := r'] ! l)" "or_object (rs[i := r'] ! j) \<noteq> 0"
  then show "j = l"
    using ok r others by (cases "j = i"; cases "l = i") (auto simp: registry_ok_def)
qed

section \<open>Snapshots\<close>

lemma snapshot_loop_eq:
  "count + length (used_records rs) \<le> length out \<Longrightarrow>
     snapshot_loop rs count out =
       (count + length (used_records rs),
        take count out @ used_records rs @ drop (count + length (used_records rs)) out)"
proof (induction rs arbitrary: count out)
  case Nil
  then show ?case by (simp add: used_records_def)
next
  case (Cons r rs)
  show ?case
  proof (cases "or_type r = RTOS_OBJECT_NONE")
    case True
    with Cons show ?thesis by (simp add: used_records_def)
  next
    case False
    then have used: "used_records (r # rs) = r # used_records rs" by (simp add: used_records_def)
    have "Suc count + length (used_records rs) \<le> length (out[count := r])"
      using Cons.prems by (simp add: used)
    note IH = Cons.IH[OF this]
    have "count < length out" using Cons.prems by (simp add: used)
    then have "take (Suc count) (out[count := r]) = take count out @ [r]"
      by (simp add: take_Suc_conv_app_nth)
    then show ?thesis using False IH by (simp add: used)
  qed
qed

text \<open>The snapshot array starts with the used records, in table order.\<close>

definition snapshots_current :: "kernel \<Rightarrow> bool" where
  "snapshots_current k \<longleftrightarrow> length (object_snapshots k) = RTOS_MAX_OBJECTS \<and>
     unat (object_snapshot_count k) = length (used_records (registry k)) \<and>
     take (length (used_records (registry k))) (object_snapshots k) = used_records (registry k)"

lemma used_records_length: "length (used_records rs) \<le> length rs"
  by (simp add: used_records_def)

lemma update_snapshots_current:
  assumes "length (registry k) = RTOS_MAX_OBJECTS" and "length (object_snapshots k) = RTOS_MAX_OBJECTS"
  shows "snapshots_current (update_snapshots_locked k)"
proof -
  have le: "length (used_records (registry k)) \<le> 16"
    using used_records_length[of "registry k"] assms by simp
  then have "snapshot_loop (registry k) 0 (object_snapshots k) =
      (length (used_records (registry k)),
       used_records (registry k) @ drop (length (used_records (registry k))) (object_snapshots k))"
    using assms by (simp add: snapshot_loop_eq)
  then show ?thesis
    using le assms
    by (simp add: update_snapshots_locked_def snapshots_current_def unat_of_nat)
qed

lemma update_snapshots_frame [simp]:
  "registry (update_snapshots_locked k) = registry k"
  "port (update_snapshots_locked k) = port k"
  "linked_at (update_snapshots_locked k) = linked_at k"
  "ram (update_snapshots_locked k) = ram k"
  "tasks (update_snapshots_locked k) = tasks k"
  "task_count (update_snapshots_locked k) = task_count k"
  "current_task (update_snapshots_locked k) = current_task k"
  "tick_count (update_snapshots_locked k) = tick_count k"
  "sems (update_snapshots_locked k) = sems k"
  "queues (update_snapshots_locked k) = queues k"
  "mutexes (update_snapshots_locked k) = mutexes k"
  "events (update_snapshots_locked k) = events k"
  "pools (update_snapshots_locked k) = pools k"
  "timers (update_snapshots_locked k) = timers k"
  "timer_list (update_snapshots_locked k) = timer_list k"
  "work (update_snapshots_locked k) = work k"
  "trace (update_snapshots_locked k) = trace k"
  by (simp_all add: update_snapshots_locked_def split: prod.splits)

text \<open>A registration touches the table, its snapshot and the port only.\<close>

lemma register_frame [simp]:
  "linked_at (snd (rtos_object_register ob type k)) = linked_at k"
  "ram (snd (rtos_object_register ob type k)) = ram k"
  "tasks (snd (rtos_object_register ob type k)) = tasks k"
  "task_count (snd (rtos_object_register ob type k)) = task_count k"
  "current_task (snd (rtos_object_register ob type k)) = current_task k"
  "tick_count (snd (rtos_object_register ob type k)) = tick_count k"
  "sems (snd (rtos_object_register ob type k)) = sems k"
  "queues (snd (rtos_object_register ob type k)) = queues k"
  "mutexes (snd (rtos_object_register ob type k)) = mutexes k"
  "events (snd (rtos_object_register ob type k)) = events k"
  "pools (snd (rtos_object_register ob type k)) = pools k"
  "timers (snd (rtos_object_register ob type k)) = timers k"
  "timer_list (snd (rtos_object_register ob type k)) = timer_list k"
  "work (snd (rtos_object_register ob type k)) = work k"
  "trace (snd (rtos_object_register ob type k)) = trace k"
  by (simp_all add: rtos_object_register_def rtos_object_register_named_def Let_def split: sum.split option.split)

definition object_state_ok :: "kernel \<Rightarrow> bool" where
  "object_state_ok k \<longleftrightarrow> registry_ok (registry k) \<and> length (object_snapshots k) = RTOS_MAX_OBJECTS"

lemma snapshots_current_length: "snapshots_current k \<Longrightarrow> length (object_snapshots k) = RTOS_MAX_OBJECTS"
  by (simp add: snapshots_current_def)

lemma registry_ok_length: "registry_ok rs \<Longrightarrow> length rs = RTOS_MAX_OBJECTS"
  by (simp add: registry_ok_def)

text \<open>
  A registration, seen through the map: the object is entered or retyped, keeping its name
  unless a new one is given; only a full table refuses a new object.
\<close>

definition registered :: "u32 \<Rightarrow> rtos_object_type_t \<Rightarrow> string option \<Rightarrow>
    object_record list \<Rightarrow> rtos_object_type_t \<times> string option" where
  "registered object type name rs =
     (type, if name \<noteq> None then name
            else case registry_lookup rs object of Some (_, old) \<Rightarrow> old | None \<Rightarrow> None)"

lemma register_named_spec:
  assumes ok: "object_state_ok k" and args: "object \<noteq> 0" "type \<noteq> RTOS_OBJECT_NONE"
    and reg: "rtos_object_register_named object type name k = (r, k')"
  shows "if registry_lookup (registry k) object = None \<and> length (used_records (registry k)) = 16
         then r = RTOS_ERR_FULL \<and> registry k' = registry k
         else r = RTOS_OK \<and> object_state_ok k' \<and> snapshots_current k' \<and>
           registry_lookup (registry k') =
             (registry_lookup (registry k))(object \<mapsto> registered object type name (registry k))"
proof -
  let ?rs = "registry k"
  have rok: "registry_ok ?rs" and len: "length ?rs = 16" "length (object_snapshots k) = 16"
    using ok by (auto simp: object_state_ok_def dest: registry_ok_length)
  have stored: "object_state_ok k' \<and> snapshots_current k' \<and>
      registry_lookup (registry k') = (registry_lookup ?rs)(object \<mapsto> (or_type r', or_name r'))"
    if k': "k' = rtos_exit_critical (update_snapshots_locked
              ((rtos_enter_critical k)\<lparr>registry := ?rs[i := r']\<rparr>))"
      and i: "i < length ?rs" and r': "or_object r' = object" "or_type r' \<noteq> RTOS_OBJECT_NONE"
      and slot: "or_object (?rs ! i) = 0 \<or> or_object (?rs ! i) = object"
      and others: "\<And>j. j < length ?rs \<Longrightarrow> j \<noteq> i \<Longrightarrow> or_object (?rs ! j) \<noteq> object" for i r'
  proof -
    let ?k1 = "(rtos_enter_critical k)\<lparr>registry := ?rs[i := r']\<rparr>"
    have cur: "snapshots_current (update_snapshots_locked ?k1)"
      using len by (intro update_snapshots_current) simp_all
    then have "snapshots_current k'" by (simp add: k' snapshots_current_def)
    moreover have "registry k' = ?rs[i := r']" by (simp add: k')
    ultimately show ?thesis
      using registry_ok_update[OF rok i r' args(1) others] lookup_update[OF i args(1) r'(1) slot others]
      by (simp add: object_state_ok_def snapshots_current_length)
  qed
  show ?thesis
  proof (cases "register_scan object ?rs 0 None")
    case (Inl i)
    then have i: "i < length ?rs" "or_object (?rs ! i) = object" by (auto dest: register_scan_Inl)
    have others: "\<And>j. j < length ?rs \<Longrightarrow> j \<noteq> i \<Longrightarrow> or_object (?rs ! j) \<noteq> object"
      using rok i args(1) by (auto simp: registry_ok_def)
    have lk: "registry_lookup ?rs object = Some (or_type (?rs ! i), or_name (?rs ! i))"
      using registry_ok_lookup[OF rok i args(1)] .
    define r2 where "r2 = (if name \<noteq> None then (?rs ! i)\<lparr>or_type := type, or_name := name\<rparr>
      else (?rs ! i)\<lparr>or_type := type\<rparr>)"
    have eq: "r = RTOS_OK" "k' = rtos_exit_critical (update_snapshots_locked
              ((rtos_enter_critical k)\<lparr>registry := ?rs[i := r2]\<rparr>))"
      using reg args Inl
      by (auto simp: rtos_object_register_named_def Let_def r2_def split: if_splits)
    have "(or_type r2, or_name r2) = registered object type name ?rs"
      by (simp add: r2_def registered_def lk)
    moreover have "or_object r2 = object" "or_type r2 \<noteq> RTOS_OBJECT_NONE"
      using i args by (simp_all add: r2_def)
    ultimately show ?thesis
      using stored[OF eq(2) i(1) _ _ _ others] i(2) eq(1) lk by simp
  next
    case (Inr fs)
    note scan = register_scan_Inr[OF Inr]
    then have lk: "registry_lookup ?rs object = None" using args by (auto simp: lookup_None_iff)
    show ?thesis
    proof (cases fs)
      case None
      with scan have "\<forall>r \<in> set ?rs. or_type r \<noteq> RTOS_OBJECT_NONE" by simp
      then have "used_records ?rs = ?rs" by (auto simp: used_records_def)
      with lk len reg args Inr None show ?thesis
        by (auto simp: rtos_object_register_named_def Let_def)
    next
      case (Some i)
      with scan have i: "i < length ?rs" "or_type (?rs ! i) = RTOS_OBJECT_NONE" by auto
      have "length (used_records ?rs) < length ?rs"
        unfolding used_records_def using i by (intro length_filter_less[of "?rs ! i"]) auto
      moreover have "or_object (?rs ! i) = 0" using rok i by (simp add: registry_ok_def)
      moreover have "\<And>j. j < length ?rs \<Longrightarrow> j \<noteq> i \<Longrightarrow> or_object (?rs ! j) \<noteq> object"
        using scan by auto
      moreover have eq: "r = RTOS_OK" "k' = rtos_exit_critical (update_snapshots_locked
              ((rtos_enter_critical k)\<lparr>registry :=
                 ?rs[i := \<lparr>or_type = type, or_object = object, or_name = name\<rparr>]\<rparr>))"
        using reg args Inr Some by (auto simp: rtos_object_register_named_def Let_def)
      ultimately show ?thesis
        using stored[OF eq(2) i(1)] args lk len by (simp add: registered_def)
    qed
  qed
qed

section \<open>Properties\<close>

text \<open>
  C23. The registry implements a finite map: registering an object maps its address to its
  type and name, keeps an earlier name when none is given, touches no other entry, keeps the
  table well formed and the snapshot current; only a new object on a full table is refused,
  and then the table is unchanged.
\<close>

theorem register_implements_map:
  assumes "object_state_ok k" and "object \<noteq> 0" and "type \<noteq> RTOS_OBJECT_NONE"
    and "rtos_object_register_named object type name k = (r, k')"
  shows "if registry_lookup (registry k) object = None \<and> length (used_records (registry k)) = 16
         then r = RTOS_ERR_FULL \<and> registry k' = registry k
         else r = RTOS_OK \<and> object_state_ok k' \<and> snapshots_current k' \<and>
           registry_lookup (registry k') =
             (registry_lookup (registry k))(object \<mapsto> registered object type name (registry k))"
  using register_named_spec[OF assms] .

lemma zero_registry_ok: "object_state_ok (zero_kernel im)"
  by (simp add: object_state_ok_def registry_ok_def zero_kernel_def zero_record_def)

theorem register_implements_map_witness:
  "registry_lookup (registry (snd (rtos_object_register_named 0x20001000 RTOS_OBJECT_SEM
      (Some ''isr_sem'') (zero_kernel sample_image)))) 0x20001000 =
     Some (RTOS_OBJECT_SEM, Some ''isr_sem'')"
proof -
  let ?k = "zero_kernel sample_image"
  obtain r k' where reg: "rtos_object_register_named 0x20001000 RTOS_OBJECT_SEM (Some ''isr_sem'') ?k
      = (r, k')" by fastforce
  have none: "used_records (registry ?k) = []"
    by (simp add: used_records_def zero_kernel_def zero_record_def)
  show ?thesis
    using register_implements_map[OF zero_registry_ok _ _ reg] none by (simp add: reg registered_def)
qed

end
