(* ===== verification/Semaphore.thy ===== *)
theory Semaphore
  imports Wait_Object Object_Registry
begin

text \<open>
  Counting semaphores (kernel/sem.c). A blocking call is cut where it gives up the processor:
  \<open>sem_wait_enter\<close> is the code up to rtos\_yield, \<open>sem_wait_resume\<close> the code after it, and
  \<open>rtos_sem_wait_timeout\<close> their composition around a suspension, a function that stands for
  everything that happens until the scheduler runs the task again.
\<close>



section \<open>The wait queue of a semaphore\<close>

definition sem_wait_push :: "nat \<Rightarrow> rtos_sem \<Rightarrow> task_store \<Rightarrow> (rtos_sem \<times> task_store) option" where
  "sem_wait_push task s ts = do {
     (q, ts) \<leftarrow> wait_push task (sem_wait_head s, sem_wait_tail s) ts;
     Some (s\<lparr>sem_wait_head := fst q, sem_wait_tail := snd q\<rparr>, ts)
   }"

definition sem_wait_remove :: "nat \<Rightarrow> rtos_sem \<Rightarrow> task_store \<Rightarrow> (rtos_sem \<times> task_store) option" where
  "sem_wait_remove task s ts = do {
     (q, ts) \<leftarrow> wait_remove task (sem_wait_head s, sem_wait_tail s) ts;
     Some (s\<lparr>sem_wait_head := fst q, sem_wait_tail := snd q\<rparr>, ts)
   }"

definition sem_wait_pop :: "rtos_sem \<Rightarrow> task_store \<Rightarrow> (nat option \<times> rtos_sem \<times> task_store) option" where
  "sem_wait_pop s ts = do {
     (task, q, ts) \<leftarrow> wait_pop (sem_wait_head s, sem_wait_tail s) ts;
     Some (task, s\<lparr>sem_wait_head := fst q, sem_wait_tail := snd q\<rparr>, ts)
   }"

definition sem_ends :: "rtos_sem \<Rightarrow> wait_ends" where
  "sem_ends s = (sem_wait_head s, sem_wait_tail s)"

definition sem_payload :: "rtos_sem \<Rightarrow> u32 \<times> u32" where
  "sem_payload s = (sem_count s, sem_max_count s)"

interpretation sem_queue: embedded_queue sem_ends
  "\<lambda>q s. s\<lparr>sem_wait_head := fst q, sem_wait_tail := snd q\<rparr>"
  sem_wait_push sem_wait_remove sem_payload sem_wait_pop
  by unfold_locales
    (auto simp: sem_ends_def sem_payload_def sem_wait_push_def sem_wait_pop_def sem_wait_remove_def
      map_option_case split: option.splits bind_splits)

section \<open>Operations\<close>

definition rtos_sem_init :: "u32 \<Rightarrow> u32 \<Rightarrow> u32 \<Rightarrow> kernel \<Rightarrow> int \<times> kernel" where
  "rtos_sem_init p initial_count max_count k =
     (if p = 0 \<or> max_count = 0 \<or> max_count < initial_count then (-1, k)
      else let s = \<lparr>sem_count = initial_count, sem_max_count = max_count,
                    sem_wait_head = None, sem_wait_tail = None\<rparr>;
               k1 = k\<lparr>sems := (sems k)(p := s)\<rparr>
           in (0, snd (rtos_object_register p RTOS_OBJECT_SEM k1)))"

text \<open>The first part of a wait: \<open>Some r\<close> when the call returns \<open>r\<close> at once, \<open>None\<close> when it yields.\<close>

definition sem_wait_enter :: "u32 \<Rightarrow> u32 \<Rightarrow> kernel \<Rightarrow> (int option \<times> kernel) option" where
  "sem_wait_enter p timeout_ms k =
     (if p = 0 then Some (Some RTOS_ERR_INVALID, k)
      else let k1 = rtos_enter_critical k; s = sems k1 p in
        if 0 < sem_count s then
          let k2 = k1\<lparr>sems := (sems k1)(p := s\<lparr>sem_count := sem_count s - 1\<rparr>)\<rparr>
          in Some (Some RTOS_OK, rtos_exit_critical k2)
        else if timeout_ms = 0 then Some (Some RTOS_ERR_TIMEOUT, rtos_exit_critical k1)
        else do {
          task \<leftarrow> current_task k1;
          let ts = upd_task task (block_for RTOS_WAIT_SEM timeout_ms) (tasks k1);
          (s', ts') \<leftarrow> sem_wait_push task s ts;
          let k2 = k1\<lparr>sems := (sems k1)(p := s'), tasks := ts'\<rparr>;
          Some (None, rtos_yield (rtos_exit_critical k2))
        })"

definition sem_wait_resume :: "u32 \<Rightarrow> nat \<Rightarrow> kernel \<Rightarrow> (int \<times> kernel) option" where
  "sem_wait_resume p task k =
     (let k1 = rtos_enter_critical k in
      if wait_result (tasks k1 task) = RTOS_ERR_TIMEOUT then do {
        (s', ts') \<leftarrow> sem_wait_remove task (sems k1 p) (tasks k1);
        let ts'' = upd_task task (\<lambda>b. b\<lparr>wait_type := RTOS_WAIT_NONE\<rparr>) ts';
        Some (RTOS_ERR_TIMEOUT, rtos_exit_critical (k1\<lparr>sems := (sems k1)(p := s'), tasks := ts''\<rparr>))
      }
      else Some (RTOS_OK, rtos_exit_critical k1))"

definition rtos_sem_wait_timeout :: "u32 \<Rightarrow> u32 \<Rightarrow> suspension \<Rightarrow> kernel \<Rightarrow> (int \<times> kernel) option" where
  "rtos_sem_wait_timeout p timeout_ms suspend k = do {
     (r, k1) \<leftarrow> sem_wait_enter p timeout_ms k;
     case r of
       Some result \<Rightarrow> Some (result, k1)
     | None \<Rightarrow> do {
         task \<leftarrow> current_task k1;
         k2 \<leftarrow> suspend k1;
         sem_wait_resume p task k2
       }
   }"

definition rtos_sem_wait :: "u32 \<Rightarrow> suspension \<Rightarrow> kernel \<Rightarrow> (int \<times> kernel) option" where
  "rtos_sem_wait p suspend k = rtos_sem_wait_timeout p RTOS_TIMEOUT_FOREVER suspend k"

definition sem_post_common :: "u32 \<Rightarrow> kernel \<Rightarrow> (int \<times> kernel) option" where
  "sem_post_common p k =
     (if p = 0 then Some (-1, k)
      else let k1 = rtos_enter_critical k in do {
        (woken, s, ts) \<leftarrow> sem_wait_pop (sems k1 p) (tasks k1);
        let k2 = k1\<lparr>sems := (sems k1)(p := s), tasks := ts\<rparr>;
        case woken of
          Some task \<Rightarrow>
            (let k3 = k2\<lparr>tasks := upd_task task wake_up (tasks k2)\<rparr>
             in Some (0, rtos_yield (rtos_exit_critical k3)))
        | None \<Rightarrow>
            if sem_count s < sem_max_count s then
              let k3 = k2\<lparr>sems := (sems k2)(p := s\<lparr>sem_count := sem_count s + 1\<rparr>)\<rparr>
              in Some (0, rtos_exit_critical k3)
            else Some (-1, rtos_exit_critical k2)
      })"

definition rtos_sem_post :: "u32 \<Rightarrow> kernel \<Rightarrow> (int \<times> kernel) option" where
  "rtos_sem_post p k = sem_post_common p k"

definition rtos_sem_post_isr :: "u32 \<Rightarrow> kernel \<Rightarrow> (int \<times> kernel) option" where
  "rtos_sem_post_isr p k = sem_post_common p k"

section \<open>Representation and invariant\<close>

text \<open>The tasks linked into the queue of the semaphore at \<open>p\<close>, in queue order.\<close>

definition sem_waiters :: "kernel \<Rightarrow> u32 \<Rightarrow> nat list \<Rightarrow> bool" where
  "sem_waiters k p xs \<longleftrightarrow> waitq (tasks k) (sem_ends (sems k p)) xs"

text \<open>
  The count stays below its limit, and no live waiter is left in the queue while a token is
  available: this is what makes a missed wake-up impossible.
\<close>

definition sem_inv :: "kernel \<Rightarrow> u32 \<Rightarrow> nat list \<Rightarrow> bool" where
  "sem_inv k p xs \<longleftrightarrow> sem_waiters k p xs \<and> sem_count (sems k p) \<le> sem_max_count (sems k p) \<and>
     ((\<exists>x \<in> set xs. live (tasks k) x) \<longrightarrow> sem_count (sems k p) = 0)"

section \<open>What each operation does\<close>

lemma sem_take_token:
  assumes "p \<noteq> 0" and "0 < sem_count (sems k p)"
  shows "sem_wait_enter p ms k =
    Some (Some RTOS_OK, k\<lparr>port := port_exit_critical (port_enter_critical (port k)),
      sems := (sems k)(p := (sems k p)\<lparr>sem_count := sem_count (sems k p) - 1\<rparr>)\<rparr>)"
  using assms by (simp add: sem_wait_enter_def Let_def)

lemma sem_poll_empty:
  assumes "p \<noteq> 0" and "sem_count (sems k p) = 0"
  shows "sem_wait_enter p 0 k =
    Some (Some RTOS_ERR_TIMEOUT, k\<lparr>port := port_exit_critical (port_enter_critical (port k))\<rparr>)"
  using assms by (simp add: sem_wait_enter_def Let_def)

lemma sem_block:
  assumes p: "p \<noteq> 0" "sem_count (sems k p) = 0" "ms \<noteq> 0" and cur: "current_task k = Some t"
    and wq: "sem_waiters k p xs" and t: "t \<notin> set xs"
  obtains s' ts' where
    "sem_wait_enter p ms k = Some (None, k\<lparr>port := port_trigger_pendsv (port_exit_critical
        (port_enter_critical (port k))), sems := (sems k)(p := s'), tasks := ts'\<rparr>)"
    "waitq ts' (sem_ends s') (prio_insert (\<lambda>x. priority (tasks k x)) t xs)"
    "relinked (insert t (set xs)) (upd_task t (block_for RTOS_WAIT_SEM ms) (tasks k)) ts'"
    "sem_payload s' = sem_payload (sems k p)"
proof -
  let ?ts = "upd_task t (block_for RTOS_WAIT_SEM ms) (tasks k)"
  have "waitq ?ts (sem_ends (sems k p)) xs"
    using wq by (simp add: sem_waiters_def waitq_upd_task)
  from sem_queue.push_law[OF this t] obtain s' ts' where
    push: "sem_wait_push t (sems k p) ?ts = Some (s', ts')"
    and res: "waitq ts' (sem_ends s') (prio_insert (\<lambda>x. priority (?ts x)) t xs)"
      "relinked (insert t (set xs)) ?ts ts'" "sem_payload s' = sem_payload (sems k p)" by blast
  have "(\<lambda>x. priority (?ts x)) = (\<lambda>x. priority (tasks k x))" by (auto simp: upd_task_apply)
  with res have "waitq ts' (sem_ends s') (prio_insert (\<lambda>x. priority (tasks k x)) t xs)" by simp
  moreover have "sem_wait_enter p ms k = Some (None, k\<lparr>port := port_trigger_pendsv
      (port_exit_critical (port_enter_critical (port k))), sems := (sems k)(p := s'), tasks := ts'\<rparr>)"
    using p cur push by (simp add: sem_wait_enter_def Let_def)
  ultimately show ?thesis using that res by blast
qed

lemma sem_post_wakes:
  assumes "p \<noteq> 0" and wq: "sem_waiters k p xs" and fl: "first_live (tasks k) xs = Some t"
  obtains s' where
    "sem_post_common p k = Some (0, k\<lparr>port := port_trigger_pendsv (port_exit_critical
        (port_enter_critical (port k))), sems := (sems k)(p := s'),
        tasks := upd_task t wake_up (pop_store (tasks k) xs)\<rparr>)"
    "waitq (pop_store (tasks k) xs) (sem_ends s') (after_live (tasks k) xs)"
    "sem_payload s' = sem_payload (sems k p)"
proof -
  from sem_queue.pop_law[OF wq[unfolded sem_waiters_def]] fl obtain s' where
    "sem_wait_pop (sems k p) (tasks k) = Some (Some t, s', pop_store (tasks k) xs)"
    "waitq (pop_store (tasks k) xs) (sem_ends s') (after_live (tasks k) xs)"
    "sem_payload s' = sem_payload (sems k p)" by auto
  then show ?thesis
    using that[of s'] \<open>p \<noteq> 0\<close> by (simp add: sem_post_common_def Let_def)
qed

lemma sem_post_counts:
  assumes "p \<noteq> 0" and wq: "sem_waiters k p xs" and fl: "first_live (tasks k) xs = None"
  obtains s' where
    "sem_post_common p k =
       (if sem_count (sems k p) < sem_max_count (sems k p)
        then Some (0, k\<lparr>port := port_exit_critical (port_enter_critical (port k)),
               sems := (sems k)(p := s'\<lparr>sem_count := sem_count (sems k p) + 1\<rparr>),
               tasks := pop_store (tasks k) xs\<rparr>)
        else Some (-1, k\<lparr>port := port_exit_critical (port_enter_critical (port k)),
               sems := (sems k)(p := s'), tasks := pop_store (tasks k) xs\<rparr>))"
    "sem_ends s' = (None, None)" "sem_payload s' = sem_payload (sems k p)"
proof -
  from sem_queue.pop_law[OF wq[unfolded sem_waiters_def]] fl obtain s' where
    "sem_wait_pop (sems k p) (tasks k) = Some (None, s', pop_store (tasks k) xs)"
    "waitq (pop_store (tasks k) xs) (sem_ends s') []" "sem_payload s' = sem_payload (sems k p)"
    by (auto simp: after_live_Nil)
  then show ?thesis
    using that[of s'] \<open>p \<noteq> 0\<close>
    by (auto simp: sem_post_common_def Let_def sem_payload_def dest: waitq_ends)
qed

lemma sem_resume_timeout:
  assumes wq: "sem_waiters k p xs" and to: "wait_result (tasks k t) = RTOS_ERR_TIMEOUT"
  obtains s' ts' where
    "sem_wait_resume p t k = Some (RTOS_ERR_TIMEOUT,
       k\<lparr>port := port_exit_critical (port_enter_critical (port k)), sems := (sems k)(p := s'),
         tasks := upd_task t (\<lambda>b. b\<lparr>wait_type := RTOS_WAIT_NONE\<rparr>) ts'\<rparr>)"
    "waitq ts' (sem_ends s') (remove1 t xs)" "relinked (set xs) (tasks k) ts'"
    "sem_payload s' = sem_payload (sems k p)"
proof -
  from sem_queue.remove_law[OF wq[unfolded sem_waiters_def], of t] obtain s' ts' where
    "sem_wait_remove t (sems k p) (tasks k) = Some (s', ts')"
    "waitq ts' (sem_ends s') (remove1 t xs)" "relinked (set xs) (tasks k) ts'"
    "sem_payload s' = sem_payload (sems k p)" by auto
  then show ?thesis
    using that[where s' = s' and ts' = ts'] to by (simp add: sem_wait_resume_def Let_def)
qed

lemma sem_resume_ok:
  "wait_result (tasks k t) \<noteq> RTOS_ERR_TIMEOUT \<Longrightarrow>
     sem_wait_resume p t k =
       Some (RTOS_OK, k\<lparr>port := port_exit_critical (port_enter_critical (port k))\<rparr>)"
  by (simp add: sem_wait_resume_def Let_def)

section \<open>The abstract semaphore\<close>

text \<open>
  The specification: a number of tokens below a limit and a queue of waiting tasks by
  priority. The queue holds the live waiters only; a timed-out task has left it, although
  the code unlinks its control block later.
\<close>

record abs_sem =
  tokens :: nat
  token_limit :: nat
  queue_of :: "nat list"

definition spec_post :: "abs_sem \<Rightarrow> int \<times> nat option \<times> abs_sem" where
  "spec_post a = (case queue_of a of
     w # ws \<Rightarrow> (0, Some w, a\<lparr>queue_of := ws\<rparr>)
   | [] \<Rightarrow> if tokens a < token_limit a then (0, None, a\<lparr>tokens := Suc (tokens a)\<rparr>) else (-1, None, a))"

definition spec_wait :: "(nat \<Rightarrow> u32) \<Rightarrow> nat \<Rightarrow> u32 \<Rightarrow> abs_sem \<Rightarrow> int option \<times> abs_sem" where
  "spec_wait prio t ms a =
     (if 0 < tokens a then (Some RTOS_OK, a\<lparr>tokens := tokens a - 1\<rparr>)
      else if ms = 0 then (Some RTOS_ERR_TIMEOUT, a)
      else (None, a\<lparr>queue_of := prio_insert prio t (queue_of a)\<rparr>))"

definition sem_abs :: "kernel \<Rightarrow> u32 \<Rightarrow> nat list \<Rightarrow> abs_sem" where
  "sem_abs k p xs =
     \<lparr>tokens = unat (sem_count (sems k p)), token_limit = unat (sem_max_count (sems k p)),
      queue_of = filter (live (tasks k)) xs\<rparr>"

lemma filter_live_cong:
  "(\<And>x. x \<in> set xs \<Longrightarrow> live ts x = live ts' x) \<Longrightarrow> filter (live ts) xs = filter (live ts') xs"
  by (rule filter_cong) auto

lemma live_after_wake:
  assumes "first_live ts xs = Some t" and "distinct xs" and "x \<in> set (after_live ts xs)"
  shows "live (upd_task t wake_up (pop_store ts xs)) x = live ts x"
  using after_live_distinct[OF assms(2,1)] assms(3) by (subst live_upd_other) auto

lemma sem_post_wakes_refines:
  assumes "p \<noteq> 0" and inv: "sem_inv k p xs" and Some: "first_live (tasks k) xs = Some t"
  shows "\<exists>r k' ys. rtos_sem_post p k = Some (r, k') \<and> sem_inv k' p ys \<and>
    (case spec_post (sem_abs k p xs) of (r', w, a) \<Rightarrow>
       r = r' \<and> sem_abs k' p ys = a \<and>
       (case w of Some t \<Rightarrow> task_state (tasks k' t) = RTOS_TASK_READY \<and> pendsv_pending (port k')
        | None \<Rightarrow> True))"
proof -
  from inv have wq: "sem_waiters k p xs" by (simp add: sem_inv_def)
  then have dis: "distinct xs" by (auto simp: sem_waiters_def intro: waitq_distinct)
  obtain s' where post: "sem_post_common p k = Some (0, k\<lparr>port := port_trigger_pendsv
        (port_exit_critical (port_enter_critical (port k))), sems := (sems k)(p := s'),
        tasks := upd_task t wake_up (pop_store (tasks k) xs)\<rparr>)"
    and res: "waitq (pop_store (tasks k) xs) (sem_ends s') (after_live (tasks k) xs)"
      "sem_payload s' = sem_payload (sems k p)"
    using sem_post_wakes[OF \<open>p \<noteq> 0\<close> wq Some] by blast
  have q: "filter (live (tasks k)) xs = t # filter (live (tasks k)) (after_live (tasks k) xs)"
    using hd_filter_live[of "tasks k" xs] Some
    by (cases "filter (live (tasks k)) xs") (auto simp: filter_after_live)
  have "sem_count (sems k p) = 0"
    using inv first_live_SomeD[OF Some] by (auto simp: sem_inv_def)
  then show ?thesis
    using res inv q live_after_wake[OF Some dis]
    by (intro exI[of _ 0] exI[of _ "after_live (tasks k) xs"] exI conjI)
      (auto simp: rtos_sem_post_def post sem_inv_def sem_waiters_def waitq_upd_task sem_payload_def
        sem_abs_def spec_post_def cong: filter_cong)
qed

lemma sem_post_counts_refines:
  assumes "p \<noteq> 0" and inv: "sem_inv k p xs" and None: "first_live (tasks k) xs = None"
  shows "\<exists>r k' ys. rtos_sem_post p k = Some (r, k') \<and> sem_inv k' p ys \<and>
    (case spec_post (sem_abs k p xs) of (r', w, a) \<Rightarrow>
       r = r' \<and> sem_abs k' p ys = a \<and>
       (case w of Some t \<Rightarrow> task_state (tasks k' t) = RTOS_TASK_READY \<and> pendsv_pending (port k')
        | None \<Rightarrow> True))"
proof -
  from inv have wq: "sem_waiters k p xs" by (simp add: sem_inv_def)
  from None have q: "filter (live (tasks k)) xs = []" by (simp add: first_live_None)
  obtain s' where post: "sem_post_common p k =
       (if sem_count (sems k p) < sem_max_count (sems k p)
        then Some (0, k\<lparr>port := port_exit_critical (port_enter_critical (port k)),
               sems := (sems k)(p := s'\<lparr>sem_count := sem_count (sems k p) + 1\<rparr>),
               tasks := pop_store (tasks k) xs\<rparr>)
        else Some (-1, k\<lparr>port := port_exit_critical (port_enter_critical (port k)),
               sems := (sems k)(p := s'), tasks := pop_store (tasks k) xs\<rparr>))"
    and s': "sem_ends s' = (None, None)" "sem_payload s' = sem_payload (sems k p)"
    using sem_post_counts[OF \<open>p \<noteq> 0\<close> wq None] by blast
  show ?thesis
  proof (cases "sem_count (sems k p) < sem_max_count (sems k p)")
    case True
    note inc = unat_inc_u32[OF True] u32_inc_le[OF True]
    from True inc q s' show ?thesis
      by (intro exI[of _ 0] exI[of _ "[]"] exI conjI)
        (auto simp: rtos_sem_post_def post sem_inv_def sem_waiters_def sem_payload_def sem_abs_def
          spec_post_def sem_ends_def word_less_nat_alt)
  next
    case False
    with q s' inv show ?thesis
      by (intro exI[of _ "-1"] exI[of _ "[]"] exI conjI)
        (auto simp: rtos_sem_post_def post sem_inv_def sem_waiters_def sem_payload_def sem_abs_def
          spec_post_def sem_ends_def word_less_nat_alt)
  qed
qed

section \<open>Properties\<close>

text \<open>
  C9. Posting implements the specification: from a state that satisfies the invariant,
  rtos\_sem\_post returns, re-establishes the invariant, and its result and its effect on the
  tokens and on the waiting tasks are those of \<open>spec_post\<close>: the head waiter is made ready
  and a context switch is requested, or a token is added, or the limit is reported.
\<close>

theorem sem_post_refines:
  assumes "p \<noteq> 0" and inv: "sem_inv k p xs"
  shows "\<exists>r k' ys. rtos_sem_post p k = Some (r, k') \<and> sem_inv k' p ys \<and>
    (case spec_post (sem_abs k p xs) of (r', w, a) \<Rightarrow>
       r = r' \<and> sem_abs k' p ys = a \<and>
       (case w of Some t \<Rightarrow> task_state (tasks k' t) = RTOS_TASK_READY \<and> pendsv_pending (port k')
        | None \<Rightarrow> True))"
  using sem_post_wakes_refines[OF assms] sem_post_counts_refines[OF assms]
  by (cases "first_live (tasks k) xs") blast+

text \<open>A semaphore at address 0x20001000 with task 1 and task 2 waiting, task 2 the more urgent.\<close>

definition sample_sem_kernel :: kernel where
  "sample_sem_kernel = (zero_kernel sample_image)\<lparr>
     current_task := Some 0,
     tasks := (\<lambda>_. zero_task)(
       0 := zero_task\<lparr>priority := 3, task_state := RTOS_TASK_RUNNING\<rparr>,
       1 := zero_task\<lparr>priority := 1, task_state := RTOS_TASK_BLOCKED, wait_type := RTOS_WAIT_SEM\<rparr>,
       2 := zero_task\<lparr>priority := 2, task_state := RTOS_TASK_BLOCKED, wait_type := RTOS_WAIT_SEM,
              wait_next := Some 1\<rparr>),
     sems := (\<lambda>_. \<lparr>sem_count = 0, sem_max_count = 1, sem_wait_head = Some 2, sem_wait_tail = Some 1\<rparr>)\<rparr>"

lemma sample_sem_inv: "sem_inv sample_sem_kernel 0x20001000 [2, 1]"
  by (simp add: sem_inv_def sem_waiters_def waitq_def sem_ends_def sample_sem_kernel_def zero_task_def
      last_opt_def)

theorem sem_post_refines_witness:
  "\<exists>r k' ys. rtos_sem_post 0x20001000 sample_sem_kernel = Some (r, k') \<and> sem_inv k' 0x20001000 ys \<and>
    (case spec_post (sem_abs sample_sem_kernel 0x20001000 [2, 1]) of (r', w, a) \<Rightarrow>
       r = r' \<and> sem_abs k' 0x20001000 ys = a \<and>
       (case w of Some t \<Rightarrow> task_state (tasks k' t) = RTOS_TASK_READY \<and> pendsv_pending (port k')
        | None \<Rightarrow> True))"
  by (rule sem_post_refines[OF _ sample_sem_inv]) simp

text \<open>
  C15. Waiting implements the specification: the first part of rtos\_sem\_wait\_timeout takes a
  token, reports a timeout when it may not wait, or blocks the caller with the priority
  insertion of \<open>spec_wait\<close>; the invariant holds afterwards in every case.
\<close>

theorem sem_wait_refines:
  assumes "p \<noteq> 0" and inv: "sem_inv k p xs" and cur: "current_task k = Some t"
    and t: "t \<notin> set xs" and sorted: "prio_sorted (\<lambda>x. priority (tasks k x)) xs"
  shows "\<exists>r k' ys. sem_wait_enter p ms k = Some (r, k') \<and> sem_inv k' p ys \<and>
    (r, sem_abs k' p ys) = spec_wait (\<lambda>x. priority (tasks k x)) t ms (sem_abs k p xs) \<and>
    (r = None \<longrightarrow> live (tasks k') t \<and> pendsv_pending (port k'))"
proof -
  consider (token) "0 < sem_count (sems k p)" | (poll) "sem_count (sems k p) = 0" "ms = 0"
    | (block) "sem_count (sems k p) = 0" "ms \<noteq> 0" by (auto simp: u32_gt_0)
  then show ?thesis
  proof cases
    case token
    then have "sem_count (sems k p) - 1 \<le> sem_max_count (sems k p)"
      "unat (sem_count (sems k p) - 1) = unat (sem_count (sems k p)) - 1"
      using inv by (auto simp: sem_inv_def word_le_nat_alt u32_gt_0 unat_pred_u32)
    with inv token show ?thesis
      unfolding sem_take_token[OF \<open>p \<noteq> 0\<close> token]
      by (auto simp: sem_inv_def sem_waiters_def sem_ends_def sem_abs_def spec_wait_def u32_gt_0
          unat_gt_0 intro!: exI[of _ xs])
  next
    case poll
    with inv show ?thesis
      unfolding poll(2) sem_poll_empty[OF \<open>p \<noteq> 0\<close> poll(1)]
      by (auto simp: sem_inv_def sem_waiters_def sem_abs_def spec_wait_def intro!: exI[of _ xs])
  next
    case block
    let ?ys = "prio_insert (\<lambda>x. priority (tasks k x)) t xs"
    from inv have wq: "sem_waiters k p xs" by (simp add: sem_inv_def)
    obtain s' ts' where enter: "sem_wait_enter p ms k = Some (None,
        k\<lparr>port := port_trigger_pendsv (port_exit_critical (port_enter_critical (port k))),
          sems := (sems k)(p := s'), tasks := ts'\<rparr>)"
      and w: "waitq ts' (sem_ends s') ?ys" and pay: "sem_payload s' = sem_payload (sems k p)"
      and rel: "relinked (insert t (set xs)) (upd_task t (block_for RTOS_WAIT_SEM ms) (tasks k)) ts'"
      using sem_block[OF \<open>p \<noteq> 0\<close> block cur wq t] by blast
    have lv: "live ts' t" "\<And>x. x \<in> set xs \<Longrightarrow> live ts' x = live (tasks k) x"
      using relinked_fields(8)[OF rel] t by (simp, metis live_upd_other)
    have "filter (live ts') ?ys = prio_insert (\<lambda>x. priority (tasks k x)) t (filter (live ts') xs)"
      using sorted lv(1) by (rule filter_prio_insert)
    also have "filter (live ts') xs = filter (live (tasks k)) xs"
      using lv(2) by (rule filter_live_cong)
    finally show ?thesis
      using inv w pay lv block
      by (intro exI[of _ None] exI[of _ ?ys] exI conjI)
        (auto simp: enter sem_inv_def sem_waiters_def sem_payload_def sem_abs_def spec_wait_def)
  qed
qed

theorem sem_wait_refines_witness:
  "\<exists>r k' ys. sem_wait_enter 0x20001000 50 sample_sem_kernel = Some (r, k') \<and>
    sem_inv k' 0x20001000 ys \<and>
    (r, sem_abs k' 0x20001000 ys) = spec_wait (\<lambda>x. priority (tasks sample_sem_kernel x)) 0 50
       (sem_abs sample_sem_kernel 0x20001000 [2, 1]) \<and>
    (r = None \<longrightarrow> live (tasks k') 0 \<and> pendsv_pending (port k'))"
  by (rule sem_wait_refines[OF _ sample_sem_inv])
    (simp_all add: sample_sem_kernel_def zero_kernel_def zero_task_def)

text \<open>
  A whole blocking wait: whatever happens while the caller is suspended, if the queue is
  well formed when it runs again then the call returns, with a timeout exactly when the tick
  handler gave up the wait; then the caller is out of the queue and the tokens are as they
  were, otherwise the semaphore is left alone.
\<close>

lemma sem_wait_returns:
  assumes "p \<noteq> 0" and "sem_waiters k p xs" and "current_task k = Some t" and "t \<notin> set xs"
    and "sem_count (sems k p) = 0" and "ms \<noteq> 0"
    and susp: "\<And>k1. sem_wait_enter p ms k = Some (None, k1) \<Longrightarrow> suspend k1 = Some k2"
    and inv: "sem_inv k2 p ys"
  shows "\<exists>r k3. rtos_sem_wait_timeout p ms suspend k = Some (r, k3) \<and>
    (if wait_result (tasks k2 t) = RTOS_ERR_TIMEOUT
     then r = RTOS_ERR_TIMEOUT \<and> sem_inv k3 p (remove1 t ys) \<and>
       sem_payload (sems k3 p) = sem_payload (sems k2 p)
     else r = RTOS_OK \<and> sem_inv k3 p ys \<and> sems k3 = sems k2)"
proof -
  obtain k1 where enter: "sem_wait_enter p ms k = Some (None, k1)" "current_task k1 = Some t"
  proof (rule sem_block[OF assms(1,5,6,3,2,4)], goal_cases)
    case (1 s' ts')
    from 1(2) show ?case by (rule that) (simp add: assms(3))
  qed
  have call: "rtos_sem_wait_timeout p ms suspend k = sem_wait_resume p t k2"
    using enter susp[OF enter(1)] by (simp add: rtos_sem_wait_timeout_def)
  from inv have wq: "sem_waiters k2 p ys" by (simp add: sem_inv_def)
  show ?thesis
  proof (cases "wait_result (tasks k2 t) = RTOS_ERR_TIMEOUT")
    case True
    obtain s' ts' where res: "sem_wait_resume p t k2 = Some (RTOS_ERR_TIMEOUT,
       k2\<lparr>port := port_exit_critical (port_enter_critical (port k2)), sems := (sems k2)(p := s'),
         tasks := upd_task t (\<lambda>b. b\<lparr>wait_type := RTOS_WAIT_NONE\<rparr>) ts'\<rparr>)"
      and w: "waitq ts' (sem_ends s') (remove1 t ys)" and rel: "relinked (set ys) (tasks k2) ts'"
      and pay: "sem_payload s' = sem_payload (sems k2 p)"
      using sem_resume_timeout[OF wq True] by blast
    have "live (upd_task t (\<lambda>b. b\<lparr>wait_type := RTOS_WAIT_NONE\<rparr>) ts') x = live (tasks k2) x" for x
      using relinked_fields(8)[OF rel] by simp
    moreover have "set (remove1 t ys) \<subseteq> set ys" by (rule set_remove1_subset)
    ultimately show ?thesis
      using True inv w pay unfolding call res
      by (intro exI[of _ RTOS_ERR_TIMEOUT] exI conjI)
        (auto simp: sem_inv_def sem_waiters_def waitq_upd_task sem_payload_def)
  next
    case False
    then show ?thesis
      using inv unfolding call sem_resume_ok[OF False] by (auto simp: sem_inv_def sem_waiters_def)
  qed
qed

text \<open>Task 0 comes back behind tasks 2 and 1, its wait timed out.\<close>

definition sample_sem_timed_out :: kernel where
  "sample_sem_timed_out = sample_sem_kernel\<lparr>
     tasks := (tasks sample_sem_kernel)(
       0 := (tasks sample_sem_kernel 0)\<lparr>wait_result := RTOS_ERR_TIMEOUT\<rparr>,
       1 := (tasks sample_sem_kernel 1)\<lparr>wait_next := Some 0\<rparr>),
     sems := (\<lambda>_. \<lparr>sem_count = 0, sem_max_count = 1, sem_wait_head = Some 2, sem_wait_tail = Some 0\<rparr>)\<rparr>"

lemma sample_sem_timed_out_inv: "sem_inv sample_sem_timed_out 0x20001000 [2, 1, 0]"
  by (simp add: sem_inv_def sem_waiters_def waitq_def sem_ends_def sample_sem_timed_out_def
      sample_sem_kernel_def zero_task_def last_opt_def)

lemma sem_wait_returns_example:
  "\<exists>k3. rtos_sem_wait_timeout 0x20001000 100 (\<lambda>_. Some sample_sem_timed_out) sample_sem_kernel =
     Some (RTOS_ERR_TIMEOUT, k3) \<and> sem_inv k3 0x20001000 [2, 1]"
proof -
  have w: "sem_waiters sample_sem_kernel 0x20001000 [2, 1]" using sample_sem_inv by (simp add: sem_inv_def)
  have f: "current_task sample_sem_kernel = Some 0" "sem_count (sems sample_sem_kernel 0x20001000) = 0"
    "wait_result (tasks sample_sem_timed_out 0) = RTOS_ERR_TIMEOUT"
    by (simp_all add: sample_sem_kernel_def sample_sem_timed_out_def)
  show ?thesis
    using sem_wait_returns[OF _ w f(1) _ f(2) _ _ sample_sem_timed_out_inv,
      where ms = 100 and suspend = "\<lambda>_. Some sample_sem_timed_out"]
    by (auto simp: f)
qed

end
