(* ===== verification/Bounded_Fifo.thy ===== *)
theory Bounded_Fifo
  imports Rtos_Prelude
begin

text \<open>
  The contract of a bounded first-in first-out buffer, as a locale. Message queues
  (kernel/queue.c) and the deferred work queue (kernel/work.c) are two implementations, and
  what clients rely on, that nothing is lost, duplicated or reordered, is proved once here.
\<close>

datatype 'a fifo_call = Put 'a | Get

text \<open>
  A run of calls collects the accepted inputs and the delivered outputs: \<open>put\<close> says whether
  the input was accepted, \<open>get\<close> returns an output if there is one.
\<close>

fun fifo_run ::
  "('a \<Rightarrow> 's \<Rightarrow> bool \<times> 's) \<Rightarrow> ('s \<Rightarrow> 'a option \<times> 's) \<Rightarrow> 'a fifo_call list \<Rightarrow> 's \<Rightarrow>
     'a list \<times> 'a list \<times> 's" where
  "fifo_run put get [] s = ([], [], s)"
| "fifo_run put get (Put x # cs) s =
     (let (ok, s1) = put x s; (ins, outs, s2) = fifo_run put get cs s1
      in (if ok then x # ins else ins, outs, s2))"
| "fifo_run put get (Get # cs) s =
     (let (r, s1) = get s; (ins, outs, s2) = fifo_run put get cs s1
      in (ins, case r of Some x \<Rightarrow> x # outs | None \<Rightarrow> outs, s2))"

lemma fifo_run_cong:
  "(\<And>x s. Put x \<in> set cs \<Longrightarrow> put x s = put' x s) \<Longrightarrow> fifo_run put get cs s = fifo_run put' get cs s"
  by (induction put get cs s rule: fifo_run.induct) (auto split: prod.splits)

locale bounded_fifo =
  fixes inv :: "'s \<Rightarrow> bool"
    and contents :: "'s \<Rightarrow> 'a list"
    and limit :: "'s \<Rightarrow> nat"
    and put :: "'a \<Rightarrow> 's \<Rightarrow> bool \<times> 's"
    and get :: "'s \<Rightarrow> 'a option \<times> 's"
  assumes bound: "inv s \<Longrightarrow> length (contents s) \<le> limit s"
    and put_room: "inv s \<Longrightarrow> length (contents s) < limit s \<Longrightarrow>
      \<exists>s'. put x s = (True, s') \<and> inv s' \<and> contents s' = contents s @ [x] \<and> limit s' = limit s"
    and put_full: "inv s \<Longrightarrow> length (contents s) = limit s \<Longrightarrow>
      \<exists>s'. put x s = (False, s') \<and> inv s' \<and> contents s' = contents s \<and> limit s' = limit s"
    and get_some: "inv s \<Longrightarrow> contents s = y # ys \<Longrightarrow>
      \<exists>s'. get s = (Some y, s') \<and> inv s' \<and> contents s' = ys \<and> limit s' = limit s"
    and get_none: "inv s \<Longrightarrow> contents s = [] \<Longrightarrow>
      \<exists>s'. get s = (None, s') \<and> inv s' \<and> contents s' = [] \<and> limit s' = limit s"
begin

lemma put_cases:
  assumes "inv s"
  obtains s' where "put x s = (length (contents s) < limit s, s')" "inv s'" "limit s' = limit s"
    "contents s' = (if length (contents s) < limit s then contents s @ [x] else contents s)"
proof (cases "length (contents s) < limit s")
  case True
  with put_room[OF assms True, of x] that show ?thesis by auto
next
  case False
  with bound[OF assms] put_full[OF assms, of x] that show ?thesis by force
qed

lemma get_cases:
  assumes "inv s"
  obtains s' where "get s = (hd_opt (contents s), s')" "inv s'" "contents s' = tl (contents s)"
    "limit s' = limit s"
proof (cases "contents s")
  case Nil
  with get_none[OF assms Nil] that show ?thesis by auto
next
  case (Cons y ys)
  with get_some[OF assms Cons] that show ?thesis by auto
qed

lemma put_get:
  assumes "inv s" and "contents s = []" and "0 < limit s"
  shows "fst (get (snd (put x s))) = Some x"
proof -
  obtain s' where "put x s = (True, s')" "inv s'" "contents s' = [x]"
    using put_room[OF assms(1), of x] assms(2,3) by auto
  with get_some[of s' x "[]"] show ?thesis by auto
qed

text \<open>
  Along every run: what was there and what was accepted is what was delivered and what is
  left, in order; and the limit is never exceeded.
\<close>

lemma run_fifo:
  assumes "inv s" and "fifo_run put get cs s = (ins, outs, s')"
  shows "contents s @ ins = outs @ contents s' \<and> inv s' \<and> limit s' = limit s \<and>
    length (contents s') \<le> limit s"
  using assms
proof (induction cs arbitrary: s ins outs)
  case Nil
  then show ?case by (auto simp: bound)
next
  case (Cons c cs)
  show ?case
  proof (cases c)
    case (Put x)
    obtain s1 where p: "put x s = (length (contents s) < limit s, s1)" "inv s1" "limit s1 = limit s"
      "contents s1 = (if length (contents s) < limit s then contents s @ [x] else contents s)"
      using put_cases[OF Cons.prems(1)] .
    obtain ins1 where r: "fifo_run put get cs s1 = (ins1, outs, s')"
      "ins = (if length (contents s) < limit s then x # ins1 else ins1)"
      using Cons.prems(2) p(1) by (auto simp: Put Let_def split: prod.splits)
    from Cons.IH[OF p(2) r(1)] p r(2) show ?thesis by (auto split: if_splits)
  next
    case Get
    obtain s1 where g: "get s = (hd_opt (contents s), s1)" "inv s1" "contents s1 = tl (contents s)"
      "limit s1 = limit s" using get_cases[OF Cons.prems(1)] .
    obtain outs1 where r: "fifo_run put get cs s1 = (ins, outs1, s')"
      "outs = (case hd_opt (contents s) of Some x \<Rightarrow> x # outs1 | None \<Rightarrow> outs1)"
      using Cons.prems(2) g(1) by (auto simp: Get Let_def split: prod.splits)
    from Cons.IH[OF g(2) r(1)] g r(2) show ?thesis by (cases "contents s") auto
  qed
qed

end

end
