(* ===== verification/Msg_Queue.thy ===== *)
theory Msg_Queue
  imports Wait_Object Object_Registry Bounded_Fifo
begin

text \<open>
  Message queues (kernel/queue.c): a ring of 32-bit messages in a buffer of the caller, with
  a queue of blocked receivers and a queue of blocked senders. The buffer is in the word
  memory \<open>ram\<close>, at the address the caller gave. The two blocking calls are loops: one round is
  an attempt (\<open>queue_send_try\<close>, \<open>queue_recv_try\<close>) that returns or yields, and a resumption that
  returns with a timeout or goes round again. A list of suspensions says what happens at
  each yield; a call whose list runs out while it is blocked has not returned (\<open>None\<close>).
\<close>



section \<open>The two wait queues\<close>

definition recv_ends :: "rtos_queue \<Rightarrow> wait_ends" where
  "recv_ends q = (recv_wait_head q, recv_wait_tail q)"

definition send_ends :: "rtos_queue \<Rightarrow> wait_ends" where
  "send_ends q = (send_wait_head q, send_wait_tail q)"

definition set_recv_ends :: "wait_ends \<Rightarrow> rtos_queue \<Rightarrow> rtos_queue" where
  "set_recv_ends e q = q\<lparr>recv_wait_head := fst e, recv_wait_tail := snd e\<rparr>"

definition set_send_ends :: "wait_ends \<Rightarrow> rtos_queue \<Rightarrow> rtos_queue" where
  "set_send_ends e q = q\<lparr>send_wait_head := fst e, send_wait_tail := snd e\<rparr>"

text \<open>The calls of wait\_push, wait\_pop and wait\_remove with the addresses of the two ends.\<close>

definition recv_push :: "nat \<Rightarrow> rtos_queue \<Rightarrow> task_store \<Rightarrow> (rtos_queue \<times> task_store) option" where
  "recv_push t q ts = map_option (\<lambda>(e, ts). (set_recv_ends e q, ts)) (wait_push t (recv_ends q) ts)"

definition recv_pop :: "rtos_queue \<Rightarrow> task_store \<Rightarrow> (nat option \<times> rtos_queue \<times> task_store) option" where
  "recv_pop q ts = map_option (\<lambda>(r, e, ts). (r, set_recv_ends e q, ts)) (wait_pop (recv_ends q) ts)"

definition recv_remove :: "nat \<Rightarrow> rtos_queue \<Rightarrow> task_store \<Rightarrow> (rtos_queue \<times> task_store) option" where
  "recv_remove t q ts = map_option (\<lambda>(e, ts). (set_recv_ends e q, ts)) (wait_remove t (recv_ends q) ts)"

definition send_push :: "nat \<Rightarrow> rtos_queue \<Rightarrow> task_store \<Rightarrow> (rtos_queue \<times> task_store) option" where
  "send_push t q ts = map_option (\<lambda>(e, ts). (set_send_ends e q, ts)) (wait_push t (send_ends q) ts)"

definition send_pop :: "rtos_queue \<Rightarrow> task_store \<Rightarrow> (nat option \<times> rtos_queue \<times> task_store) option" where
  "send_pop q ts = map_option (\<lambda>(r, e, ts). (r, set_send_ends e q, ts)) (wait_pop (send_ends q) ts)"

definition send_remove :: "nat \<Rightarrow> rtos_queue \<Rightarrow> task_store \<Rightarrow> (rtos_queue \<times> task_store) option" where
  "send_remove t q ts = map_option (\<lambda>(e, ts). (set_send_ends e q, ts)) (wait_remove t (send_ends q) ts)"

definition ring_payload :: "rtos_queue \<Rightarrow> u32 \<times> u32 \<times> u32 \<times> u32 \<times> u32" where
  "ring_payload q = (q_buffer q, q_capacity q, q_count q, q_head q, q_tail q)"

lemmas queue_ends_defs = recv_ends_def send_ends_def set_recv_ends_def set_send_ends_def ring_payload_def

interpretation receivers: embedded_queue recv_ends set_recv_ends recv_push recv_remove
  "\<lambda>q. (ring_payload q, send_ends q)" recv_pop
  by unfold_locales (simp_all add: queue_ends_defs recv_push_def recv_pop_def recv_remove_def)

interpretation senders: embedded_queue send_ends set_send_ends send_push send_remove
  "\<lambda>q. (ring_payload q, recv_ends q)" send_pop
  by unfold_locales (simp_all add: queue_ends_defs send_push_def send_pop_def send_remove_def)

section \<open>Operations\<close>

definition rtos_queue_init :: "u32 \<Rightarrow> u32 \<Rightarrow> u32 \<Rightarrow> kernel \<Rightarrow> int \<times> kernel" where
  "rtos_queue_init p buffer capacity k =
     (if p = 0 \<or> buffer = 0 \<or> capacity = 0 then (-1, k)
      else let q = \<lparr>q_buffer = buffer, q_capacity = capacity, q_count = 0, q_head = 0, q_tail = 0,
                    recv_wait_head = None, recv_wait_tail = None,
                    send_wait_head = None, send_wait_tail = None\<rparr>;
               k1 = k\<lparr>queues := (queues k)(p := q)\<rparr>
           in (0, snd (rtos_object_register p RTOS_OBJECT_QUEUE k1)))"

text \<open>The end of a successful call: wake the popped task, if any, leave, and yield for it.\<close>

definition queue_finish :: "nat option \<Rightarrow> kernel \<Rightarrow> kernel" where
  "queue_finish woken k =
     (case woken of
        Some t \<Rightarrow> rtos_yield (rtos_exit_critical (k\<lparr>tasks := upd_task t wake_up (tasks k)\<rparr>))
      | None \<Rightarrow> rtos_exit_critical k)"

definition queue_send_try :: "u32 \<Rightarrow> u32 \<Rightarrow> u32 \<Rightarrow> kernel \<Rightarrow> (int option \<times> kernel) option" where
  "queue_send_try p value timeout_ms k =
     (let k1 = rtos_enter_critical k; q = queues k1 p in
      if q_count q < q_capacity q then
        let k2 = k1\<lparr>ram := (ram k1)(q_buffer q + 4 * q_tail q := value)\<rparr>;
            q1 = q\<lparr>q_tail := (q_tail q + 1) mod q_capacity q\<rparr>;
            q2 = q1\<lparr>q_count := q_count q1 + 1\<rparr>
        in do {
          (task, q3, ts) \<leftarrow> recv_pop q2 (tasks k2);
          Some (Some 0, queue_finish task (k2\<lparr>queues := (queues k2)(p := q3), tasks := ts\<rparr>))
        }
      else if timeout_ms = 0 then Some (Some RTOS_ERR_TIMEOUT, rtos_exit_critical k1)
      else do {
        task \<leftarrow> current_task k1;
        let ts = upd_task task (block_for RTOS_WAIT_QUEUE timeout_ms) (tasks k1);
        (q1, ts') \<leftarrow> send_push task q ts;
        Some (None, rtos_yield (rtos_exit_critical (k1\<lparr>queues := (queues k1)(p := q1), tasks := ts'\<rparr>)))
      })"

definition queue_send_resume :: "u32 \<Rightarrow> nat \<Rightarrow> kernel \<Rightarrow> (int option \<times> kernel) option" where
  "queue_send_resume p task k =
     (let k1 = rtos_enter_critical k in
      if wait_result (tasks k1 task) = RTOS_ERR_TIMEOUT then do {
        (q, ts) \<leftarrow> send_remove task (queues k1 p) (tasks k1);
        let ts' = upd_task task (\<lambda>b. b\<lparr>wait_type := RTOS_WAIT_NONE\<rparr>) ts;
        Some (Some RTOS_ERR_TIMEOUT,
          rtos_exit_critical (k1\<lparr>queues := (queues k1)(p := q), tasks := ts'\<rparr>))
      }
      else Some (None, rtos_exit_critical k1))"

fun queue_send_loop :: "u32 \<Rightarrow> u32 \<Rightarrow> u32 \<Rightarrow> suspension list \<Rightarrow> kernel \<Rightarrow> (int \<times> kernel) option" where
  "queue_send_loop p value timeout_ms susps k = do {
     (r, k1) \<leftarrow> queue_send_try p value timeout_ms k;
     case (r, susps) of
       (Some result, _) \<Rightarrow> Some (result, k1)
     | (None, []) \<Rightarrow> None
     | (None, suspend # rest) \<Rightarrow> do {
         task \<leftarrow> current_task k1;
         k2 \<leftarrow> suspend k1;
         (r2, k3) \<leftarrow> queue_send_resume p task k2;
         case r2 of
           Some result \<Rightarrow> Some (result, k3)
         | None \<Rightarrow> queue_send_loop p value timeout_ms rest k3
       }
   }"

declare queue_send_loop.simps [simp del]

definition rtos_queue_send_timeout ::
  "u32 \<Rightarrow> u32 \<Rightarrow> u32 \<Rightarrow> suspension list \<Rightarrow> kernel \<Rightarrow> (int \<times> kernel) option" where
  "rtos_queue_send_timeout p value timeout_ms susps k =
     (if p = 0 then Some (RTOS_ERR_INVALID, k) else queue_send_loop p value timeout_ms susps k)"

definition rtos_queue_send :: "u32 \<Rightarrow> u32 \<Rightarrow> suspension list \<Rightarrow> kernel \<Rightarrow> (int \<times> kernel) option" where
  "rtos_queue_send p value susps k = rtos_queue_send_timeout p value RTOS_TIMEOUT_FOREVER susps k"

definition rtos_queue_send_isr :: "u32 \<Rightarrow> u32 \<Rightarrow> kernel \<Rightarrow> (int \<times> kernel) option" where
  "rtos_queue_send_isr p value k = rtos_queue_send_timeout p value 0 [] k"

text \<open>The message is stored through the caller's pointer \<open>vp\<close>.\<close>

definition queue_recv_try :: "u32 \<Rightarrow> u32 \<Rightarrow> u32 \<Rightarrow> kernel \<Rightarrow> (int option \<times> kernel) option" where
  "queue_recv_try p vp timeout_ms k =
     (let k1 = rtos_enter_critical k; q = queues k1 p in
      if 0 < q_count q then
        let k2 = k1\<lparr>ram := (ram k1)(vp := ram k1 (q_buffer q + 4 * q_head q))\<rparr>;
            q1 = q\<lparr>q_head := (q_head q + 1) mod q_capacity q\<rparr>;
            q2 = q1\<lparr>q_count := q_count q1 - 1\<rparr>
        in do {
          (task, q3, ts) \<leftarrow> send_pop q2 (tasks k2);
          Some (Some 0, queue_finish task (k2\<lparr>queues := (queues k2)(p := q3), tasks := ts\<rparr>))
        }
      else if timeout_ms = 0 then Some (Some RTOS_ERR_TIMEOUT, rtos_exit_critical k1)
      else do {
        task \<leftarrow> current_task k1;
        let ts = upd_task task (block_for RTOS_WAIT_QUEUE timeout_ms) (tasks k1);
        (q1, ts') \<leftarrow> recv_push task q ts;
        Some (None, rtos_yield (rtos_exit_critical (k1\<lparr>queues := (queues k1)(p := q1), tasks := ts'\<rparr>)))
      })"

definition queue_recv_resume :: "u32 \<Rightarrow> nat \<Rightarrow> kernel \<Rightarrow> (int option \<times> kernel) option" where
  "queue_recv_resume p task k =
     (let k1 = rtos_enter_critical k in
      if wait_result (tasks k1 task) = RTOS_ERR_TIMEOUT then do {
        (q, ts) \<leftarrow> recv_remove task (queues k1 p) (tasks k1);
        let ts' = upd_task task (\<lambda>b. b\<lparr>wait_type := RTOS_WAIT_NONE\<rparr>) ts;
        Some (Some RTOS_ERR_TIMEOUT,
          rtos_exit_critical (k1\<lparr>queues := (queues k1)(p := q), tasks := ts'\<rparr>))
      }
      else Some (None, rtos_exit_critical k1))"

fun queue_recv_loop :: "u32 \<Rightarrow> u32 \<Rightarrow> u32 \<Rightarrow> suspension list \<Rightarrow> kernel \<Rightarrow> (int \<times> kernel) option" where
  "queue_recv_loop p vp timeout_ms susps k = do {
     (r, k1) \<leftarrow> queue_recv_try p vp timeout_ms k;
     case (r, susps) of
       (Some result, _) \<Rightarrow> Some (result, k1)
     | (None, []) \<Rightarrow> None
     | (None, suspend # rest) \<Rightarrow> do {
         task \<leftarrow> current_task k1;
         k2 \<leftarrow> suspend k1;
         (r2, k3) \<leftarrow> queue_recv_resume p task k2;
         case r2 of
           Some result \<Rightarrow> Some (result, k3)
         | None \<Rightarrow> queue_recv_loop p vp timeout_ms rest k3
       }
   }"

declare queue_recv_loop.simps [simp del]

definition rtos_queue_recv_timeout ::
  "u32 \<Rightarrow> u32 \<Rightarrow> u32 \<Rightarrow> suspension list \<Rightarrow> kernel \<Rightarrow> (int \<times> kernel) option" where
  "rtos_queue_recv_timeout p vp timeout_ms susps k =
     (if p = 0 \<or> vp = 0 then Some (RTOS_ERR_INVALID, k)
      else queue_recv_loop p vp timeout_ms susps k)"

definition rtos_queue_recv :: "u32 \<Rightarrow> u32 \<Rightarrow> suspension list \<Rightarrow> kernel \<Rightarrow> (int \<times> kernel) option" where
  "rtos_queue_recv p vp susps k = rtos_queue_recv_timeout p vp RTOS_TIMEOUT_FOREVER susps k"

section \<open>The messages in a queue\<close>

definition slot :: "u32 \<Rightarrow> nat \<Rightarrow> u32" where
  "slot b i = b + 4 * of_nat i"

definition queue_messages :: "kernel \<Rightarrow> rtos_queue \<Rightarrow> u32 list" where
  "queue_messages k q =
     ring_list (\<lambda>i. ram k (slot (q_buffer q) i)) (unat (q_head q)) (unat (q_count q)) (unat (q_capacity q))"

text \<open>
  A well-formed ring. The bound on the capacity says that the buffer, an array of words,
  fits in the address space.
\<close>

definition queue_ok :: "rtos_queue \<Rightarrow> bool" where
  "queue_ok q \<longleftrightarrow> 0 < unat (q_capacity q) \<and> unat (q_capacity q) \<le> 2 ^ 30 \<and>
     q_head q < q_capacity q \<and> q_count q \<le> q_capacity q \<and>
     unat (q_tail q) = (unat (q_head q) + unat (q_count q)) mod unat (q_capacity q)"

definition queue_inv :: "kernel \<Rightarrow> u32 \<Rightarrow> nat list \<Rightarrow> nat list \<Rightarrow> bool" where
  "queue_inv k p xs ys \<longleftrightarrow> queue_ok (queues k p) \<and> waitq (tasks k) (recv_ends (queues k p)) xs \<and>
     waitq (tasks k) (send_ends (queues k p)) ys \<and> set xs \<inter> set ys = {}"

lemma slot_inject:
  assumes "i < c" and "j < c" and "c \<le> 2 ^ 30"
  shows "slot b i = slot b j \<longleftrightarrow> i = j"
proof
  assume "slot b i = slot b j"
  then have "(of_nat (4 * i) :: u32) = of_nat (4 * j)" by (simp add: slot_def)
  then have "unat (of_nat (4 * i) :: u32) = unat (of_nat (4 * j) :: u32)" by simp
  moreover have "unat (of_nat (4 * n) :: u32) = 4 * n" if "n < c" for n
    using that assms(3) by (simp add: unat_of_nat del: of_nat_mult)
  ultimately show "i = j" using assms(1,2) by simp
qed simp

lemma slot_unat: "slot b (unat i) = b + 4 * i"
  by (simp add: slot_def)

lemma buffer_write:
  assumes "i < c" and "c \<le> 2 ^ 30"
  shows "ring_list (\<lambda>j. (m(slot b i := v)) (slot b j)) h n c =
    ring_list ((\<lambda>j. m (slot b j))(i := v)) h n c"
  using assms by (intro ring_list_cong) (auto simp: slot_inject[where c = c])

lemma buffer_outside:
  assumes "0 < c" and "\<And>j. j < c \<Longrightarrow> a \<noteq> slot b j"
  shows "ring_list (\<lambda>j. (m(a := v)) (slot b j)) h n c = ring_list (\<lambda>j. m (slot b j)) h n c"
  using assms by (intro ring_list_cong) auto

lemma length_queue_messages [simp]: "length (queue_messages k q) = unat (q_count q)"
  by (simp add: queue_messages_def)

text \<open>The two ring updates of the code, on the messages.\<close>

lemma enqueue_messages:
  assumes ok: "queue_ok q" and room: "q_count q < q_capacity q"
    and q': "ring_payload q' = (q_buffer q, q_capacity q, q_count q + 1, q_head q,
      (q_tail q + 1) mod q_capacity q)"
    and ram: "ram k' = (ram k)(q_buffer q + 4 * q_tail q := v)"
  shows "queue_ok q' \<and> queue_messages k' q' = queue_messages k q @ [v]"
proof
  have q'_fields: "q_buffer q' = q_buffer q" "q_capacity q' = q_capacity q"
    "q_count q' = q_count q + 1" "q_head q' = q_head q"
    "q_tail q' = (q_tail q + 1) mod q_capacity q"
    using q' by (simp_all add: ring_payload_def)
  let ?h = "unat (q_head q)" and ?n = "unat (q_count q)" and ?c = "unat (q_capacity q)"
  have n: "?n < ?c" "?h < ?c" "?c \<le> 2 ^ 30" "unat (q_tail q) = (?h + ?n) mod ?c"
    using ok room by (simp_all add: queue_ok_def word_less_nat_alt)
  then have t: "unat (q_tail q) < ?c" by simp
  have cnt: "unat (q_count q + 1) = Suc ?n" using room by (rule unat_inc_u32)
  show "queue_ok q'"
    using ok room n t by (simp add: queue_ok_def q'_fields u32_wrap_index cnt u32_inc_le mod_simps)
  have "queue_messages k' q' =
      ring_list (\<lambda>j. ((ram k)(slot (q_buffer q) (unat (q_tail q)) := v)) (slot (q_buffer q) j)) ?h (Suc ?n) ?c"
    by (simp add: queue_messages_def q'_fields cnt ram slot_unat)
  also have "\<dots> = ring_list ((\<lambda>j. ram k (slot (q_buffer q) j))((?h + ?n) mod ?c := v)) ?h (Suc ?n) ?c"
    using buffer_write[OF t n(3), of "ram k" "q_buffer q" v ?h "Suc ?n"] n(4) by simp
  also have "\<dots> = queue_messages k q @ [v]"
    using ring_put[OF n(1)] by (simp add: queue_messages_def)
  finally show "queue_messages k' q' = queue_messages k q @ [v]" .
qed

lemma dequeue_messages:
  assumes ok: "queue_ok q" and some: "0 < q_count q"
    and q': "ring_payload q' = (q_buffer q, q_capacity q, q_count q - 1,
      (q_head q + 1) mod q_capacity q, q_tail q)"
    and ram: "ram k' = (ram k)(vp := ram k (q_buffer q + 4 * q_head q))"
    and vp: "\<And>i. i < unat (q_capacity q) \<Longrightarrow> vp \<noteq> slot (q_buffer q) i"
  shows "queue_ok q' \<and> queue_messages k q = ram k' vp # queue_messages k' q'"
proof
  have q'_fields: "q_buffer q' = q_buffer q" "q_capacity q' = q_capacity q"
    "q_count q' = q_count q - 1" "q_head q' = (q_head q + 1) mod q_capacity q"
    "q_tail q' = q_tail q"
    using q' by (simp_all add: ring_payload_def)
  let ?h = "unat (q_head q)" and ?c = "unat (q_capacity q)"
  obtain n where n: "unat (q_count q) = Suc n"
    using some by (metis gr0_conv_Suc unat_gt_0 u32_gt_0)
  have c: "?h < ?c" "0 < ?c" "Suc n \<le> ?c"
    using ok n by (simp_all add: queue_ok_def word_less_nat_alt word_le_nat_alt)
  have cnt: "unat (q_count q - 1) = n" using some n by (simp add: u32_gt_0 unat_pred_u32)
  have hd: "unat ((q_head q + 1) mod q_capacity q) = Suc ?h mod ?c"
    using c(1) by (rule u32_wrap_index)
  show "queue_ok q'"
    using ok n c
    by (simp add: queue_ok_def q'_fields cnt hd word_le_nat_alt word_less_nat_alt mod_simps)
  have "queue_messages k q = ram k (slot (q_buffer q) ?h) #
      ring_list (\<lambda>i. ram k (slot (q_buffer q) i)) (Suc ?h mod ?c) n ?c"
    using c(1) by (simp add: queue_messages_def n ring_get)
  also have "ring_list (\<lambda>i. ram k (slot (q_buffer q) i)) (Suc ?h mod ?c) n ?c = queue_messages k' q'"
    unfolding queue_messages_def q'_fields cnt hd ram by (rule buffer_outside[symmetric, OF c(2) vp])
  finally show "queue_messages k q = ram k' vp # queue_messages k' q'"
    by (simp add: ram slot_unat)
qed

section \<open>What one round of a call does\<close>

lemma queue_finish_frame [simp]:
  "queues (queue_finish w k) = queues k" "ram (queue_finish w k) = ram k"
  "current_task (queue_finish w k) = current_task k"
  "tasks (queue_finish w k) = (case w of Some t \<Rightarrow> upd_task t wake_up (tasks k) | None \<Rightarrow> tasks k)"
  by (simp_all add: queue_finish_def split: option.splits)

lemma queue_finish_yields: "pendsv_pending (port (queue_finish (Some t) k))"
  by (simp add: queue_finish_def)

lemma waitq_wake:
  "waitq (case w of Some t \<Rightarrow> upd_task t wake_up ts | None \<Rightarrow> ts) q xs = waitq ts q xs"
  by (simp add: waitq_upd_task split: option.splits)

lemma woke_firstI:
  assumes "tasks k1 = pop_store (tasks k) zs"
  shows "woke_first k zs (queue_finish (first_live (tasks k) zs) k1)"
  using assms by (auto simp: woke_first_def queue_finish_yields upd_task_apply split: option.splits)

lemma queue_send_room:
  assumes inv: "queue_inv k p xs ys" and room: "q_count (queues k p) < q_capacity (queues k p)"
  shows "\<exists>k'. queue_send_try p v ms k = Some (Some 0, k') \<and>
    queue_inv k' p (after_live (tasks k) xs) ys \<and>
    queue_messages k' (queues k' p) = queue_messages k (queues k p) @ [v] \<and>
    q_capacity (queues k' p) = q_capacity (queues k p) \<and>
    q_buffer (queues k' p) = q_buffer (queues k p) \<and> woke_first k xs k'"
proof -
  let ?q = "queues k p"
  let ?q2 = "?q\<lparr>q_tail := (q_tail ?q + 1) mod q_capacity ?q, q_count := q_count ?q + 1\<rparr>"
  from inv have w: "waitq (tasks k) (recv_ends ?q2) xs" "waitq (tasks k) (send_ends ?q2) ys"
    and ok: "queue_ok ?q" and dis: "set xs \<inter> set ys = {}"
    by (simp_all add: queue_inv_def queue_ends_defs)
  from receivers.pop_law[OF w(1)] obtain q3 where
    pop: "recv_pop ?q2 (tasks k) = Some (first_live (tasks k) xs, q3, pop_store (tasks k) xs)"
    and q3: "waitq (pop_store (tasks k) xs) (recv_ends q3) (after_live (tasks k) xs)"
      "ring_payload q3 = ring_payload ?q2" "send_ends q3 = send_ends ?q2" by auto
  define k3 where "k3 = k\<lparr>port := port_enter_critical (port k),
    ram := (ram k)(q_buffer ?q + 4 * q_tail ?q := v), queues := (queues k)(p := q3),
    tasks := pop_store (tasks k) xs\<rparr>"
  let ?k' = "queue_finish (first_live (tasks k) xs) k3"
  have eq: "queue_send_try p v ms k = Some (Some 0, ?k')"
    using room pop by (simp add: queue_send_try_def Let_def k3_def)
  have msgs: "queue_ok q3 \<and> queue_messages ?k' q3 = queue_messages k ?q @ [v]"
    using enqueue_messages[OF ok room, of q3 ?k' k v] q3(2) by (simp add: k3_def ring_payload_def)
  have senders: "waitq (pop_store (tasks k) xs) (send_ends q3) ys"
    using w(2) dis unfolding q3(3) by (simp add: pop_store_waitq)
  have "queue_inv ?k' p (after_live (tasks k) xs) ys"
    using msgs q3(1) senders dis set_after_live[of "tasks k" xs]
    by (auto simp: queue_inv_def k3_def waitq_wake)
  moreover have "q_capacity q3 = q_capacity ?q" "q_buffer q3 = q_buffer ?q"
    using q3(2) by (simp_all add: ring_payload_def)
  moreover have "woke_first k xs ?k'" by (rule woke_firstI) (simp add: k3_def)
  ultimately show ?thesis using eq msgs by (auto simp: k3_def)
qed

lemma queue_recv_some:
  assumes inv: "queue_inv k p xs ys" and some: "0 < q_count (queues k p)"
    and vp: "\<And>i. i < unat (q_capacity (queues k p)) \<Longrightarrow> vp \<noteq> slot (q_buffer (queues k p)) i"
  shows "\<exists>k'. queue_recv_try p vp ms k = Some (Some 0, k') \<and>
    queue_inv k' p xs (after_live (tasks k) ys) \<and>
    queue_messages k (queues k p) = ram k' vp # queue_messages k' (queues k' p) \<and>
    q_capacity (queues k' p) = q_capacity (queues k p) \<and>
    q_buffer (queues k' p) = q_buffer (queues k p) \<and> woke_first k ys k'"
proof -
  let ?q = "queues k p"
  let ?q2 = "?q\<lparr>q_head := (q_head ?q + 1) mod q_capacity ?q, q_count := q_count ?q - 1\<rparr>"
  from inv have w: "waitq (tasks k) (recv_ends ?q2) xs" "waitq (tasks k) (send_ends ?q2) ys"
    and ok: "queue_ok ?q" and dis: "set xs \<inter> set ys = {}"
    by (simp_all add: queue_inv_def queue_ends_defs)
  from senders.pop_law[OF w(2)] obtain q3 where
    pop: "send_pop ?q2 (tasks k) = Some (first_live (tasks k) ys, q3, pop_store (tasks k) ys)"
    and q3: "waitq (pop_store (tasks k) ys) (send_ends q3) (after_live (tasks k) ys)"
      "ring_payload q3 = ring_payload ?q2" "recv_ends q3 = recv_ends ?q2" by auto
  define k3 where "k3 = k\<lparr>port := port_enter_critical (port k),
    ram := (ram k)(vp := ram k (q_buffer ?q + 4 * q_head ?q)), queues := (queues k)(p := q3),
    tasks := pop_store (tasks k) ys\<rparr>"
  let ?k' = "queue_finish (first_live (tasks k) ys) k3"
  have eq: "queue_recv_try p vp ms k = Some (Some 0, ?k')"
    using some pop by (simp add: queue_recv_try_def Let_def k3_def)
  have msgs: "queue_ok q3 \<and> queue_messages k ?q = ram ?k' vp # queue_messages ?k' q3"
    using dequeue_messages[OF ok some, of q3 ?k' k vp] vp q3(2) by (simp add: k3_def ring_payload_def)
  have receivers: "waitq (pop_store (tasks k) ys) (recv_ends q3) xs"
    using w(1) dis unfolding q3(3) by (subst pop_store_waitq) auto
  have "queue_inv ?k' p xs (after_live (tasks k) ys)"
    using msgs q3(1) receivers dis set_after_live[of "tasks k" ys]
    by (auto simp: queue_inv_def k3_def waitq_wake)
  moreover have "q_capacity q3 = q_capacity ?q" "q_buffer q3 = q_buffer ?q"
    using q3(2) by (simp_all add: ring_payload_def)
  moreover have "woke_first k ys ?k'" by (rule woke_firstI) (simp add: k3_def)
  ultimately show ?thesis using eq msgs by (auto simp: k3_def)
qed

lemma queue_send_full:
  assumes "\<not> q_count (queues k p) < q_capacity (queues k p)"
  shows "queue_send_try p v 0 k = Some (Some RTOS_ERR_TIMEOUT, rtos_exit_critical (rtos_enter_critical k))"
  using assms by (simp add: queue_send_try_def Let_def)

lemma queue_recv_empty:
  assumes "q_count (queues k p) = 0"
  shows "queue_recv_try p vp 0 k = Some (Some RTOS_ERR_TIMEOUT, rtos_exit_critical (rtos_enter_critical k))"
  using assms by (simp add: queue_recv_try_def Let_def)

text \<open>A full queue blocks the sender: it joins the senders by priority, behind its equals.\<close>

lemma queue_send_blocks:
  assumes inv: "queue_inv k p xs ys" and full: "\<not> q_count (queues k p) < q_capacity (queues k p)"
    and ms: "ms \<noteq> 0" and cur: "current_task k = Some t" and t: "t \<notin> set xs" "t \<notin> set ys"
  shows "\<exists>k'. queue_send_try p v ms k = Some (None, k') \<and> current_task k' = Some t \<and>
    queue_inv k' p xs (prio_insert (\<lambda>x. priority (tasks k x)) t ys) \<and>
    queue_messages k' (queues k' p) = queue_messages k (queues k p) \<and> live (tasks k') t \<and>
    pendsv_pending (port k')"
proof -
  let ?q = "queues k p"
  let ?ts = "upd_task t (block_for RTOS_WAIT_QUEUE ms) (tasks k)"
  from inv have w: "waitq ?ts (recv_ends ?q) xs" "waitq ?ts (send_ends ?q) ys"
    and ok: "queue_ok ?q" and dis: "set xs \<inter> set ys = {}"
    by (simp_all add: queue_inv_def waitq_upd_task)
  from senders.push_law[OF w(2) t(2)] obtain q1 ts1 where
    push: "send_push t ?q ?ts = Some (q1, ts1)"
    and q1: "waitq ts1 (send_ends q1) (prio_insert (\<lambda>x. priority (?ts x)) t ys)"
      "relinked (insert t (set ys)) ?ts ts1" "ring_payload q1 = ring_payload ?q"
      "recv_ends q1 = recv_ends ?q" by auto
  have prio: "(\<lambda>x. priority (?ts x)) = (\<lambda>x. priority (tasks k x))" by (auto simp: upd_task_apply)
  have "waitq ts1 (recv_ends q1) xs"
    using w(1) dis t(1) unfolding q1(4) by (subst relinked_waitq[OF q1(2)]) auto
  moreover have "live ts1 t" using relinked_fields(8)[OF q1(2)] by simp
  moreover have "queue_send_try p v ms k = Some (None, rtos_yield (rtos_exit_critical
      ((rtos_enter_critical k)\<lparr>queues := (queues k)(p := q1), tasks := ts1\<rparr>)))"
    using full ms cur push by (simp add: queue_send_try_def Let_def)
  moreover have "queue_ok q1" "queue_messages k' q1 = queue_messages k ?q" if "ram k' = ram k" for k'
    using ok q1(3) that by (simp_all add: queue_ok_def queue_messages_def ring_payload_def)
  ultimately show ?thesis
    using q1(1) dis t(1) cur prio by (auto simp: queue_inv_def)
qed

lemma queue_recv_blocks:
  assumes inv: "queue_inv k p xs ys" and empty: "q_count (queues k p) = 0"
    and ms: "ms \<noteq> 0" and cur: "current_task k = Some t" and t: "t \<notin> set xs" "t \<notin> set ys"
  shows "\<exists>k'. queue_recv_try p vp ms k = Some (None, k') \<and> current_task k' = Some t \<and>
    queue_inv k' p (prio_insert (\<lambda>x. priority (tasks k x)) t xs) ys \<and>
    queue_messages k' (queues k' p) = [] \<and> live (tasks k') t \<and> pendsv_pending (port k')"
proof -
  let ?q = "queues k p"
  let ?ts = "upd_task t (block_for RTOS_WAIT_QUEUE ms) (tasks k)"
  from inv have w: "waitq ?ts (recv_ends ?q) xs" "waitq ?ts (send_ends ?q) ys"
    and ok: "queue_ok ?q" and dis: "set xs \<inter> set ys = {}"
    by (simp_all add: queue_inv_def waitq_upd_task)
  from receivers.push_law[OF w(1) t(1)] obtain q1 ts1 where
    push: "recv_push t ?q ?ts = Some (q1, ts1)"
    and q1: "waitq ts1 (recv_ends q1) (prio_insert (\<lambda>x. priority (?ts x)) t xs)"
      "relinked (insert t (set xs)) ?ts ts1" "ring_payload q1 = ring_payload ?q"
      "send_ends q1 = send_ends ?q" by auto
  have prio: "(\<lambda>x. priority (?ts x)) = (\<lambda>x. priority (tasks k x))" by (auto simp: upd_task_apply)
  have "waitq ts1 (send_ends q1) ys"
    using w(2) dis t(2) unfolding q1(4) by (subst relinked_waitq[OF q1(2)]) auto
  moreover have "live ts1 t" using relinked_fields(8)[OF q1(2)] by simp
  moreover have "queue_recv_try p vp ms k = Some (None, rtos_yield (rtos_exit_critical
      ((rtos_enter_critical k)\<lparr>queues := (queues k)(p := q1), tasks := ts1\<rparr>)))"
    using empty ms cur push by (simp add: queue_recv_try_def Let_def)
  moreover have "queue_ok q1" "queue_messages k' q1 = []" if "ram k' = ram k" for k'
    using ok q1(3) empty by (simp_all add: queue_ok_def queue_messages_def ring_payload_def)
  ultimately show ?thesis
    using q1(1) dis t(2) cur prio by (auto simp: queue_inv_def)
qed

text \<open>A resumption with a timeout leaves the messages and takes the caller out of its queue.\<close>

lemma queue_send_gives_up:
  assumes inv: "queue_inv k p xs ys" and to: "wait_result (tasks k t) = RTOS_ERR_TIMEOUT"
  shows "\<exists>k'. queue_send_resume p t k = Some (Some RTOS_ERR_TIMEOUT, k') \<and>
    queue_inv k' p xs (remove1 t ys) \<and>
    queue_messages k' (queues k' p) = queue_messages k (queues k p)"
proof -
  let ?q = "queues k p"
  from inv have w: "waitq (tasks k) (recv_ends ?q) xs" "waitq (tasks k) (send_ends ?q) ys"
    and ok: "queue_ok ?q" and dis: "set xs \<inter> set ys = {}"
    by (simp_all add: queue_inv_def)
  from senders.remove_law[OF w(2), of t] obtain q1 ts1 where
    rem: "send_remove t ?q (tasks k) = Some (q1, ts1)"
    and q1: "waitq ts1 (send_ends q1) (remove1 t ys)" "relinked (set ys) (tasks k) ts1"
      "ring_payload q1 = ring_payload ?q" "recv_ends q1 = recv_ends ?q" by auto
  have "waitq ts1 (recv_ends q1) xs"
    using w(1) dis unfolding q1(4) by (subst relinked_waitq[OF q1(2)]) auto
  moreover have "queue_ok q1" "queue_messages k' q1 = queue_messages k ?q" if "ram k' = ram k" for k'
    using ok q1(3) that by (simp_all add: queue_ok_def queue_messages_def ring_payload_def)
  ultimately show ?thesis
    using q1(1) dis to rem set_remove1_subset[of t ys]
    by (auto simp: queue_inv_def queue_send_resume_def Let_def waitq_upd_task)
qed

lemma queue_recv_gives_up:
  assumes inv: "queue_inv k p xs ys" and to: "wait_result (tasks k t) = RTOS_ERR_TIMEOUT"
  shows "\<exists>k'. queue_recv_resume p t k = Some (Some RTOS_ERR_TIMEOUT, k') \<and>
    queue_inv k' p (remove1 t xs) ys \<and>
    queue_messages k' (queues k' p) = queue_messages k (queues k p)"
proof -
  let ?q = "queues k p"
  from inv have w: "waitq (tasks k) (recv_ends ?q) xs" "waitq (tasks k) (send_ends ?q) ys"
    and ok: "queue_ok ?q" and dis: "set xs \<inter> set ys = {}"
    by (simp_all add: queue_inv_def)
  from receivers.remove_law[OF w(1), of t] obtain q1 ts1 where
    rem: "recv_remove t ?q (tasks k) = Some (q1, ts1)"
    and q1: "waitq ts1 (recv_ends q1) (remove1 t xs)" "relinked (set xs) (tasks k) ts1"
      "ring_payload q1 = ring_payload ?q" "send_ends q1 = send_ends ?q" by auto
  have "waitq ts1 (send_ends q1) ys"
    using w(2) dis unfolding q1(4) by (subst relinked_waitq[OF q1(2)]) auto
  moreover have "queue_ok q1" "queue_messages k' q1 = queue_messages k ?q" if "ram k' = ram k" for k'
    using ok q1(3) that by (simp_all add: queue_ok_def queue_messages_def ring_payload_def)
  ultimately show ?thesis
    using q1(1) dis to rem set_remove1_subset[of t xs]
    by (auto simp: queue_inv_def queue_recv_resume_def Let_def waitq_upd_task)
qed

section \<open>A queue polled from one context is a bounded FIFO\<close>

definition poll_send :: "u32 \<Rightarrow> u32 \<Rightarrow> kernel \<Rightarrow> bool \<times> kernel" where
  "poll_send p v k = (case rtos_queue_send_isr p v k of Some (r, k') \<Rightarrow> (r = RTOS_OK, k') | None \<Rightarrow> (False, k))"

definition poll_recv :: "u32 \<Rightarrow> u32 \<Rightarrow> kernel \<Rightarrow> u32 option \<times> kernel" where
  "poll_recv p vp k =
     (case rtos_queue_recv_timeout p vp 0 [] k of
        Some (r, k') \<Rightarrow> (if r = RTOS_OK then Some (ram k' vp) else None, k')
      | None \<Rightarrow> (None, k))"

definition queue_wf :: "kernel \<Rightarrow> u32 \<Rightarrow> bool" where
  "queue_wf k p \<longleftrightarrow> (\<exists>xs ys. queue_inv k p xs ys)"

lemma queue_wfI: "queue_inv k p xs ys \<Longrightarrow> queue_wf k p"
  by (auto simp: queue_wf_def)

definition poll_inv :: "u32 \<Rightarrow> u32 \<Rightarrow> kernel \<Rightarrow> bool" where
  "poll_inv p vp k \<longleftrightarrow> p \<noteq> 0 \<and> vp \<noteq> 0 \<and> queue_wf k p \<and>
     (\<forall>i < unat (q_capacity (queues k p)). vp \<noteq> slot (q_buffer (queues k p)) i)"

lemma queue_inv_port: "queue_inv (k\<lparr>port := x\<rparr>) p = queue_inv k p"
  by (intro ext) (simp add: queue_inv_def)

lemma queue_messages_port: "queue_messages (k\<lparr>port := x\<rparr>) q = queue_messages k q"
  by (simp add: queue_messages_def)

interpretation polled: bounded_fifo "poll_inv p vp" "\<lambda>k. queue_messages k (queues k p)"
  "\<lambda>k. unat (q_capacity (queues k p))" "poll_send p" "poll_recv p vp" for p vp
proof (unfold_locales, goal_cases)
  case (1 k)
  then show ?case by (auto simp: poll_inv_def queue_wf_def queue_inv_def queue_ok_def word_le_nat_alt)
next
  case (2 k v)
  then obtain xs ys where inv: "queue_inv k p xs ys" and p: "p \<noteq> 0"
    and room: "q_count (queues k p) < q_capacity (queues k p)"
    by (auto simp: poll_inv_def queue_wf_def word_less_nat_alt)
  from queue_send_room[OF inv room, of v 0] 2(1) p show ?case
    by (auto simp: poll_send_def poll_inv_def rtos_queue_send_isr_def rtos_queue_send_timeout_def
        queue_send_loop.simps intro: queue_wfI)
next
  case (3 k v)
  then have "p \<noteq> 0" "\<not> q_count (queues k p) < q_capacity (queues k p)"
    by (auto simp: poll_inv_def word_less_nat_alt)
  with 3 show ?case
    by (simp add: poll_send_def poll_inv_def rtos_queue_send_isr_def rtos_queue_send_timeout_def
        queue_send_loop.simps queue_send_full queue_wf_def queue_inv_port queue_messages_port)
next
  case (4 k m rest)
  then obtain xs ys where inv: "queue_inv k p xs ys" and p: "p \<noteq> 0" "vp \<noteq> 0"
    and vp: "\<And>i. i < unat (q_capacity (queues k p)) \<Longrightarrow> vp \<noteq> slot (q_buffer (queues k p)) i"
    by (auto simp: poll_inv_def queue_wf_def)
  have "unat (q_count (queues k p)) \<noteq> 0"
    using 4(2) length_queue_messages[of k "queues k p"] by auto
  then have some: "0 < q_count (queues k p)" by (simp add: word_less_nat_alt)
  from queue_recv_some[OF inv some vp, of 0] 4 p show ?case
    by (auto simp: poll_recv_def poll_inv_def rtos_queue_recv_timeout_def queue_recv_loop.simps intro: queue_wfI)
next
  case (5 k)
  then have p: "p \<noteq> 0" "vp \<noteq> 0" and "q_count (queues k p) = 0"
    using length_queue_messages[of k "queues k p"] by (auto simp: poll_inv_def unat_eq_0)
  with 5 show ?case
    by (simp add: poll_recv_def poll_inv_def rtos_queue_recv_timeout_def queue_recv_loop.simps
        queue_recv_empty queue_wf_def queue_inv_port queue_messages_port)
qed

section \<open>Properties\<close>

text \<open>
  C10. Messages come out in the order they went in: for every sequence of polling sends and
  receives, the messages in the queue followed by those accepted are those delivered followed
  by those left; nothing is lost or duplicated, and the capacity is never exceeded.
\<close>

theorem queue_fifo:
  assumes "poll_inv p vp k" and "fifo_run (poll_send p) (poll_recv p vp) cs k = (ins, outs, k')"
  shows "queue_messages k (queues k p) @ ins = outs @ queue_messages k' (queues k' p) \<and>
    length (queue_messages k' (queues k' p)) \<le> unat (q_capacity (queues k p))"
  using polled.run_fifo[OF assms] by blast

text \<open>
  C16. One round of a send, on every branch: with room the message is appended and the first
  live receiver is made ready; on a full queue a poll reports a timeout and changes nothing,
  and any other call blocks the sender in priority order. The ring stays well formed and the
  two wait queues stay disjoint.
\<close>

theorem queue_send_round:
  assumes inv: "queue_inv k p xs ys" and cur: "current_task k = Some t"
    and t: "t \<notin> set xs" "t \<notin> set ys"
  shows "\<exists>r k' xs' ys'. queue_send_try p v ms k = Some (r, k') \<and> queue_inv k' p xs' ys' \<and>
    (if unat (q_count (queues k p)) < unat (q_capacity (queues k p))
     then r = Some RTOS_OK \<and> queue_messages k' (queues k' p) = queue_messages k (queues k p) @ [v] \<and>
       xs' = after_live (tasks k) xs \<and> ys' = ys \<and> woke_first k xs k'
     else queue_messages k' (queues k' p) = queue_messages k (queues k p) \<and> xs' = xs \<and>
       (if ms = 0 then r = Some RTOS_ERR_TIMEOUT \<and> ys' = ys \<and> tasks k' = tasks k
        else r = None \<and> ys' = prio_insert (\<lambda>x. priority (tasks k x)) t ys \<and> live (tasks k') t))"
proof (cases "q_count (queues k p) < q_capacity (queues k p)")
  case True
  with queue_send_room[OF inv True, of v ms] show ?thesis by (fastforce simp: word_less_nat_alt)
next
  case full: False
  show ?thesis
  proof (cases "ms = 0")
    case True
    with full inv show ?thesis
      by (auto simp: queue_send_full word_less_nat_alt queue_inv_def queue_messages_def
          intro!: exI[of _ xs] exI[of _ ys])
  next
    case False
    with queue_send_blocks[OF inv full False cur t, of v] full show ?thesis
      by (auto simp: word_less_nat_alt)
  qed
qed

text \<open>
  One round of a receive, on every branch: the oldest message is stored through the
  caller's pointer and the first live sender is made ready; on an empty queue a poll reports
  a timeout and changes nothing, and any other call blocks the receiver in priority order.
\<close>

lemma queue_recv_round:
  assumes inv: "queue_inv k p xs ys" and cur: "current_task k = Some t"
    and t: "t \<notin> set xs" "t \<notin> set ys"
    and vp: "\<And>i. i < unat (q_capacity (queues k p)) \<Longrightarrow> vp \<noteq> slot (q_buffer (queues k p)) i"
  shows "\<exists>r k' xs' ys'. queue_recv_try p vp ms k = Some (r, k') \<and> queue_inv k' p xs' ys' \<and>
    (case queue_messages k (queues k p) of
       m # rest \<Rightarrow> r = Some RTOS_OK \<and> ram k' vp = m \<and> queue_messages k' (queues k' p) = rest \<and>
         xs' = xs \<and> ys' = after_live (tasks k) ys \<and> woke_first k ys k'
     | [] \<Rightarrow> queue_messages k' (queues k' p) = [] \<and> ys' = ys \<and>
         (if ms = 0 then r = Some RTOS_ERR_TIMEOUT \<and> xs' = xs \<and> tasks k' = tasks k
          else r = None \<and> xs' = prio_insert (\<lambda>x. priority (tasks k x)) t xs \<and> live (tasks k') t))"
proof (cases "q_count (queues k p) = 0")
  case False
  then have "0 < q_count (queues k p)" by (simp add: u32_gt_0)
  from queue_recv_some[OF inv this vp, of ms] show ?thesis by fastforce
next
  case empty: True
  then have msgs: "queue_messages k (queues k p) = []" by (simp add: queue_messages_def)
  show ?thesis
  proof (cases "ms = 0")
    case True
    with empty inv msgs show ?thesis
      by (auto simp: queue_recv_empty queue_inv_def queue_messages_def
          intro!: exI[of _ xs] exI[of _ ys])
  next
    case False
    from queue_recv_blocks[OF inv empty False cur t, of vp] False msgs show ?thesis by auto
  qed
qed

text \<open>A queue of two messages at 0x20001000 with its buffer at 0x20002000 and task 1 receiving.\<close>

definition sample_queue_kernel :: kernel where
  "sample_queue_kernel = (zero_kernel sample_image)\<lparr>
     current_task := Some 0,
     tasks := (\<lambda>_. zero_task)(
       0 := zero_task\<lparr>priority := 1, task_state := RTOS_TASK_RUNNING\<rparr>,
       1 := zero_task\<lparr>priority := 2, task_state := RTOS_TASK_BLOCKED, wait_type := RTOS_WAIT_QUEUE\<rparr>),
     queues := (\<lambda>_. \<lparr>q_buffer = 0x20002000, q_capacity = 2, q_count = 0, q_head = 1, q_tail = 1,
       recv_wait_head = Some 1, recv_wait_tail = Some 1, send_wait_head = None, send_wait_tail = None\<rparr>)\<rparr>"

lemma sample_queue_inv: "queue_inv sample_queue_kernel 0x20001000 [1] []"
  by (simp add: queue_inv_def queue_ok_def sample_queue_kernel_def waitq_def recv_ends_def
      send_ends_def zero_task_def last_opt_def)

lemma sample_queue_fields:
  "current_task sample_queue_kernel = Some 0"
  "queues sample_queue_kernel a = \<lparr>q_buffer = 0x20002000, q_capacity = 2, q_count = 0, q_head = 1,
     q_tail = 1, recv_wait_head = Some 1, recv_wait_tail = Some 1, send_wait_head = None,
     send_wait_tail = None\<rparr>"
  by (simp_all add: sample_queue_kernel_def)

theorem queue_send_round_witness:
  "\<exists>k'. queue_send_try 0x20001000 7 100 sample_queue_kernel = Some (Some RTOS_OK, k') \<and>
     queue_messages k' (queues k' 0x20001000) = [7] \<and> task_state (tasks k' 1) = RTOS_TASK_READY"
proof -
  have live1: "live (tasks sample_queue_kernel) 1"
    by (simp add: live_def sample_queue_kernel_def zero_task_def)
  show ?thesis
    using queue_send_round[OF sample_queue_inv sample_queue_fields(1), where v = 7 and ms = 100] live1
    by (auto simp: sample_queue_fields queue_messages_def woke_first_def)
qed

lemma queue_recv_round_example:
  "\<exists>k'. queue_recv_try 0x20001000 0x20003000 0 sample_queue_kernel =
     Some (Some RTOS_ERR_TIMEOUT, k') \<and> tasks k' = tasks sample_queue_kernel"
proof -
  have away: "0x20003000 \<noteq> slot 0x20002000 i" if "i < 2" for i
    using that by (cases i) (auto simp: slot_def less_Suc_eq)
  show ?thesis
    using queue_recv_round[OF sample_queue_inv sample_queue_fields(1), where vp = "0x20003000" and ms = 0] away
    by (auto simp: sample_queue_fields queue_messages_def)
qed

text \<open>
  The program: two messages are accepted by the sample queue of two slots, the third is
  refused, and the first comes out.
\<close>

theorem queue_fifo_witness:
  "\<exists>ins outs k'. fifo_run (poll_send 0x20001000) (poll_recv 0x20001000 0x20003000)
      [Put 7, Put 8, Put 9, Get] sample_queue_kernel = (ins, outs, k') \<and>
    ins = outs @ queue_messages k' (queues k' 0x20001000) \<and>
    length (queue_messages k' (queues k' 0x20001000)) \<le> 2"
proof -
  have "0x20003000 \<noteq> slot 0x20002000 i" if "i < 2" for i
    using that by (cases i) (auto simp: slot_def less_Suc_eq)
  then have inv: "poll_inv 0x20001000 0x20003000 sample_queue_kernel"
    using queue_wfI[OF sample_queue_inv] by (simp add: poll_inv_def sample_queue_fields)
  obtain ins outs k' where run: "fifo_run (poll_send 0x20001000) (poll_recv 0x20001000 0x20003000)
      [Put 7, Put 8, Put 9, Get] sample_queue_kernel = (ins, outs, k')"
    by (metis prod_cases3)
  have "queue_messages sample_queue_kernel (queues sample_queue_kernel 0x20001000) = []"
    by (simp add: queue_messages_def sample_queue_fields)
  with queue_fifo[OF inv run] run show ?thesis by (simp add: sample_queue_fields)
qed

text \<open>
  C22. A sender that had to block finishes as it should: if, when it runs again, it was not
  timed out and there is room, the call returns RTOS\_OK with its message last in the queue;
  if it was timed out the call returns RTOS\_ERR\_TIMEOUT, the message was not sent and the
  sender has left the queue of senders.
\<close>

theorem queue_send_after_block:
  assumes p: "p \<noteq> 0" and inv: "queue_inv k p xs ys"
    and full: "\<not> q_count (queues k p) < q_capacity (queues k p)" and ms: "ms \<noteq> 0"
    and cur: "current_task k = Some t" and t: "t \<notin> set xs" "t \<notin> set ys"
    and susp: "\<And>k1. queue_send_try p v ms k = Some (None, k1) \<Longrightarrow> suspend k1 = Some k2"
    and inv2: "queue_inv k2 p xs2 ys2"
    and room: "wait_result (tasks k2 t) \<noteq> RTOS_ERR_TIMEOUT \<Longrightarrow>
      q_count (queues k2 p) < q_capacity (queues k2 p)"
  shows "\<exists>r k3. rtos_queue_send_timeout p v ms [suspend] k = Some (r, k3) \<and>
    (if wait_result (tasks k2 t) = RTOS_ERR_TIMEOUT
     then r = RTOS_ERR_TIMEOUT \<and> queue_inv k3 p xs2 (remove1 t ys2) \<and>
       queue_messages k3 (queues k3 p) = queue_messages k2 (queues k2 p)
     else r = RTOS_OK \<and> queue_inv k3 p (after_live (tasks k2) xs2) ys2 \<and>
       queue_messages k3 (queues k3 p) = queue_messages k2 (queues k2 p) @ [v])"
proof -
  from queue_send_blocks[OF inv full ms cur t, of v] obtain k1 where
    tried: "queue_send_try p v ms k = Some (None, k1)" and cur1: "current_task k1 = Some t" by blast
  note s1 = susp[OF tried]
  show ?thesis
  proof (cases "wait_result (tasks k2 t) = RTOS_ERR_TIMEOUT")
    case True
    from queue_send_gives_up[OF inv2 True] show ?thesis
      using p tried cur1 s1 True
      by (auto simp: rtos_queue_send_timeout_def queue_send_loop.simps)
  next
    case False
    define k2' where "k2' = rtos_exit_critical (rtos_enter_critical k2)"
    have resume: "queue_send_resume p t k2 = Some (None, k2')"
      using False by (simp add: queue_send_resume_def Let_def k2'_def)
    have "queue_inv k2' p xs2 ys2" "q_count (queues k2' p) < q_capacity (queues k2' p)"
      and same: "tasks k2' = tasks k2" "queue_messages k2' (queues k2' p) = queue_messages k2 (queues k2 p)"
      using inv2 room[OF False] by (simp_all add: k2'_def queue_inv_port queue_messages_port)
    from queue_send_room[OF this(1,2), of v ms] show ?thesis
      using p tried cur1 s1 False resume same
      by (auto simp: rtos_queue_send_timeout_def queue_send_loop.simps)
  qed
qed

text \<open>The sample queue, full, and a suspension in which a receiver drained it.\<close>

theorem queue_send_after_block_witness:
  "\<exists>k3. rtos_queue_send_timeout 0x20001000 5 50 [\<lambda>_. Some sample_queue_kernel]
      (sample_queue_kernel\<lparr>queues := (\<lambda>_. (queues sample_queue_kernel 0)\<lparr>q_count := 2\<rparr>)\<rparr>) =
        Some (RTOS_OK, k3) \<and>
      queue_messages k3 (queues k3 0x20001000) = [5]"
proof -
  let ?k = "sample_queue_kernel\<lparr>queues := (\<lambda>_. (queues sample_queue_kernel 0)\<lparr>q_count := 2\<rparr>)\<rparr>"
  have inv: "queue_inv ?k 0x20001000 [1] []"
    using sample_queue_inv by (simp add: queue_inv_def queue_ok_def queue_ends_defs sample_queue_fields)
  have ok: "wait_result (tasks sample_queue_kernel 0) \<noteq> RTOS_ERR_TIMEOUT"
    by (simp add: sample_queue_kernel_def zero_task_def)
  have empty: "queue_messages sample_queue_kernel (queues sample_queue_kernel 0x20001000) = []"
    by (simp add: queue_messages_def sample_queue_fields)
  show ?thesis
    using queue_send_after_block[OF _ inv _ _ _ _ _ _ sample_queue_inv,
        where t = 0 and ms = 50 and v = 5 and suspend = "\<lambda>_. Some sample_queue_kernel"] ok empty
    by (auto simp: sample_queue_fields)
qed

end
