(* ===== verification/Mutex.thy ===== *)
theory Mutex
  imports Wait_Object Object_Registry
begin

text \<open>
  Recursive mutexes with priority inheritance (kernel/mutex.c). Locking is a loop: a round
  (\<open>mutex_lock_try\<close>) takes the mutex, counts a recursive lock, gives up, or blocks the caller
  after lending its priority to the owner; a resumption gives up after a timeout, which
  recomputes the owner's priority, or goes round again. Unlocking wakes the first live
  waiter but leaves the mutex free: the woken task competes for it in its next round.
\<close>

section \<open>The wait queue of a mutex\<close>

definition mutex_ends :: "rtos_mutex \<Rightarrow> wait_ends" where
  "mutex_ends m = (mtx_wait_head m, mtx_wait_tail m)"

definition set_mutex_ends :: "wait_ends \<Rightarrow> rtos_mutex \<Rightarrow> rtos_mutex" where
  "set_mutex_ends e m = m\<lparr>mtx_wait_head := fst e, mtx_wait_tail := snd e\<rparr>"

definition mutex_push :: "nat \<Rightarrow> rtos_mutex \<Rightarrow> task_store \<Rightarrow> (rtos_mutex \<times> task_store) option" where
  "mutex_push t m ts = map_option (\<lambda>(e, ts). (set_mutex_ends e m, ts)) (wait_push t (mutex_ends m) ts)"

definition mutex_pop :: "rtos_mutex \<Rightarrow> task_store \<Rightarrow> (nat option \<times> rtos_mutex \<times> task_store) option" where
  "mutex_pop m ts = map_option (\<lambda>(r, e, ts). (r, set_mutex_ends e m, ts)) (wait_pop (mutex_ends m) ts)"

definition mutex_remove :: "nat \<Rightarrow> rtos_mutex \<Rightarrow> task_store \<Rightarrow> (rtos_mutex \<times> task_store) option" where
  "mutex_remove t m ts = map_option (\<lambda>(e, ts). (set_mutex_ends e m, ts)) (wait_remove t (mutex_ends m) ts)"

definition mutex_payload :: "rtos_mutex \<Rightarrow> nat option \<times> u32" where
  "mutex_payload m = (mtx_owner m, mtx_lock_count m)"

interpretation mutex_queue: embedded_queue mutex_ends set_mutex_ends
  mutex_push mutex_remove mutex_payload mutex_pop
  by unfold_locales
    (simp_all add: mutex_ends_def set_mutex_ends_def mutex_payload_def mutex_push_def mutex_pop_def
      mutex_remove_def)

section \<open>Operations\<close>

partial_function (option) recompute_scan :: "task_store \<Rightarrow> u32 \<Rightarrow> nat option \<Rightarrow> u32 option" where
  "recompute_scan ts prio scan =
     (case scan of
        None \<Rightarrow> Some prio
      | Some s \<Rightarrow>
          recompute_scan ts
            (if task_state (ts s) = RTOS_TASK_BLOCKED \<and> wait_result (ts s) = RTOS_OK \<and>
                prio < priority (ts s) then priority (ts s) else prio)
            (wait_next (ts s)))"

definition recompute_owner_priority :: "rtos_mutex \<Rightarrow> task_store \<Rightarrow> task_store option" where
  "recompute_owner_priority m ts =
     (case mtx_owner m of
        None \<Rightarrow> Some ts
      | Some owner \<Rightarrow> do {
          prio \<leftarrow> recompute_scan ts (base_priority (ts owner)) (mtx_wait_head m);
          Some (upd_task owner (\<lambda>b. b\<lparr>priority := prio\<rparr>) ts)
        })"

definition rtos_mutex_init :: "u32 \<Rightarrow> kernel \<Rightarrow> int \<times> kernel" where
  "rtos_mutex_init p k =
     (if p = 0 then (-1, k)
      else let m = \<lparr>mtx_owner = None, mtx_lock_count = 0, mtx_wait_head = None, mtx_wait_tail = None\<rparr>;
               k1 = k\<lparr>mutexes := (mutexes k)(p := m)\<rparr>
           in (0, snd (rtos_object_register p RTOS_OBJECT_MUTEX k1)))"

definition mutex_lock_try :: "u32 \<Rightarrow> u32 \<Rightarrow> kernel \<Rightarrow> (int option \<times> kernel) option" where
  "mutex_lock_try p timeout_ms k =
     (let k1 = rtos_enter_critical k; m = mutexes k1 p in
      case mtx_owner m of
        None \<Rightarrow>
          (let m1 = m\<lparr>mtx_owner := current_task k1, mtx_lock_count := 1\<rparr>
           in Some (Some RTOS_OK, rtos_exit_critical (k1\<lparr>mutexes := (mutexes k1)(p := m1)\<rparr>)))
      | Some owner \<Rightarrow>
          if mtx_owner m = current_task k1 then
            (let m1 = m\<lparr>mtx_lock_count := mtx_lock_count m + 1\<rparr>
             in Some (Some RTOS_OK, rtos_exit_critical (k1\<lparr>mutexes := (mutexes k1)(p := m1)\<rparr>)))
          else if timeout_ms = 0 then Some (Some RTOS_ERR_TIMEOUT, rtos_exit_critical k1)
          else do {
            task \<leftarrow> current_task k1;
            let ts = tasks k1;
            let ts1 = (if priority (ts owner) < priority (ts task)
                       then upd_task owner (\<lambda>b. b\<lparr>priority := priority (ts task)\<rparr>) ts else ts);
            let ts2 = upd_task task (block_for RTOS_WAIT_MUTEX timeout_ms) ts1;
            (m1, ts3) \<leftarrow> mutex_push task m ts2;
            Some (None, rtos_yield (rtos_exit_critical
              (k1\<lparr>mutexes := (mutexes k1)(p := m1), tasks := ts3\<rparr>)))
          })"

definition mutex_lock_resume :: "u32 \<Rightarrow> nat \<Rightarrow> kernel \<Rightarrow> (int option \<times> kernel) option" where
  "mutex_lock_resume p task k =
     (let k1 = rtos_enter_critical k in
      if wait_result (tasks k1 task) = RTOS_ERR_TIMEOUT then do {
        (m, ts) \<leftarrow> mutex_remove task (mutexes k1 p) (tasks k1);
        let ts1 = upd_task task (\<lambda>b. b\<lparr>wait_type := RTOS_WAIT_NONE\<rparr>) ts;
        ts2 \<leftarrow> recompute_owner_priority m ts1;
        Some (Some RTOS_ERR_TIMEOUT,
          rtos_exit_critical (k1\<lparr>mutexes := (mutexes k1)(p := m), tasks := ts2\<rparr>))
      }
      else Some (None, rtos_exit_critical k1))"

fun mutex_lock_loop :: "u32 \<Rightarrow> u32 \<Rightarrow> suspension list \<Rightarrow> kernel \<Rightarrow> (int \<times> kernel) option" where
  "mutex_lock_loop p timeout_ms susps k = do {
     (r, k1) \<leftarrow> mutex_lock_try p timeout_ms k;
     case (r, susps) of
       (Some result, _) \<Rightarrow> Some (result, k1)
     | (None, []) \<Rightarrow> None
     | (None, suspend # rest) \<Rightarrow> do {
         task \<leftarrow> current_task k1;
         k2 \<leftarrow> suspend k1;
         (r2, k3) \<leftarrow> mutex_lock_resume p task k2;
         case r2 of
           Some result \<Rightarrow> Some (result, k3)
         | None \<Rightarrow> mutex_lock_loop p timeout_ms rest k3
       }
   }"

declare mutex_lock_loop.simps [simp del]

definition rtos_mutex_lock_timeout :: "u32 \<Rightarrow> u32 \<Rightarrow> suspension list \<Rightarrow> kernel \<Rightarrow> (int \<times> kernel) option" where
  "rtos_mutex_lock_timeout p timeout_ms susps k =
     (if p = 0 then Some (RTOS_ERR_INVALID, k) else mutex_lock_loop p timeout_ms susps k)"

definition rtos_mutex_lock :: "u32 \<Rightarrow> suspension list \<Rightarrow> kernel \<Rightarrow> (int \<times> kernel) option" where
  "rtos_mutex_lock p susps k = rtos_mutex_lock_timeout p RTOS_TIMEOUT_FOREVER susps k"

definition rtos_mutex_unlock :: "u32 \<Rightarrow> kernel \<Rightarrow> (int \<times> kernel) option" where
  "rtos_mutex_unlock p k =
     (if p = 0 then Some (-1, k)
      else let k1 = rtos_enter_critical k; m = mutexes k1 p in
        if mtx_owner m \<noteq> current_task k1 \<or> mtx_lock_count m = 0
        then Some (-1, rtos_exit_critical k1)
        else let m1 = m\<lparr>mtx_lock_count := mtx_lock_count m - 1\<rparr> in
          if mtx_lock_count m1 \<noteq> 0
          then Some (0, rtos_exit_critical (k1\<lparr>mutexes := (mutexes k1)(p := m1)\<rparr>))
          else do {
            owner \<leftarrow> mtx_owner m1;
            let ts = upd_task owner (\<lambda>b. b\<lparr>priority := base_priority b\<rparr>) (tasks k1);
            (woken, m2, ts1) \<leftarrow> mutex_pop (m1\<lparr>mtx_owner := None\<rparr>) ts;
            let k2 = k1\<lparr>mutexes := (mutexes k1)(p := m2), tasks := ts1\<rparr>;
            case woken of
              Some task \<Rightarrow>
                Some (0, rtos_yield (rtos_exit_critical
                  (k2\<lparr>tasks := upd_task task wake_up (tasks k2)\<rparr>)))
            | None \<Rightarrow> Some (0, rtos_exit_critical k2)
          })"

section \<open>Invariant and inherited priority\<close>

definition mutex_inv :: "kernel \<Rightarrow> u32 \<Rightarrow> nat list \<Rightarrow> bool" where
  "mutex_inv k p xs \<longleftrightarrow> waitq (tasks k) (mutex_ends (mutexes k p)) xs \<and>
     (mtx_owner (mutexes k p) = None \<longleftrightarrow> mtx_lock_count (mutexes k p) = 0) \<and>
     (\<forall>ow. mtx_owner (mutexes k p) = Some ow \<longrightarrow> ow \<notin> set xs)"

text \<open>No live waiter is more urgent than the owner: the promise of priority inheritance.\<close>

definition inherits :: "kernel \<Rightarrow> u32 \<Rightarrow> nat list \<Rightarrow> bool" where
  "inherits k p xs \<longleftrightarrow> (\<forall>ow x. mtx_owner (mutexes k p) = Some ow \<longrightarrow> x \<in> set xs \<longrightarrow>
     live (tasks k) x \<longrightarrow> priority (tasks k x) \<le> priority (tasks k ow))"

text \<open>The highest of a base priority and the priorities of the live waiters.\<close>

definition top_priority :: "task_store \<Rightarrow> u32 \<Rightarrow> nat list \<Rightarrow> u32" where
  "top_priority ts base xs = Max (insert base ((\<lambda>x. priority (ts x)) ` {x \<in> set xs. live ts x}))"

lemma top_priority_Nil [simp]: "top_priority ts base [] = base"
  by (simp add: top_priority_def)

lemma top_priority_Cons:
  "top_priority ts base (x # xs) =
     top_priority ts (if live ts x \<and> base < priority (ts x) then priority (ts x) else base) xs"
proof (cases "live ts x")
  case True
  let ?S = "(\<lambda>x. priority (ts x)) ` {x \<in> set xs. live ts x}"
  have "{y \<in> set (x # xs). live ts y} = insert x {y \<in> set xs. live ts y}" using True by auto
  then have "top_priority ts base (x # xs) = Max (insert base (insert (priority (ts x)) ?S))"
    by (simp add: top_priority_def)
  also have "\<dots> = Max (insert (max base (priority (ts x))) ?S)"
  proof (cases "?S = {}")
    case True
    show ?thesis unfolding True by simp
  next
    case False
    then show ?thesis by (simp add: max.assoc)
  qed
  finally show ?thesis using True by (auto simp: top_priority_def max_def)
next
  case False
  then have "{y \<in> set (x # xs). live ts y} = {y \<in> set xs. live ts y}" by auto
  with False show ?thesis by (simp add: top_priority_def)
qed

lemma top_priority_ge:
  "base \<le> top_priority ts base xs"
  "x \<in> set xs \<Longrightarrow> live ts x \<Longrightarrow> priority (ts x) \<le> top_priority ts base xs"
  by (auto simp: top_priority_def)

lemma top_priority_cong:
  assumes "\<And>x. live ts x = live ts' x" and "\<And>x. priority (ts x) = priority (ts' x)"
  shows "top_priority ts base xs = top_priority ts' base xs"
  using assms by (simp add: top_priority_def)

lemma recompute_scan_linked:
  "linked (\<lambda>x. wait_next (ts x)) scan xs \<Longrightarrow>
     recompute_scan ts prio scan = Some (top_priority ts prio xs)"
proof (induction xs arbitrary: scan prio)
  case Nil
  then show ?case by (simp add: recompute_scan.simps)
next
  case (Cons x xs)
  then show ?case
    by (simp add: recompute_scan.simps[of ts prio] top_priority_Cons live_def)
qed

lemma recompute_owner_eq:
  assumes "waitq ts (mutex_ends m) xs"
  shows "recompute_owner_priority m ts = Some (case mtx_owner m of None \<Rightarrow> ts
    | Some ow \<Rightarrow> upd_task ow (\<lambda>b. b\<lparr>priority := top_priority ts (base_priority (ts ow)) xs\<rparr>) ts)"
  using recompute_scan_linked[of ts "mtx_wait_head m" xs] assms
  by (auto simp: recompute_owner_priority_def waitq_def mutex_ends_def split: option.splits)

section \<open>What one round of a call does\<close>

lemma mutex_block:
  assumes inv: "mutex_inv k p xs" and cur: "current_task k = Some t" and t: "t \<notin> set xs"
    and ow: "mtx_owner (mutexes k p) = Some ow" "ow \<noteq> t" and ms: "ms \<noteq> 0"
  shows "\<exists>k'. mutex_lock_try p ms k = Some (None, k') \<and> current_task k' = Some t \<and>
    mutex_inv k' p (prio_insert (\<lambda>x. priority (tasks k x)) t xs) \<and>
    mutex_payload (mutexes k' p) = mutex_payload (mutexes k p) \<and> live (tasks k') t \<and>
    (\<forall>x. x \<noteq> t \<longrightarrow> live (tasks k') x = live (tasks k) x \<and> task_state (tasks k' x) = task_state (tasks k x)) \<and>
    (\<forall>x. priority (tasks k' x) =
       (if x = ow then max (priority (tasks k ow)) (priority (tasks k t)) else priority (tasks k x)))"
proof -
  let ?m = "mutexes k p" and ?ts = "tasks k"
  define ts1 where "ts1 = (if priority (?ts ow) < priority (?ts t)
    then upd_task ow (\<lambda>b. b\<lparr>priority := priority (?ts t)\<rparr>) ?ts else ?ts)"
  define ts2 where "ts2 = upd_task t (block_for RTOS_WAIT_MUTEX ms) ts1"
  have ow_xs: "ow \<notin> set xs" using inv ow by (simp add: mutex_inv_def)
  have prio2: "priority (ts2 x) = (if x = ow then max (priority (?ts ow)) (priority (?ts t))
      else priority (?ts x))" for x
    using ow(2) by (auto simp: ts2_def ts1_def upd_task_apply max_def)
  have "waitq ts2 (mutex_ends ?m) xs"
    using inv by (auto simp: mutex_inv_def ts2_def ts1_def waitq_upd_task)
  from mutex_queue.push_law[OF this t] obtain m1 ts3 where
    push: "mutex_push t ?m ts2 = Some (m1, ts3)"
    and w: "waitq ts3 (mutex_ends m1) (prio_insert (\<lambda>x. priority (ts2 x)) t xs)"
      "relinked (insert t (set xs)) ts2 ts3" "mutex_payload m1 = mutex_payload ?m" by blast
  have ins: "prio_insert (\<lambda>x. priority (ts2 x)) t xs = prio_insert (\<lambda>x. priority (?ts x)) t xs"
    using ow_xs ow(2) by (intro prio_insert_cong) (auto simp: prio2)
  have "live ts1 x = live ?ts x" for x by (simp add: ts1_def)
  then have lv: "live ts3 t" "\<And>x. x \<noteq> t \<Longrightarrow> live ts3 x = live ?ts x"
    using relinked_fields(8)[OF w(2)] by (simp_all add: ts2_def live_upd_other)
  have eq: "mutex_lock_try p ms k = Some (None, rtos_yield (rtos_exit_critical
      ((rtos_enter_critical k)\<lparr>mutexes := (mutexes k)(p := m1), tasks := ts3\<rparr>)))"
    using ow ms cur push by (simp add: mutex_lock_try_def Let_def ts1_def ts2_def split: if_splits)
  have pr: "priority (ts3 x) = (if x = ow then max (priority (?ts ow)) (priority (?ts t))
      else priority (?ts x))" for x
    using relinked_fields(3)[OF w(2)] prio2 by simp
  have st: "task_state (ts3 x) = task_state (?ts x)" if "x \<noteq> t" for x
    using relinked_fields(1)[OF w(2)] that by (simp add: ts2_def ts1_def upd_task_apply)
  show ?thesis
    using w(1)[unfolded ins] w(3) inv ow ow_xs cur lv pr st
    by (auto simp: eq mutex_inv_def mutex_payload_def)
qed

lemma mutex_inv_take:
  "mutex_inv k p xs \<Longrightarrow> t \<notin> set xs \<Longrightarrow> c \<noteq> 0 \<Longrightarrow>
   mutex_inv (k\<lparr>port := x, mutexes := (mutexes k)(p := (mutexes k p)\<lparr>mtx_owner := Some t, mtx_lock_count := c\<rparr>)\<rparr>) p xs"
  by (simp add: mutex_inv_def mutex_ends_def)

lemma mutex_inv_port: "mutex_inv (k\<lparr>port := x\<rparr>) p xs = mutex_inv k p xs"
  by (simp add: mutex_inv_def)

lemma mutex_unlock_last:
  assumes p: "p \<noteq> 0" and inv: "mutex_inv k p xs" and cur: "current_task k = Some t"
    and ow: "mtx_owner (mutexes k p) = Some t" "mtx_lock_count (mutexes k p) = 1"
  shows "\<exists>k'. rtos_mutex_unlock p k = Some (0, k') \<and> mutex_inv k' p (after_live (tasks k) xs) \<and>
    mtx_owner (mutexes k' p) = None \<and> woke_first k xs k' \<and>
    (\<forall>x. priority (tasks k' x) = (if x = t then base_priority (tasks k t) else priority (tasks k x)))"
proof -
  let ?m1 = "(mutexes k p)\<lparr>mtx_lock_count := 0, mtx_owner := None\<rparr>"
  let ?ts = "upd_task t (\<lambda>b. b\<lparr>priority := base_priority b\<rparr>) (tasks k)"
  have live: "live ?ts x = live (tasks k) x" for x by (simp add: live_def upd_task_apply)
  have fl: "first_live ?ts xs = first_live (tasks k) xs" "after_live ?ts xs = after_live (tasks k) xs"
    using live by (simp_all add: first_live_def after_live_def)
  have "waitq ?ts (mutex_ends ?m1) xs"
    using inv by (simp add: mutex_inv_def mutex_ends_def waitq_upd_task)
  from mutex_queue.pop_law[OF this] obtain m2 where
    pop: "mutex_pop ?m1 ?ts = Some (first_live (tasks k) xs, m2, pop_store ?ts xs)"
    and m2: "waitq (pop_store ?ts xs) (mutex_ends m2) (after_live (tasks k) xs)"
      "mutex_payload m2 = mutex_payload ?m1" by (auto simp: fl)
  have ts_other: "task_state (?ts x) = task_state (tasks k x)" for x by (simp add: upd_task_apply)
  show ?thesis
  proof (cases "first_live (tasks k) xs")
    case None
    then show ?thesis
      using p cur ow pop m2
      by (auto simp: rtos_mutex_unlock_def Let_def mutex_inv_def mutex_payload_def woke_first_def
          ts_other upd_task_apply)
  next
    case (Some w)
    then show ?thesis
      using p cur ow pop m2
      by (auto simp: rtos_mutex_unlock_def Let_def mutex_inv_def mutex_payload_def woke_first_def
          ts_other upd_task_apply waitq_upd_task)
  qed
qed

section \<open>Properties\<close>

text \<open>
  C8. One round of a lock, on every branch. A free mutex becomes the caller's; its owner
  counts one more lock; a poll of a foreign mutex changes nothing; any other call blocks the
  caller in priority order and lends the owner its priority, so that afterwards no live
  waiter is more urgent than the owner.
\<close>

theorem mutex_lock_round:
  assumes inv: "mutex_inv k p xs" and inh: "inherits k p xs" and cur: "current_task k = Some t"
    and t: "t \<notin> set xs" and room: "unat (mtx_lock_count (mutexes k p)) + 1 < 2 ^ 32"
  shows "\<exists>r k' xs'. mutex_lock_try p ms k = Some (r, k') \<and> mutex_inv k' p xs' \<and>
    (case mtx_owner (mutexes k p) of
       None \<Rightarrow> r = Some RTOS_OK \<and> mutex_payload (mutexes k' p) = (Some t, 1) \<and> xs' = xs
     | Some ow \<Rightarrow>
         if ow = t then r = Some RTOS_OK \<and> xs' = xs \<and>
           mutex_payload (mutexes k' p) = (Some t, mtx_lock_count (mutexes k p) + 1)
         else mutex_payload (mutexes k' p) = mutex_payload (mutexes k p) \<and>
           (if ms = 0 then r = Some RTOS_ERR_TIMEOUT \<and> xs' = xs \<and> tasks k' = tasks k
            else r = None \<and> xs' = prio_insert (\<lambda>x. priority (tasks k x)) t xs \<and>
              live (tasks k') t \<and> inherits k' p xs'))"
proof (cases "mtx_owner (mutexes k p)")
  case None
  with inv cur t show ?thesis
    by (auto simp: mutex_lock_try_def Let_def mutex_inv_def mutex_payload_def mutex_ends_def
        intro!: exI[of _ xs])
next
  case (Some ow)
  show ?thesis
  proof (cases "ow = t")
    case True
    have "mtx_lock_count (mutexes k p) + 1 \<noteq> 0"
      using room unat_Suc_u32[of "mtx_lock_count (mutexes k p)"] by auto
    with inv cur t Some True show ?thesis
      by (auto simp: mutex_lock_try_def Let_def mutex_inv_def mutex_payload_def mutex_ends_def
          intro!: exI[of _ xs])
  next
    case neq: False
    show ?thesis
    proof (cases "ms = 0")
      case True
      with inv cur Some neq show ?thesis
        by (auto simp: mutex_lock_try_def Let_def mutex_inv_port intro!: exI[of _ xs])
    next
      case False
      from mutex_block[OF inv cur t Some neq False] obtain k' where
        k': "mutex_lock_try p ms k = Some (None, k')"
        "mutex_inv k' p (prio_insert (\<lambda>x. priority (tasks k x)) t xs)"
        "mutex_payload (mutexes k' p) = mutex_payload (mutexes k p)" "live (tasks k') t"
        and live: "\<forall>x. x \<noteq> t \<longrightarrow> live (tasks k') x = live (tasks k) x"
        and prio: "\<forall>x. priority (tasks k' x) = (if x = ow
          then max (priority (tasks k ow)) (priority (tasks k t)) else priority (tasks k x))" by blast
      have "mtx_owner (mutexes k' p) = Some ow" using k'(3) Some by (simp add: mutex_payload_def)
      then have "inherits k' p (prio_insert (\<lambda>x. priority (tasks k x)) t xs)"
        using inh live prio Some t by (auto simp: inherits_def le_max_iff_disj)
      with k' Some neq False show ?thesis by auto
    qed
  qed
qed

text \<open>Task 1 owns the sample mutex at 0x20001000, task 2 (more urgent) waits for it.\<close>

definition sample_mutex_kernel :: kernel where
  "sample_mutex_kernel = (zero_kernel sample_image)\<lparr>
     current_task := Some 0,
     tasks := (\<lambda>_. zero_task)(
       0 := zero_task\<lparr>priority := 5, base_priority := 5, task_state := RTOS_TASK_RUNNING\<rparr>,
       1 := zero_task\<lparr>priority := 2, base_priority := 1\<rparr>,
       2 := zero_task\<lparr>priority := 2, base_priority := 2, task_state := RTOS_TASK_BLOCKED\<rparr>),
     mutexes := (\<lambda>_. \<lparr>mtx_owner = Some 1, mtx_lock_count = 1, mtx_wait_head = Some 2, mtx_wait_tail = Some 2\<rparr>)\<rparr>"

lemma sample_mutex_inv: "mutex_inv sample_mutex_kernel 0x20001000 [2]"
  by (simp add: mutex_inv_def sample_mutex_kernel_def waitq_def mutex_ends_def zero_task_def last_opt_def)

lemma sample_mutex_inherits: "inherits sample_mutex_kernel 0x20001000 [2]"
  by (simp add: inherits_def sample_mutex_kernel_def zero_task_def)

lemma sample_mutex_fields:
  "current_task sample_mutex_kernel = Some 0"
  "mutexes sample_mutex_kernel a =
     \<lparr>mtx_owner = Some 1, mtx_lock_count = 1, mtx_wait_head = Some 2, mtx_wait_tail = Some 2\<rparr>"
  by (simp_all add: sample_mutex_kernel_def)

theorem mutex_lock_round_witness:
  "\<exists>k' xs'. mutex_lock_try 0x20001000 100 sample_mutex_kernel = Some (None, k') \<and>
     live (tasks k') 0 \<and> inherits k' 0x20001000 xs' \<and> 0 \<in> set xs'"
  using mutex_lock_round[OF sample_mutex_inv sample_mutex_inherits sample_mutex_fields(1), where ms = 100]
  by (auto simp del: prio_insert.simps simp: sample_mutex_fields set_prio_insert
      intro!: exI[of _ "prio_insert (\<lambda>x. priority (tasks sample_mutex_kernel x)) 0 [2]"])

text \<open>
  C14. Unlocking, on every branch. Only the owner can unlock: any other caller gets an error
  and changes nothing. An inner unlock only counts down. The outermost unlock frees the mutex,
  gives the caller its base priority back and makes the first live waiter ready.
\<close>

theorem mutex_unlock_correct:
  assumes p: "p \<noteq> 0" and inv: "mutex_inv k p xs" and cur: "current_task k = Some t"
  shows "\<exists>r k' xs'. rtos_mutex_unlock p k = Some (r, k') \<and> mutex_inv k' p xs' \<and>
    (if mtx_owner (mutexes k p) \<noteq> Some t
     then r = -1 \<and> mutexes k' = mutexes k \<and> tasks k' = tasks k
     else r = 0 \<and>
       (if mtx_lock_count (mutexes k p) \<noteq> 1
        then mutex_payload (mutexes k' p) = (Some t, mtx_lock_count (mutexes k p) - 1) \<and>
          tasks k' = tasks k \<and> xs' = xs
        else mutex_payload (mutexes k' p) = (None, 0) \<and> xs' = after_live (tasks k) xs \<and>
          woke_first k xs k' \<and> priority (tasks k' t) = base_priority (tasks k t)))"
proof (cases "mtx_owner (mutexes k p) = Some t")
  case False
  with p inv cur show ?thesis
    by (auto simp: rtos_mutex_unlock_def Let_def mutex_inv_port intro!: exI[of _ xs])
next
  case ow: True
  show ?thesis
  proof (cases "mtx_lock_count (mutexes k p) = 1")
    case True
    from mutex_unlock_last[OF p inv cur ow True] obtain k' where
      k': "rtos_mutex_unlock p k = Some (0, k')" "mutex_inv k' p (after_live (tasks k) xs)"
      "mtx_owner (mutexes k' p) = None" "woke_first k xs k'"
      "priority (tasks k' t) = base_priority (tasks k t)" by auto
    then have "mutex_payload (mutexes k' p) = (None, 0)"
      by (simp add: mutex_inv_def mutex_payload_def)
    with k' ow True show ?thesis by auto
  next
    case False
    moreover have "mtx_lock_count (mutexes k p) \<noteq> 0" using inv ow by (simp add: mutex_inv_def)
    ultimately show ?thesis
      using p inv cur ow
      by (auto simp: rtos_mutex_unlock_def Let_def mutex_inv_def mutex_ends_def mutex_payload_def
          intro!: exI[of _ xs])
  qed
qed

theorem mutex_unlock_correct_witness:
  "\<exists>k'. rtos_mutex_unlock 0x20001000 (sample_mutex_kernel\<lparr>current_task := Some 1\<rparr>) = Some (0, k') \<and>
     mtx_owner (mutexes k' 0x20001000) = None \<and> task_state (tasks k' 2) = RTOS_TASK_READY \<and>
     priority (tasks k' 1) = 1"
proof -
  let ?k = "sample_mutex_kernel\<lparr>current_task := Some 1\<rparr>"
  have inv: "mutex_inv ?k 0x20001000 [2]" using sample_mutex_inv by (simp add: mutex_inv_def)
  have "live (tasks ?k) 2" "base_priority (tasks ?k 1) = 1"
    by (simp_all add: live_def sample_mutex_kernel_def zero_task_def)
  with mutex_unlock_correct[OF _ inv, of 1] show ?thesis
    by (auto simp: sample_mutex_fields mutex_payload_def woke_first_def)
qed

text \<open>
  C21. A waiter that gives up: the call returns RTOS\_ERR\_TIMEOUT, the caller leaves the queue,
  and the owner's priority is exactly the highest of its base priority and the priorities of
  the remaining live waiters, so a borrowed priority is returned as soon as its lender leaves
  and never earlier.
\<close>

theorem mutex_timeout_recomputes:
  assumes inv: "mutex_inv k p xs" and to: "wait_result (tasks k t) = RTOS_ERR_TIMEOUT"
  shows "\<exists>k'. mutex_lock_resume p t k = Some (Some RTOS_ERR_TIMEOUT, k') \<and>
    mutex_inv k' p (remove1 t xs) \<and> inherits k' p (remove1 t xs) \<and>
    mutex_payload (mutexes k' p) = mutex_payload (mutexes k p) \<and>
    (\<forall>x. priority (tasks k' x) =
       (if mtx_owner (mutexes k p) = Some x
        then top_priority (tasks k) (base_priority (tasks k x)) (remove1 t xs)
        else priority (tasks k x)))"
proof -
  let ?m = "mutexes k p"
  from inv have w: "waitq (tasks k) (mutex_ends ?m) xs" by (simp add: mutex_inv_def)
  from mutex_queue.remove_law[OF w, of t] obtain m1 ts where
    rem: "mutex_remove t ?m (tasks k) = Some (m1, ts)"
    and m1: "waitq ts (mutex_ends m1) (remove1 t xs)" "relinked (set xs) (tasks k) ts"
      "mutex_payload m1 = mutex_payload ?m" by blast
  define ts1 where "ts1 = upd_task t (\<lambda>b. b\<lparr>wait_type := RTOS_WAIT_NONE\<rparr>) ts"
  have same: "priority (ts1 x) = priority (tasks k x)" "live ts1 x = live (tasks k) x"
    "base_priority (ts1 x) = base_priority (tasks k x)" for x
    using relinked_fields[OF m1(2), of x] by (auto simp: ts1_def upd_task_apply)
  have top: "top_priority ts1 b zs = top_priority (tasks k) b zs" for b zs
    by (rule top_priority_cong) (simp_all add: same)
  have w1: "waitq ts1 (mutex_ends m1) (remove1 t xs)" using m1(1) by (simp add: ts1_def waitq_upd_task)
  have own: "mtx_owner m1 = mtx_owner ?m" "mtx_lock_count m1 = mtx_lock_count ?m"
    using m1(3) by (simp_all add: mutex_payload_def)
  define ts2 where "ts2 = (case mtx_owner ?m of None \<Rightarrow> ts1 | Some ow \<Rightarrow>
    upd_task ow (\<lambda>b. b\<lparr>priority := top_priority (tasks k) (base_priority (tasks k ow)) (remove1 t xs)\<rparr>) ts1)"
  have "recompute_owner_priority m1 ts1 = Some ts2"
    using recompute_owner_eq[OF w1] by (simp add: ts2_def own top same split: option.splits)
  then have eq: "mutex_lock_resume p t k = Some (Some RTOS_ERR_TIMEOUT, rtos_exit_critical
      ((rtos_enter_critical k)\<lparr>mutexes := (mutexes k)(p := m1), tasks := ts2\<rparr>))"
    using to rem by (simp add: mutex_lock_resume_def Let_def flip: ts1_def)
  have prio: "priority (ts2 x) = (if mtx_owner ?m = Some x
      then top_priority (tasks k) (base_priority (tasks k x)) (remove1 t xs)
      else priority (tasks k x))" for x
    by (auto simp: ts2_def same upd_task_apply split: option.splits)
  have live2: "live ts2 x = live (tasks k) x" for x
    by (auto simp: ts2_def same split: option.splits)
  have w2: "waitq ts2 (mutex_ends m1) (remove1 t xs)"
    using w1 by (auto simp: ts2_def waitq_upd_task split: option.splits)
  have sub: "x \<in> set xs" if "x \<in> set (remove1 t xs)" for x
    using that set_remove1_subset[of t xs] by auto
  show ?thesis
    using inv w2 prio live2 own top_priority_ge(2) m1(3)
    by (auto simp: eq mutex_inv_def inherits_def dest!: sub)
qed

theorem mutex_timeout_recomputes_witness:
  "\<exists>k'. mutex_lock_resume 0x20001000 2 (sample_mutex_kernel\<lparr>tasks := upd_task 2
        (\<lambda>b. b\<lparr>task_state := RTOS_TASK_RUNNING, wait_result := RTOS_ERR_TIMEOUT\<rparr>)
        (tasks sample_mutex_kernel)\<rparr>) = Some (Some RTOS_ERR_TIMEOUT, k') \<and>
     priority (tasks k' 1) = 1"
proof -
  let ?k = "sample_mutex_kernel\<lparr>tasks := upd_task 2
    (\<lambda>b. b\<lparr>task_state := RTOS_TASK_RUNNING, wait_result := RTOS_ERR_TIMEOUT\<rparr>) (tasks sample_mutex_kernel)\<rparr>"
  have inv: "mutex_inv ?k 0x20001000 [2]"
    using sample_mutex_inv by (simp add: mutex_inv_def waitq_upd_task)
  have "base_priority (tasks ?k 1) = 1" by (simp add: sample_mutex_kernel_def zero_task_def)
  with mutex_timeout_recomputes[OF inv, of 2] show ?thesis
    by (auto simp: sample_mutex_fields)
qed

section \<open>Recursion\<close>

text \<open>Repeated calls of one task, all of which must succeed.\<close>

fun lock_times :: "u32 \<Rightarrow> nat \<Rightarrow> kernel \<Rightarrow> kernel option" where
  "lock_times p 0 k = Some k"
| "lock_times p (Suc n) k = do {
     (r, k1) \<leftarrow> rtos_mutex_lock p [] k;
     if r = RTOS_OK then lock_times p n k1 else None
   }"

fun unlock_times :: "u32 \<Rightarrow> nat \<Rightarrow> kernel \<Rightarrow> kernel option" where
  "unlock_times p 0 k = Some k"
| "unlock_times p (Suc n) k = do {
     (r, k1) \<leftarrow> rtos_mutex_unlock p k;
     if r = 0 then unlock_times p n k1 else None
   }"

text \<open>\<open>held k p t n k'\<close>: \<open>k'\<close> differs from \<open>k\<close> in that \<open>t\<close> holds the mutex \<open>n\<close> deep, and in the port.\<close>

definition held :: "kernel \<Rightarrow> u32 \<Rightarrow> nat \<Rightarrow> nat \<Rightarrow> kernel \<Rightarrow> bool" where
  "held k p t n k' \<longleftrightarrow> tasks k' = tasks k \<and> current_task k' = Some t \<and>
     mutexes k' = (mutexes k)(p := (mutexes k p)\<lparr>mtx_owner := Some t, mtx_lock_count := of_nat n\<rparr>)"

lemma lock_first:
  assumes "p \<noteq> 0" and "current_task k = Some t" and "mtx_owner (mutexes k p) = None"
  shows "\<exists>k1. rtos_mutex_lock p [] k = Some (RTOS_OK, k1) \<and> held k p t 1 k1"
  using assms
  by (simp add: rtos_mutex_lock_def rtos_mutex_lock_timeout_def mutex_lock_loop.simps mutex_lock_try_def Let_def held_def)

lemma lock_again:
  assumes "p \<noteq> 0" and "held k p t n k1"
  shows "\<exists>k2. rtos_mutex_lock p [] k1 = Some (RTOS_OK, k2) \<and> held k p t (Suc n) k2"
  using assms
  by (simp add: rtos_mutex_lock_def rtos_mutex_lock_timeout_def mutex_lock_loop.simps mutex_lock_try_def Let_def
      held_def add.commute)

lemma lock_times_held:
  "p \<noteq> 0 \<Longrightarrow> held k p t m k1 \<Longrightarrow> \<exists>k2. lock_times p n k1 = Some k2 \<and> held k p t (m + n) k2"
proof (induction n arbitrary: m k1)
  case 0
  then show ?case by simp
next
  case (Suc n)
  from lock_again[OF Suc.prems] obtain k2 where k2: "rtos_mutex_lock p [] k1 = Some (RTOS_OK, k2)" "held k p t (Suc m) k2"
    by blast
  from Suc.IH[OF Suc.prems(1) k2(2)] k2(1) show ?case by auto
qed

lemma mutex_unlock_inner:
  assumes "p \<noteq> 0" and "held k p t (Suc (Suc n)) k1" and "Suc (Suc n) < 2 ^ 32"
  shows "\<exists>k2. rtos_mutex_unlock p k1 = Some (0, k2) \<and> held k p t (Suc n) k2"
proof -
  have "unat (of_nat (Suc (Suc n)) :: u32) = Suc (Suc n)" "unat (of_nat (Suc n) :: u32) = Suc n"
    using assms(3) by (simp_all add: unat_of_nat del: of_nat_Suc)
  then have nz: "(of_nat (Suc (Suc n)) :: u32) \<noteq> 0" "(of_nat (Suc n) :: u32) \<noteq> 0" by (metis nat.distinct(1) unat_0)+
  have "(of_nat (Suc (Suc n)) :: u32) - 1 = of_nat (Suc n)" by simp
  then show ?thesis
    using assms(1,2) nz by (simp add: rtos_mutex_unlock_def Let_def held_def del: of_nat_Suc)
qed

lemma unlock_times_held:
  "p \<noteq> 0 \<Longrightarrow> held k p t (Suc (m + n)) k1 \<Longrightarrow> Suc (m + n) < 2 ^ 32 \<Longrightarrow>
     \<exists>k2. unlock_times p n k1 = Some k2 \<and> held k p t (Suc m) k2"
proof (induction n arbitrary: k1)
  case 0
  then show ?case by simp
next
  case (Suc n)
  from mutex_unlock_inner[OF Suc.prems(1), of k t "m + n" k1] Suc.prems(2,3) obtain k2 where
    k2: "rtos_mutex_unlock p k1 = Some (0, k2)" "held k p t (Suc (m + n)) k2" by auto
  from Suc.IH[OF Suc.prems(1) k2(2)] Suc.prems(3) k2(1) show ?case by auto
qed

lemma unlock_times_snoc:
  "unlock_times p n k = Some k1 \<Longrightarrow> rtos_mutex_unlock p k1 = Some (0, k2) \<Longrightarrow> unlock_times p (Suc n) k = Some k2"
proof (induction n arbitrary: k)
  case 0
  then show ?case by simp
next
  case (Suc n)
  from Suc.prems(1) obtain k' where k': "rtos_mutex_unlock p k = Some (0, k')" "unlock_times p n k' = Some k1"
    by (auto split: bind_splits if_splits)
  from Suc.IH[OF k'(2) Suc.prems(2)] k'(1) show ?case by (subst unlock_times.simps(2)) simp
qed

text \<open>
  C20. Recursive locking is undone by as many unlocks. A task that locks a free mutex \<open>n\<close> times
  owns it \<open>n\<close> deep without blocking; it still owns it after any smaller number of unlocks; and
  the \<open>n\<close>th one frees the mutex and leaves mutex, tasks and priorities exactly as they were when
  nobody has queued up meanwhile and the task had its base priority.
\<close>

theorem mutex_recursion_roundtrip:
  assumes "p \<noteq> 0" and "current_task k = Some t" and "mutex_inv k p []"
    and "mtx_owner (mutexes k p) = None" and "priority (tasks k t) = base_priority (tasks k t)"
    and "0 < n" and "n < 2 ^ 32"
  shows "\<exists>k1. lock_times p n k = Some k1 \<and> mutex_payload (mutexes k1 p) = (Some t, of_nat n) \<and>
    tasks k1 = tasks k \<and>
    (\<forall>m < n. \<exists>k2. unlock_times p m k1 = Some k2 \<and> mutex_payload (mutexes k2 p) = (Some t, of_nat (n - m))) \<and>
    (\<exists>k2. unlock_times p n k1 = Some k2 \<and> mutexes k2 = mutexes k \<and> tasks k2 = tasks k)"
proof -
  obtain j where j: "n = Suc j" using assms(6) by (cases n) auto
  obtain k0 where k0: "rtos_mutex_lock p [] k = Some (RTOS_OK, k0)" "held k p t 1 k0"
    using lock_first[OF assms(1,2,4)] by blast
  from lock_times_held[OF assms(1) k0(2), of j] obtain k1 where k1: "lock_times p j k0 = Some k1" "held k p t n k1"
    by (auto simp: j)
  have inner: "\<exists>k2. unlock_times p m k1 = Some k2 \<and> held k p t (n - m) k2" if "m < n" for m
    using unlock_times_held[OF assms(1), of k t "n - Suc m" m k1] that k1(2) assms(7) by (simp add: Suc_diff_Suc)
  have fields: "mtx_lock_count (mutexes k p) = 0" "mtx_wait_head (mutexes k p) = None" "mtx_wait_tail (mutexes k p) = None"
    using assms(3,4) by (auto simp: mutex_inv_def mutex_ends_def waitq_def)
  obtain k2 where k2: "unlock_times p j k1 = Some k2" "held k p t 1 k2" using inner[of j] j by auto
  have pop: "wait_pop (None, None) ts = Some (None, (None, None), ts)" for ts by (subst wait_pop.simps) simp
  have own_base: "upd_task t (\<lambda>b. b\<lparr>priority := base_priority b\<rparr>) (tasks k) = tasks k"
    using assms(5)[symmetric] by (simp add: upd_task_def)
  have m: "(mutexes k p)\<lparr>mtx_lock_count := 0, mtx_owner := None, mtx_wait_head := None, mtx_wait_tail := None\<rparr> = mutexes k p"
    using fields assms(4) by simp
  have "\<exists>k3. rtos_mutex_unlock p k2 = Some (0, k3) \<and> mutexes k3 = mutexes k \<and> tasks k3 = tasks k"
    using k2(2) assms(1) fields m
    by (simp add: rtos_mutex_unlock_def Let_def held_def mutex_pop_def mutex_ends_def set_mutex_ends_def pop own_base)
  then obtain k3 where k3: "rtos_mutex_unlock p k2 = Some (0, k3)" "mutexes k3 = mutexes k" "tasks k3 = tasks k" by blast
  have "unlock_times p n k1 = Some k3" unfolding j by (rule unlock_times_snoc[OF k2(1) k3(1)])
  moreover have "lock_times p n k = Some k1" using k0(1) k1(1) by (simp add: j)
  moreover have "\<exists>k2. unlock_times p m k1 = Some k2 \<and> mutex_payload (mutexes k2 p) = (Some t, of_nat (n - m))"
    if "m < n" for m
    using inner[OF that] by (auto simp: held_def mutex_payload_def)
  ultimately show ?thesis using k1(2) k3(2,3) by (auto simp: held_def mutex_payload_def)
qed

text \<open>Task 1 owns nothing; nobody waits.\<close>

definition sample_free_mutex :: kernel where
  "sample_free_mutex = (zero_kernel sample_image)\<lparr>current_task := Some 1\<rparr>"

theorem mutex_recursion_roundtrip_witness:
  "\<exists>k1 k2. lock_times 0x20001000 3 sample_free_mutex = Some k1 \<and>
     mtx_lock_count (mutexes k1 0x20001000) = 3 \<and> unlock_times 0x20001000 3 k1 = Some k2 \<and>
     mutexes k2 = mutexes sample_free_mutex"
proof -
  have k: "current_task sample_free_mutex = Some 1" "mtx_owner (mutexes sample_free_mutex 0x20001000) = None"
    "priority (tasks sample_free_mutex 1) = base_priority (tasks sample_free_mutex 1)"
    "mutex_inv sample_free_mutex 0x20001000 []"
    by (simp_all add: sample_free_mutex_def zero_kernel_def zero_task_def mutex_inv_def mutex_ends_def)
  have "(0x20001000 :: u32) \<noteq> 0" "0 < (3::nat)" "(3::nat) < 2 ^ 32" by simp_all
  from mutex_recursion_roundtrip[OF this(1) k(1,4,2,3) this(2,3)]
  show ?thesis by (auto simp: mutex_payload_def)
qed

end
