(* ===== verification/Event_Flags.thy ===== *)
theory Event_Flags
  imports Wait_Object Object_Registry
begin

text \<open>
  Event flags (kernel/event.c): a 32-bit set of flags and a queue of tasks that wait for any
  or for all of a selection of them. Setting flags walks the queue once and releases every
  waiter that is satisfied when it is reached; a released waiter that asked for it clears the
  flags it matched, before the next waiter is looked at.
\<close>

section \<open>The wait queue\<close>

definition event_ends :: "rtos_event_flags \<Rightarrow> wait_ends" where
  "event_ends e = (ev_wait_head e, ev_wait_tail e)"

definition set_event_ends :: "wait_ends \<Rightarrow> rtos_event_flags \<Rightarrow> rtos_event_flags" where
  "set_event_ends q e = e\<lparr>ev_wait_head := fst q, ev_wait_tail := snd q\<rparr>"

definition event_push ::
  "nat \<Rightarrow> rtos_event_flags \<Rightarrow> task_store \<Rightarrow> (rtos_event_flags \<times> task_store) option" where
  "event_push task e ts = do {
     (q, ts) \<leftarrow> wait_push task (event_ends e) ts;
     Some (set_event_ends q e, ts)
   }"

definition event_remove ::
  "nat \<Rightarrow> rtos_event_flags \<Rightarrow> task_store \<Rightarrow> (rtos_event_flags \<times> task_store) option" where
  "event_remove task e ts = do {
     (q, ts) \<leftarrow> wait_remove task (event_ends e) ts;
     Some (set_event_ends q e, ts)
   }"

lemma event_ends_simps [simp]:
  "event_ends (set_event_ends q e) = q" "ev_flags (set_event_ends q e) = ev_flags e"
  "event_ends (ev_flags_update f e) = event_ends e"
  "ev_flags_update f (set_event_ends q e) = set_event_ends q (ev_flags_update f e)"
  by (simp_all add: event_ends_def set_event_ends_def)

interpretation event_queue: embedded_list event_ends set_event_ends event_push event_remove ev_flags
  by unfold_locales (auto simp: event_push_def event_remove_def map_option_case
      split: option.splits bind_splits)

section \<open>Operations\<close>

text \<open>The result and the matched flags, which are stored through a pointer on every path.\<close>

definition flags_match :: "u32 \<Rightarrow> u32 \<Rightarrow> u32 \<Rightarrow> bool \<times> u32" where
  "flags_match current flags wait_all =
     (let selected = current AND flags in
      if wait_all \<noteq> 0 then
        (if selected = flags then (True, selected) else (False, 0))
      else if selected \<noteq> 0 then (True, selected)
      else (False, 0))"

definition rtos_event_flags_init :: "u32 \<Rightarrow> kernel \<Rightarrow> int \<times> kernel" where
  "rtos_event_flags_init p k =
     (if p = 0 then (RTOS_ERR_INVALID, k)
      else let e = \<lparr>ev_flags = 0, ev_wait_head = None, ev_wait_tail = None\<rparr>;
               k1 = k\<lparr>events := (events k)(p := e)\<rparr>
           in (RTOS_OK, snd (rtos_object_register p RTOS_OBJECT_EVENT_FLAGS k1)))"

text \<open>The assignments to a waiter that set\_common releases, and to the flags.\<close>

definition release :: "u32 \<Rightarrow> rtos_task \<Rightarrow> rtos_task" where
  "release matched b =
     b\<lparr>wait_flags_result := matched, delay_ticks := 0, wait_type := RTOS_WAIT_NONE,
       wait_result := RTOS_OK, task_state := RTOS_TASK_READY\<rparr>"

definition clear_matched :: "rtos_task \<Rightarrow> u32 \<Rightarrow> rtos_event_flags \<Rightarrow> rtos_event_flags" where
  "clear_matched b matched e =
     (if wait_flags_clear b \<noteq> 0 then e\<lparr>ev_flags := ev_flags e AND NOT matched\<rparr> else e)"

definition satisfied :: "u32 \<Rightarrow> rtos_task \<Rightarrow> bool" where
  "satisfied current b = fst (flags_match current (wait_flags b) (wait_flags_all b))"

definition matched_by :: "u32 \<Rightarrow> rtos_task \<Rightarrow> u32" where
  "matched_by current b = snd (flags_match current (wait_flags b) (wait_flags_all b))"

partial_function (option) set_scan ::
  "rtos_event_flags \<Rightarrow> task_store \<Rightarrow> nat option \<Rightarrow> nat option \<Rightarrow> bool \<Rightarrow>
     (rtos_event_flags \<times> task_store \<times> bool) option" where
  "set_scan e ts prev scan should_yield =
     (case scan of
        None \<Rightarrow> Some (e, ts, should_yield)
      | Some s \<Rightarrow>
          (if task_state (ts s) = RTOS_TASK_BLOCKED \<and> wait_result (ts s) = RTOS_OK \<and>
              satisfied (ev_flags e) (ts s)
           then set_scan
             (clear_matched (ts s) (matched_by (ev_flags e) (ts s))
               (set_event_ends (fst (unlink prev s (wait_next (ts s)) (event_ends e) ts)) e))
             (upd_task s (release (matched_by (ev_flags e) (ts s)))
               (snd (unlink prev s (wait_next (ts s)) (event_ends e) ts)))
             prev (wait_next (ts s)) True
           else set_scan e ts scan (wait_next (ts s)) should_yield))"

definition set_common :: "u32 \<Rightarrow> u32 \<Rightarrow> kernel \<Rightarrow> (int \<times> kernel) option" where
  "set_common p flags k =
     (if p = 0 \<or> flags = 0 then Some (RTOS_ERR_INVALID, k)
      else let k1 = rtos_enter_critical k;
               e = (events k1 p)\<lparr>ev_flags := ev_flags (events k1 p) OR flags\<rparr>
      in do {
        (e', ts, should_yield) \<leftarrow> set_scan e (tasks k1) None (ev_wait_head e) False;
        let k2 = rtos_exit_critical (k1\<lparr>events := (events k1)(p := e'), tasks := ts\<rparr>);
        Some (RTOS_OK, if should_yield then rtos_yield k2 else k2)
      })"

definition rtos_event_flags_set :: "u32 \<Rightarrow> u32 \<Rightarrow> kernel \<Rightarrow> (int \<times> kernel) option" where
  "rtos_event_flags_set p flags k = set_common p flags k"

definition rtos_event_flags_set_isr :: "u32 \<Rightarrow> u32 \<Rightarrow> kernel \<Rightarrow> (int \<times> kernel) option" where
  "rtos_event_flags_set_isr p flags k = set_common p flags k"

definition rtos_event_flags_clear :: "u32 \<Rightarrow> u32 \<Rightarrow> kernel \<Rightarrow> int \<times> kernel" where
  "rtos_event_flags_clear p flags k =
     (if p = 0 then (RTOS_ERR_INVALID, k)
      else let k1 = rtos_enter_critical k;
               k2 = k1\<lparr>events := (events k1)(p := (events k1 p)\<lparr>ev_flags := ev_flags (events k1 p) AND NOT flags\<rparr>)\<rparr>
           in (RTOS_OK, rtos_exit_critical k2))"

text \<open>
  A wait is cut where it yields. The value is what would be stored through matched\_flags:
  the matched flags on success, nothing on a timeout or an invalid call.
\<close>

definition event_wait_enter ::
  "u32 \<Rightarrow> u32 \<Rightarrow> u32 \<Rightarrow> u32 \<Rightarrow> u32 \<Rightarrow> kernel \<Rightarrow> ((int \<times> u32 option) option \<times> kernel) option" where
  "event_wait_enter p flags wait_all clear_on_exit timeout_ms k =
     (if p = 0 \<or> flags = 0 then Some (Some (RTOS_ERR_INVALID, None), k)
      else let k1 = rtos_enter_critical k; e = events k1 p in
        case flags_match (ev_flags e) flags wait_all of
          (True, matched) \<Rightarrow>
            let e' = (if clear_on_exit \<noteq> 0 then e\<lparr>ev_flags := ev_flags e AND NOT matched\<rparr> else e)
            in Some (Some (RTOS_OK, Some matched), rtos_exit_critical (k1\<lparr>events := (events k1)(p := e')\<rparr>))
        | (False, _) \<Rightarrow>
            if timeout_ms = 0 then Some (Some (RTOS_ERR_TIMEOUT, None), rtos_exit_critical k1)
            else do {
              task \<leftarrow> current_task k1;
              let ts = upd_task task (\<lambda>b. (block_for RTOS_WAIT_EVENT timeout_ms b)\<lparr>wait_flags := flags,
                         wait_flags_result := 0, wait_flags_all := wait_all,
                         wait_flags_clear := clear_on_exit\<rparr>) (tasks k1);
              (e', ts') \<leftarrow> event_push task e ts;
              Some (None, rtos_yield (rtos_exit_critical
                (k1\<lparr>events := (events k1)(p := e'), tasks := ts'\<rparr>)))
            })"

definition event_wait_resume :: "u32 \<Rightarrow> nat \<Rightarrow> kernel \<Rightarrow> ((int \<times> u32 option) \<times> kernel) option" where
  "event_wait_resume p task k =
     (let k1 = rtos_enter_critical k in
      if wait_result (tasks k1 task) = RTOS_ERR_TIMEOUT then do {
        (e', ts') \<leftarrow> event_remove task (events k1 p) (tasks k1);
        let ts'' = upd_task task (\<lambda>b. b\<lparr>wait_type := RTOS_WAIT_NONE\<rparr>) ts';
        Some ((RTOS_ERR_TIMEOUT, None),
          rtos_exit_critical (k1\<lparr>events := (events k1)(p := e'), tasks := ts''\<rparr>))
      }
      else Some ((RTOS_OK, Some (wait_flags_result (tasks k1 task))), rtos_exit_critical k1))"

definition rtos_event_flags_wait ::
  "u32 \<Rightarrow> u32 \<Rightarrow> u32 \<Rightarrow> u32 \<Rightarrow> u32 \<Rightarrow> suspension \<Rightarrow> kernel \<Rightarrow> ((int \<times> u32 option) \<times> kernel) option" where
  "rtos_event_flags_wait p flags wait_all clear_on_exit timeout_ms suspend k = do {
     (r, k1) \<leftarrow> event_wait_enter p flags wait_all clear_on_exit timeout_ms k;
     case r of
       Some result \<Rightarrow> Some (result, k1)
     | None \<Rightarrow> do {
         task \<leftarrow> current_task k1;
         k2 \<leftarrow> suspend k1;
         event_wait_resume p task k2
       }
   }"

section \<open>What one pass over the waiters does\<close>

text \<open>
  The pass as a function on the list of waiters: the flags it leaves, the released tasks with
  the flags they matched, in order, and the waiters that stay. A wait for all flags is met when
  none of them is missing, a wait for any when one of them is set.
\<close>

definition condition_met :: "u32 \<Rightarrow> rtos_task \<Rightarrow> bool" where
  "condition_met f b \<longleftrightarrow>
     (if wait_flags_all b \<noteq> 0 then wait_flags b AND NOT f = 0 else wait_flags b AND f \<noteq> 0)"

fun wake_pass :: "task_store \<Rightarrow> u32 \<Rightarrow> nat list \<Rightarrow> u32 \<times> (nat \<times> u32) list \<times> nat list" where
  "wake_pass ts f [] = (f, [], [])"
| "wake_pass ts f (x # xs) =
     (if live ts x \<and> condition_met f (ts x) then
        (let m = f AND wait_flags (ts x);
             (f', ws, rs) = wake_pass ts (if wait_flags_clear (ts x) \<noteq> 0 then f AND NOT m else f) xs
         in (f', (x, m) # ws, rs))
      else (let (f', ws, rs) = wake_pass ts f xs in (f', ws, x # rs)))"

lemma satisfied_iff: "satisfied f b \<longleftrightarrow> condition_met f b"
proof -
  have "f AND wait_flags b = wait_flags b \<longleftrightarrow> wait_flags b AND NOT f = 0"
    by (auto simp: bit_eq_iff bit_simps)
  then show ?thesis by (simp add: satisfied_def condition_met_def flags_match_def Let_def and.commute)
qed

lemma matched_by_met: "condition_met f b \<Longrightarrow> matched_by f b = f AND wait_flags b"
  by (simp add: matched_by_def flags_match_def Let_def flip: satisfied_iff)
    (auto simp: satisfied_def flags_match_def Let_def split: if_splits)

text \<open>The reference pass, in the terms of the code.\<close>

lemma wake_pass_Cons [simp]:
  "wake_pass ts f (x # xs) =
     (if live ts x \<and> satisfied f (ts x) then
        (let m = matched_by f (ts x);
             (f', ws, rs) = wake_pass ts (if wait_flags_clear (ts x) \<noteq> 0 then f AND NOT m else f) xs
         in (f', (x, m) # ws, rs))
      else (let (f', ws, rs) = wake_pass ts f xs in (f', ws, x # rs)))"
  by (simp add: satisfied_iff matched_by_met)

declare wake_pass.simps(2) [simp del]

lemma satisfied_link [simp]: "satisfied f (b\<lparr>wait_next := p\<rparr>) = satisfied f b"
  "matched_by f (b\<lparr>wait_next := p\<rparr>) = matched_by f b"
  by (simp_all add: satisfied_def matched_by_def)

lemma wake_pass_cong:
  "(\<And>x. x \<in> set xs \<Longrightarrow> \<exists>p. ts' x = (ts x)\<lparr>wait_next := p\<rparr>) \<Longrightarrow> wake_pass ts' f xs = wake_pass ts f xs"
proof (induction xs arbitrary: f)
  case Nil
  then show ?case by simp
next
  case (Cons x xs)
  obtain p where "ts' x = (ts x)\<lparr>wait_next := p\<rparr>" using Cons.prems by auto
  with Cons show ?case by (simp add: live_def)
qed

lemma wake_pass_sets:
  "wake_pass ts f xs = (f', ws, rs) \<Longrightarrow> set (map fst ws) \<subseteq> set xs \<and> set rs \<subseteq> set xs"
proof (induction xs arbitrary: f ws rs)
  case Nil
  then show ?case by simp
next
  case (Cons x xs)
  show ?case
  proof (cases "live ts x \<and> satisfied f (ts x)")
    case True
    then obtain g ws' where w: "wake_pass ts g xs = (f', ws', rs)" "ws = (x, matched_by f (ts x)) # ws'"
      using Cons.prems by (auto simp: Let_def split: prod.splits)
    with Cons.IH[OF w(1)] show ?thesis by auto
  next
    case False
    then obtain rs' where w: "wake_pass ts f xs = (f', ws, rs')" "rs = x # rs'"
      using Cons.prems by (auto simp: Let_def split: prod.splits)
    with Cons.IH[OF w(1)] show ?thesis by auto
  qed
qed

text \<open>The block of a task after the pass, up to its link.\<close>

definition after_pass :: "(nat \<times> u32) list \<Rightarrow> task_store \<Rightarrow> task_store \<Rightarrow> bool" where
  "after_pass ws ts ts' \<longleftrightarrow> (\<forall>x. \<exists>p. ts' x =
     (case map_of ws x of None \<Rightarrow> ts x | Some m \<Rightarrow> release m (ts x))\<lparr>wait_next := p\<rparr>)"

lemma after_pass_Nil: "after_pass [] ts ts"
  unfolding after_pass_def by (metis map_of.simps(1) option.simps(4) rtos_task.surjective rtos_task.update_convs(9))

lemma relinked_block: "relinked S ts ts' \<Longrightarrow> \<exists>p. ts' x = (ts x)\<lparr>wait_next := p\<rparr>"
  unfolding relinked_def by blast

lemma set_scan_pass:
  assumes "waitq ts (event_ends e) (us @ xs)" and "prev = last_opt us" and "scan = hd_opt xs"
    and "wake_pass ts (ev_flags e) xs = (f', ws, rs)"
  shows "\<exists>e' ts'. set_scan e ts prev scan y = Some (e', ts', y \<or> ws \<noteq> []) \<and> ev_flags e' = f' \<and>
    waitq ts' (event_ends e') (us @ rs) \<and> after_pass ws ts ts'"
  using assms
proof (induction xs arbitrary: e ts us prev scan y ws rs)
  case Nil
  then show ?case by (auto simp: set_scan.simps after_pass_Nil)
next
  case (Cons x xs)
  have nx: "wait_next (ts x) = hd_opt xs" using waitq_next[OF Cons.prems(1)] .
  show ?case
  proof (cases "live ts x \<and> satisfied (ev_flags e) (ts x)")
    case False
    obtain rs' where rs': "wake_pass ts (ev_flags e) xs = (f', ws, rs')" "rs = x # rs'"
      using Cons.prems(4) False by (auto simp: Let_def split: prod.splits)
    have "set_scan e ts prev scan y = set_scan e ts (Some x) (hd_opt xs) y"
      using False Cons.prems(3) nx by (subst set_scan.simps) (auto simp: live_def)
    then show ?thesis
      using Cons.IH[of ts e "us @ [x]" "Some x" "hd_opt xs" ws rs' y] Cons.prems(1) rs'
      by (simp add: last_opt_append last_opt_Cons)
  next
    case True
    let ?m = "matched_by (ev_flags e) (ts x)"
    obtain q' ts1 where ul: "unlink prev x (wait_next (ts x)) (event_ends e) ts = (q', ts1)"
      and wq1: "waitq ts1 q' (us @ xs)" and rel: "relinked (set (us @ x # xs)) ts ts1"
      using unlink_linked[OF Cons.prems(1,2)] by blast
    let ?e2 = "clear_matched (ts x) ?m (set_event_ends q' e)"
    let ?ts2 = "upd_task x (release ?m) ts1"
    have scan: "set_scan e ts prev scan y = set_scan ?e2 ?ts2 prev (hd_opt xs) True"
      using True Cons.prems(3) ul nx by (subst set_scan.simps) (auto simp: live_def)
    have x: "x \<notin> set xs" "x \<notin> set us" using waitq_distinct[OF Cons.prems(1)] by auto
    have e2: "event_ends ?e2 = q'"
      "ev_flags ?e2 = (if wait_flags_clear (ts x) \<noteq> 0 then ev_flags e AND NOT ?m else ev_flags e)"
      by (simp_all add: clear_matched_def)
    have wq2: "waitq ?ts2 (event_ends ?e2) (us @ xs)"
      unfolding e2 using wq1 by (simp add: waitq_upd_task release_def)
    obtain ws' where ws': "wake_pass ts (ev_flags ?e2) xs = (f', ws', rs)" "ws = (x, ?m) # ws'"
      using Cons.prems(4) True e2 by (auto simp: Let_def split: prod.splits)
    have "wake_pass ?ts2 (ev_flags ?e2) xs = (f', ws', rs)"
      unfolding ws'(1)[symmetric]
      using x(1) relinked_block[OF rel] by (intro wake_pass_cong) (auto simp: upd_task_apply)
    from Cons.IH[OF wq2 Cons.prems(2) refl this, of True] obtain e' ts' where
      res: "set_scan ?e2 ?ts2 prev (hd_opt xs) True = Some (e', ts', True)" "ev_flags e' = f'"
      "waitq ts' (event_ends e') (us @ rs)" and ap: "after_pass ws' ?ts2 ts'" by auto
    have "map_of ws' x = None"
      using wake_pass_sets[OF ws'(1)] x(1) by (auto simp: map_of_eq_None_iff)
    have "after_pass ws ts ts'"
      unfolding after_pass_def
    proof
      fix z
      obtain p where p: "ts' z = (case map_of ws' z of None \<Rightarrow> ?ts2 z | Some m \<Rightarrow> release m (?ts2 z))\<lparr>wait_next := p\<rparr>"
        using ap unfolding after_pass_def by blast
      obtain n where n: "ts1 z = (ts z)\<lparr>wait_next := n\<rparr>" using relinked_block[OF rel] by blast
      show "\<exists>p. ts' z = (case map_of ws z of None \<Rightarrow> ts z | Some m \<Rightarrow> release m (ts z))\<lparr>wait_next := p\<rparr>"
        using p n \<open>map_of ws' x = None\<close>
        by (intro exI[of _ p]) (auto simp: ws'(2) upd_task_apply release_def split: option.splits)
    qed
    with scan res ws'(2) show ?thesis by auto
  qed
qed

section \<open>No satisfied waiter is left behind\<close>

lemma satisfied_alt: "satisfied f b =
    (if wait_flags_all b \<noteq> 0 then f AND wait_flags b = wait_flags b else f AND wait_flags b \<noteq> 0)"
  by (simp add: satisfied_def flags_match_def Let_def)

lemma satisfied_mono: "satisfied (f AND g) b \<Longrightarrow> satisfied f b"
proof -
  have all: "f AND w = w" if "(f AND g) AND w = w" for w :: u32
  proof -
    have "f AND ((f AND g) AND w) = (f AND g) AND w" by (rule bit_eqI) (auto simp: bit_simps)
    then show ?thesis by (simp only: that)
  qed
  have any: "f AND w \<noteq> 0" if "(f AND g) AND w \<noteq> 0" for w :: u32
  proof
    assume "f AND w = 0"
    moreover have "(f AND g) AND w = g AND (f AND w)" by (rule bit_eqI) (auto simp: bit_simps)
    ultimately show False using that by simp
  qed
  assume "satisfied (f AND g) b"
  then show "satisfied f b"
    unfolding satisfied_alt using all any by (simp only: split: if_splits) blast+
qed

lemma wake_pass_flags: "wake_pass ts f xs = (f', ws, rs) \<Longrightarrow> \<exists>g. f' = f AND g"
proof (induction xs arbitrary: f ws rs)
  case Nil
  then have "f' = f AND f" by simp
  then show ?case ..
next
  case (Cons x xs)
  show ?case
  proof (cases "live ts x \<and> satisfied f (ts x)")
    case True
    then obtain g ws' where w: "wake_pass ts g xs = (f', ws', rs)"
      "g = (if wait_flags_clear (ts x) \<noteq> 0 then f AND NOT (matched_by f (ts x)) else f)"
      using Cons.prems by (auto simp: Let_def split: prod.splits)
    from Cons.IH[OF w(1)] w(2) show ?thesis by (auto simp: and.assoc split: if_splits)
  next
    case False
    then obtain rs' where "wake_pass ts f xs = (f', ws, rs')"
      using Cons.prems by (auto simp: Let_def split: prod.splits)
    from Cons.IH[OF this] show ?thesis .
  qed
qed

lemma wake_pass_unsatisfied:
  "wake_pass ts f xs = (f', ws, rs) \<Longrightarrow> x \<in> set rs \<Longrightarrow> live ts x \<Longrightarrow> \<not> satisfied f' (ts x)"
proof (induction xs arbitrary: f ws rs)
  case Nil
  then show ?case by simp
next
  case (Cons y ys)
  show ?case
  proof (cases "live ts y \<and> satisfied f (ts y)")
    case True
    then obtain g ws' where "wake_pass ts g ys = (f', ws', rs)"
      using Cons.prems(1) by (auto simp: Let_def split: prod.splits)
    from Cons.IH[OF this] Cons.prems show ?thesis by blast
  next
    case False
    then obtain rs' where w: "wake_pass ts f ys = (f', ws, rs')" "rs = y # rs'"
      using Cons.prems(1) by (auto simp: Let_def split: prod.splits)
    obtain g where "f' = f AND g" using wake_pass_flags[OF w(1)] by blast
    with False Cons.IH[OF w(1)] Cons.prems w(2) show ?thesis by (auto dest: satisfied_mono)
  qed
qed

lemma wake_pass_disjoint:
  "wake_pass ts f xs = (f', ws, rs) \<Longrightarrow> distinct xs \<Longrightarrow>
     distinct (map fst ws) \<and> set (map fst ws) \<inter> set rs = {}"
proof (induction xs arbitrary: f ws rs)
  case Nil
  then show ?case by simp
next
  case (Cons x xs)
  show ?case
  proof (cases "live ts x \<and> satisfied f (ts x)")
    case True
    then obtain g ws' where w: "wake_pass ts g xs = (f', ws', rs)" "ws = (x, matched_by f (ts x)) # ws'"
      using Cons.prems(1) by (auto simp: Let_def split: prod.splits)
    from Cons.IH[OF w(1)] wake_pass_sets[OF w(1)] Cons.prems(2) w(2) show ?thesis by auto
  next
    case False
    then obtain rs' where w: "wake_pass ts f xs = (f', ws, rs')" "rs = x # rs'"
      using Cons.prems(1) by (auto simp: Let_def split: prod.splits)
    from Cons.IH[OF w(1)] wake_pass_sets[OF w(1)] Cons.prems(2) w(2) show ?thesis by auto
  qed
qed

text \<open>Well-formed event flags: the queue is a list, and every live waiter still waits for something.\<close>

definition event_waiters :: "kernel \<Rightarrow> u32 \<Rightarrow> nat list \<Rightarrow> bool" where
  "event_waiters k p xs \<longleftrightarrow> waitq (tasks k) (event_ends (events k p)) xs"

definition event_inv :: "kernel \<Rightarrow> u32 \<Rightarrow> nat list \<Rightarrow> bool" where
  "event_inv k p xs \<longleftrightarrow> event_waiters k p xs \<and>
     (\<forall>x \<in> set xs. live (tasks k) x \<longrightarrow> \<not> satisfied (ev_flags (events k p)) (tasks k x))"

lemma event_set_pass:
  assumes "p \<noteq> 0" and "flags \<noteq> 0" and wq: "event_waiters k p xs"
    and pass: "wake_pass (tasks k) (ev_flags (events k p) OR flags) xs = (f', ws, rs)"
  shows "\<exists>k'. rtos_event_flags_set p flags k = Some (RTOS_OK, k') \<and>
    ev_flags (events k' p) = f' \<and> event_inv k' p rs \<and>
    (\<forall>x. task_state (tasks k' x) =
       (if x \<in> fst ` set ws then RTOS_TASK_READY else task_state (tasks k x))) \<and>
    (\<forall>(x, m) \<in> set ws. \<exists>k2. event_wait_resume p x k' = Some ((RTOS_OK, Some m), k2)) \<and>
    (ws \<noteq> [] \<longrightarrow> pendsv_pending (port k'))"
proof -
  let ?e = "(events k p)\<lparr>ev_flags := ev_flags (events k p) OR flags\<rparr>"
  have "waitq (tasks k) (event_ends ?e) ([] @ xs)" using wq by (simp add: event_waiters_def)
  from set_scan_pass[OF this _ _, of None "hd_opt xs" f' ws rs False] pass obtain e' ts' where
    scan: "set_scan ?e (tasks k) None (hd_opt xs) False = Some (e', ts', ws \<noteq> [])" "ev_flags e' = f'"
    and wq': "waitq ts' (event_ends e') rs" and ap: "after_pass ws (tasks k) ts'" by auto
  have "hd_opt xs = ev_wait_head (events k p)"
    using waitq_ends[OF wq[unfolded event_waiters_def]] by (simp add: event_ends_def)
  with scan assms(1,2) obtain k' where k': "rtos_event_flags_set p flags k = Some (RTOS_OK, k')"
    "events k' = (events k)(p := e')" "tasks k' = ts'" "ws \<noteq> [] \<longrightarrow> pendsv_pending (port k')"
    by (auto simp: rtos_event_flags_set_def set_common_def Let_def port_trigger_pendsv_def)
  have dis: "distinct (map fst ws)" "set (map fst ws) \<inter> set rs = {}"
    using wake_pass_disjoint[OF pass waitq_distinct[OF wq[unfolded event_waiters_def]]] by auto
  have "\<not> satisfied f' (ts' x)" if "x \<in> set rs" "live ts' x" for x
  proof -
    have "map_of ws x = None" using dis(2) that(1) by (auto simp: map_of_eq_None_iff)
    then obtain n where "ts' x = (tasks k x)\<lparr>wait_next := n\<rparr>"
      using ap unfolding after_pass_def by (metis option.simps(4))
    with wake_pass_unsatisfied[OF pass that(1)] that(2) show ?thesis by (simp add: live_def)
  qed
  then have inv: "event_inv k' p rs" using k' wq' scan(2) by (simp add: event_inv_def event_waiters_def)
  have st: "task_state (ts' x) = (if x \<in> fst ` set ws then RTOS_TASK_READY else task_state (tasks k x))" for x
  proof (cases "map_of ws x")
    case None
    moreover from None have "x \<notin> fst ` set ws" by (simp add: map_of_eq_None_iff)
    ultimately show ?thesis
      using ap[unfolded after_pass_def, rule_format, of x] by auto
  next
    case (Some m)
    then have "x \<in> fst ` set ws" by (force dest: map_of_SomeD)
    with Some show ?thesis
      using ap[unfolded after_pass_def, rule_format, of x] by (auto simp: release_def)
  qed
  have "\<exists>k2. event_wait_resume p x k' = Some ((RTOS_OK, Some m), k2)" if "(x, m) \<in> set ws" for x m
    using ap[unfolded after_pass_def, rule_format, of x] map_of_is_SomeI[OF dis(1) that] k'(3)
    by (auto simp: release_def event_wait_resume_def Let_def)
  with k' inv st scan(2) show ?thesis by auto
qed

section \<open>Properties\<close>

text \<open>
  C12. Setting flags makes one pass over the waiters, in priority order: each live waiter that
  is satisfied by the flags at that moment is made ready, its wait will return the flags it
  matched, and it clears them if it asked to; the others stay, in order, and afterwards no live
  waiter is satisfied by the flags that remain. A context switch is requested if a task was
  released, and no other task changes state.
\<close>

theorem event_set_wakes:
  assumes "p \<noteq> 0" and "flags \<noteq> 0" and wq: "event_waiters k p xs"
    and pass: "wake_pass (tasks k) (ev_flags (events k p) OR flags) xs = (f', ws, rs)"
  shows "\<exists>k'. rtos_event_flags_set p flags k = Some (RTOS_OK, k') \<and>
    ev_flags (events k' p) = f' \<and> event_inv k' p rs \<and>
    (\<forall>x. task_state (tasks k' x) =
       (if x \<in> fst ` set ws then RTOS_TASK_READY else task_state (tasks k x))) \<and>
    (\<forall>(x, m) \<in> set ws. \<exists>k2. event_wait_resume p x k' = Some ((RTOS_OK, Some m), k2)) \<and>
    (ws \<noteq> [] \<longrightarrow> pendsv_pending (port k'))"
  by (rule event_set_pass[OF assms])

text \<open>
  Flags at 0x20002000, none set; task 1 waits for bit 0 and will clear it, task 2 behind it
  waits for bit 0 as well.
\<close>

definition sample_event_kernel :: kernel where
  "sample_event_kernel = (zero_kernel sample_image)\<lparr>
     current_task := Some 0,
     tasks := (\<lambda>_. zero_task)(
       0 := zero_task\<lparr>priority := 3, task_state := RTOS_TASK_RUNNING\<rparr>,
       1 := zero_task\<lparr>priority := 2, task_state := RTOS_TASK_BLOCKED, wait_type := RTOS_WAIT_EVENT,
              wait_flags := 1, wait_flags_clear := 1, wait_next := Some 2\<rparr>,
       2 := zero_task\<lparr>priority := 1, task_state := RTOS_TASK_BLOCKED, wait_type := RTOS_WAIT_EVENT,
              wait_flags := 1\<rparr>),
     events := (\<lambda>_. \<lparr>ev_flags = 0, ev_wait_head = Some 1, ev_wait_tail = Some 2\<rparr>)\<rparr>"

lemma sample_event_waiters: "event_waiters sample_event_kernel 0x20002000 [1, 2]"
  by (simp add: event_waiters_def waitq_def event_ends_def sample_event_kernel_def zero_task_def last_opt_def)

lemma sample_event_pass:
  "wake_pass (tasks sample_event_kernel) (ev_flags (events sample_event_kernel 0x20002000) OR 1) [1, 2] =
     (0, [(1, 1)], [2])"
  by (simp add: sample_event_kernel_def zero_task_def live_def satisfied_def matched_by_def flags_match_def)

theorem event_set_wakes_witness:
  "\<exists>k'. rtos_event_flags_set 0x20002000 1 sample_event_kernel = Some (RTOS_OK, k') \<and>
     task_state (tasks k' 1) = RTOS_TASK_READY \<and> event_inv k' 0x20002000 [2]"
  using event_set_wakes[OF _ _ sample_event_waiters sample_event_pass] by auto

text \<open>
  C34. Setting flags does not release every waiter whose condition they satisfy: of two tasks
  that wait for the same flags, the second stays blocked when the first one clears what it
  matched, although the flags that were set satisfied both.
\<close>

theorem event_clear_hides:
  assumes "p \<noteq> 0" and "f \<noteq> 0" and "event_waiters k p [x, y]" and "ev_flags (events k p) = 0"
    and "live (tasks k) x" and "wait_flags (tasks k x) = f" and "wait_flags_all (tasks k x) = 0"
    and "wait_flags_clear (tasks k x) \<noteq> 0"
    and "live (tasks k) y" and "wait_flags (tasks k y) = f" and "wait_flags_all (tasks k y) = 0"
  shows "satisfied f (tasks k y) \<and>
    (\<exists>k'. rtos_event_flags_set p f k = Some (RTOS_OK, k') \<and> ev_flags (events k' p) = 0 \<and>
      task_state (tasks k' x) = RTOS_TASK_READY \<and> task_state (tasks k' y) = RTOS_TASK_BLOCKED)"
proof -
  have sat: "satisfied f (tasks k x)" "satisfied f (tasks k y)" "\<not> satisfied 0 (tasks k y)"
    "matched_by f (tasks k x) = f"
    using assms by (simp_all add: satisfied_def matched_by_def flags_match_def)
  then have pass: "wake_pass (tasks k) (ev_flags (events k p) OR f) [x, y] = (0, [(x, f)], [y])"
    using assms by simp
  have "x \<noteq> y" using waitq_distinct assms(3) unfolding event_waiters_def by fastforce
  with event_set_pass[OF assms(1-3) pass] sat(2) assms(9) show ?thesis by (auto simp: live_def)
qed

theorem event_clear_hides_witness:
  "\<exists>k'. rtos_event_flags_set 0x20002000 1 sample_event_kernel = Some (RTOS_OK, k') \<and>
     task_state (tasks k' 2) = RTOS_TASK_BLOCKED"
  using event_clear_hides[OF _ _ sample_event_waiters, of 1]
  by (auto simp: sample_event_kernel_def zero_task_def live_def)

text \<open>
  The start of a wait, on every branch: a satisfied wait returns the matched flags and
  clears them if asked to, a poll that is not satisfied times out and changes nothing, and any
  other call blocks the caller in priority order. In every case the queue stays well formed and
  no live waiter is satisfied by the flags.
\<close>

lemma event_wait_round:
  assumes "p \<noteq> 0" and "flags \<noteq> 0" and inv: "event_inv k p xs" and cur: "current_task k = Some t"
    and t: "t \<notin> set xs"
  shows "\<exists>r k' ys. event_wait_enter p flags wait_all clr ms k = Some (r, k') \<and> event_inv k' p ys \<and>
    (case flags_match (ev_flags (events k p)) flags wait_all of
       (True, m) \<Rightarrow> r = Some (RTOS_OK, Some m) \<and> ys = xs \<and> tasks k' = tasks k \<and>
         ev_flags (events k' p) =
           (if clr \<noteq> 0 then ev_flags (events k p) AND NOT m else ev_flags (events k p))
     | (False, _) \<Rightarrow> ev_flags (events k' p) = ev_flags (events k p) \<and>
         (if ms = 0 then r = Some (RTOS_ERR_TIMEOUT, None) \<and> ys = xs \<and> tasks k' = tasks k
          else r = None \<and> ys = prio_insert (\<lambda>x. priority (tasks k x)) t xs \<and>
            live (tasks k') t \<and> pendsv_pending (port k')))"
proof -
  obtain ok m where fm: "flags_match (ev_flags (events k p)) flags wait_all = (ok, m)"
    by (cases "flags_match (ev_flags (events k p)) flags wait_all")
  show ?thesis
  proof (cases ok)
    case True
    with assms fm show ?thesis
      by (auto simp: event_wait_enter_def Let_def event_inv_def event_waiters_def event_ends_def
          dest: satisfied_mono intro!: exI[of _ xs])
  next
    case no: False
    show ?thesis
    proof (cases "ms = 0")
      case True
      with no assms fm show ?thesis
        by (auto simp: event_wait_enter_def Let_def event_inv_def event_waiters_def intro!: exI[of _ xs])
    next
      case False
      let ?b = "\<lambda>b. (block_for RTOS_WAIT_EVENT ms b)\<lparr>wait_flags := flags, wait_flags_result := 0,
        wait_flags_all := wait_all, wait_flags_clear := clr\<rparr>"
      let ?ts = "upd_task t ?b (tasks k)"
      let ?ys = "prio_insert (\<lambda>x. priority (tasks k x)) t xs"
      have "waitq ?ts (event_ends (events k p)) xs"
        using inv by (simp add: event_inv_def event_waiters_def waitq_upd_task)
      from event_queue.push_law[OF this t] obtain e' ts' where
        push: "event_push t (events k p) ?ts = Some (e', ts')"
        and w: "waitq ts' (event_ends e') (prio_insert (\<lambda>x. priority (?ts x)) t xs)"
        and rel: "relinked (insert t (set xs)) ?ts ts'" and fl: "ev_flags e' = ev_flags (events k p)" by blast
      have prio: "(\<lambda>x. priority (?ts x)) = (\<lambda>x. priority (tasks k x))" by (auto simp: upd_task_apply)
      obtain k' where k': "event_wait_enter p flags wait_all clr ms k = Some (None, k')"
        "events k' = (events k)(p := e')" "tasks k' = ts'" "pendsv_pending (port k')"
        using no False assms(1,2) cur fm push
        by (auto simp: event_wait_enter_def Let_def port_trigger_pendsv_def)
      have lv: "live ts' x = live ?ts x" for x using relinked_fields(8)[OF rel] .
      have sat: "satisfied f (ts' x) = satisfied f (?ts x)" for f x
        by (simp add: satisfied_alt relinked_fields[OF rel])
      have "\<not> satisfied (ev_flags (events k p)) (?ts t)"
        using fm no by (simp add: satisfied_def)
      moreover have "?ts x = tasks k x" if "x \<in> set xs" for x
        using that t by (intro upd_task_other) auto
      moreover from this have "live ?ts x = live (tasks k) x" if "x \<in> set xs" for x
        using that by (simp only: live_def)
      ultimately have "event_inv k' p ?ys"
        using w inv fl by (auto simp: event_inv_def event_waiters_def k' prio lv sat)
      moreover have "live (tasks k') t" unfolding k'(3) lv by (simp add: live_def)
      ultimately show ?thesis using k' fm no False fl by auto
    qed
  qed
qed

lemma event_wait_round_example:
  "\<exists>k' ys. event_wait_enter 0x20002000 2 0 1 50 sample_event_kernel = Some (None, k') \<and>
     live (tasks k') 0 \<and> event_inv k' 0x20002000 ys"
proof -
  have i: "event_inv sample_event_kernel 0x20002000 [1, 2]" "current_task sample_event_kernel = Some 0"
    "flags_match (ev_flags (events sample_event_kernel 0x20002000)) 2 0 = (False, 0)"
    using sample_event_waiters
    by (simp_all add: event_inv_def sample_event_kernel_def satisfied_def flags_match_def zero_task_def)
  from event_wait_round[OF _ _ i(1,2), of 2 0 1 50] show ?thesis by (auto simp: i(3))
qed

end
