(* ===== verification/Mem_Pool.thy ===== *)
theory Mem_Pool
  imports Wait_Object Object_Registry "HOL-Library.Multiset"
begin

text \<open>
  Fixed-size memory pools (kernel/mempool.c). Free blocks are linked through their first words,
  which live in \<open>ram\<close>, so the free list is a pointer structure inside the memory it manages; a
  null pointer is the address 0.
\<close>

section \<open>The wait queue\<close>

definition pool_ends :: "rtos_mempool \<Rightarrow> wait_ends" where
  "pool_ends mp = (mp_wait_head mp, mp_wait_tail mp)"

definition set_pool_ends :: "wait_ends \<Rightarrow> rtos_mempool \<Rightarrow> rtos_mempool" where
  "set_pool_ends q mp = mp\<lparr>mp_wait_head := fst q, mp_wait_tail := snd q\<rparr>"

definition pool_push :: "nat \<Rightarrow> rtos_mempool \<Rightarrow> task_store \<Rightarrow> (rtos_mempool \<times> task_store) option" where
  "pool_push task mp ts = do {
     (q, ts) \<leftarrow> wait_push task (pool_ends mp) ts;
     Some (set_pool_ends q mp, ts)
   }"

definition pool_remove :: "nat \<Rightarrow> rtos_mempool \<Rightarrow> task_store \<Rightarrow> (rtos_mempool \<times> task_store) option" where
  "pool_remove task mp ts = do {
     (q, ts) \<leftarrow> wait_remove task (pool_ends mp) ts;
     Some (set_pool_ends q mp, ts)
   }"

definition pool_pop :: "rtos_mempool \<Rightarrow> task_store \<Rightarrow> (nat option \<times> rtos_mempool \<times> task_store) option" where
  "pool_pop mp ts = do {
     (task, q, ts) \<leftarrow> wait_pop (pool_ends mp) ts;
     Some (task, set_pool_ends q mp, ts)
   }"

text \<open>What the queue operations leave alone: the storage and the free list.\<close>

definition pool_payload :: "rtos_mempool \<Rightarrow> u32 \<times> u32 \<times> u32 \<times> u32 \<times> u32" where
  "pool_payload mp = (mp_storage mp, mp_free_list mp, mp_block_size mp, mp_block_count mp, mp_free_count mp)"

interpretation pool_queue: embedded_queue pool_ends set_pool_ends pool_push pool_remove pool_payload pool_pop
  by unfold_locales (auto simp: pool_ends_def set_pool_ends_def pool_payload_def pool_push_def pool_pop_def
      pool_remove_def map_option_case split: option.splits bind_splits)

section \<open>Operations\<close>

definition align_word :: "u32 \<Rightarrow> u32" where
  "align_word value = (value + 3) AND NOT 3"

definition pop_free_block :: "rtos_mempool \<Rightarrow> (u32 \<Rightarrow> u32) \<Rightarrow> u32 \<times> rtos_mempool" where
  "pop_free_block mp m =
     (let block = mp_free_list mp in
      (block, if block \<noteq> 0 then mp\<lparr>mp_free_list := m block, mp_free_count := mp_free_count mp - 1\<rparr> else mp))"

definition push_free_block :: "u32 \<Rightarrow> rtos_mempool \<times> (u32 \<Rightarrow> u32) \<Rightarrow> rtos_mempool \<times> (u32 \<Rightarrow> u32)" where
  "push_free_block block s =
     (let (mp, m) = s;
          m = m(block := mp_free_list mp)
      in (mp\<lparr>mp_free_list := block, mp_free_count := mp_free_count mp + 1\<rparr>, m))"

text \<open>The loop of rtos\_mempool\_init, from index \<open>i\<close> on; \<open>n\<close> blocks are left.\<close>

fun init_blocks :: "nat \<Rightarrow> u32 \<Rightarrow> rtos_mempool \<times> (u32 \<Rightarrow> u32) \<Rightarrow> rtos_mempool \<times> (u32 \<Rightarrow> u32)" where
  "init_blocks 0 i s = s"
| "init_blocks (Suc n) i s =
     init_blocks n (i + 1) (push_free_block (mp_storage (fst s) + i * mp_block_size (fst s)) s)"

definition rtos_mempool_init :: "u32 \<Rightarrow> u32 \<Rightarrow> u32 \<Rightarrow> u32 \<Rightarrow> kernel \<Rightarrow> int \<times> kernel" where
  "rtos_mempool_init p storage block_size block_count k =
     (if p = 0 \<or> storage = 0 \<or> block_count = 0 \<or> block_size < 4 then (RTOS_ERR_INVALID, k)
      else
        let mp = \<lparr>mp_storage = storage, mp_free_list = 0, mp_block_size = align_word block_size,
                  mp_block_count = block_count, mp_free_count = 0,
                  mp_wait_head = None, mp_wait_tail = None\<rparr>;
            (mp, m) = init_blocks (unat block_count) 0 (mp, ram k);
            k1 = k\<lparr>pools := (pools k)(p := mp), ram := m\<rparr>
        in (RTOS_OK, snd (rtos_object_register p RTOS_OBJECT_MEMPOOL k1)))"

text \<open>One turn of the allocation loop up to its yield: \<open>Some b\<close> when the call returns \<open>b\<close>.\<close>

definition pool_alloc_enter :: "u32 \<Rightarrow> u32 \<Rightarrow> kernel \<Rightarrow> (u32 option \<times> kernel) option" where
  "pool_alloc_enter p timeout_ms k =
     (let k1 = rtos_enter_critical k;
          (block, mp) = pop_free_block (pools k1 p) (ram k1);
          k2 = k1\<lparr>pools := (pools k1)(p := mp)\<rparr>
      in if block \<noteq> 0 then Some (Some block, rtos_exit_critical k2)
         else if timeout_ms = 0 then Some (Some 0, rtos_exit_critical k2)
         else do {
           task \<leftarrow> current_task k2;
           let ts = upd_task task (\<lambda>b. (block_for RTOS_WAIT_MEMPOOL timeout_ms b)\<lparr>wait_object_result := 0\<rparr>)
                      (tasks k2);
           (mp', ts') \<leftarrow> pool_push task mp ts;
           Some (None, rtos_yield (rtos_exit_critical
             (k2\<lparr>pools := (pools k2)(p := mp'), tasks := ts'\<rparr>)))
         })"

text \<open>The part behind the yield: \<open>Some b\<close> when the call returns \<open>b\<close>, \<open>None\<close> when it tries again.\<close>

definition pool_alloc_resume :: "u32 \<Rightarrow> nat \<Rightarrow> kernel \<Rightarrow> (u32 option \<times> kernel) option" where
  "pool_alloc_resume p task k =
     (let k1 = rtos_enter_critical k in
      if wait_result (tasks k1 task) = RTOS_ERR_TIMEOUT then do {
        (mp, ts) \<leftarrow> pool_remove task (pools k1 p) (tasks k1);
        let ts1 = upd_task task (\<lambda>b. b\<lparr>wait_type := RTOS_WAIT_NONE\<rparr>) ts;
        Some (Some 0, rtos_exit_critical (k1\<lparr>pools := (pools k1)(p := mp), tasks := ts1\<rparr>))
      }
      else
        let block = wait_object_result (tasks k1 task);
            k2 = rtos_exit_critical
              (k1\<lparr>tasks := upd_task task (\<lambda>b. b\<lparr>wait_object_result := 0\<rparr>) (tasks k1)\<rparr>)
        in Some (if block \<noteq> 0 then Some block else None, k2))"

fun pool_alloc_loop :: "u32 \<Rightarrow> u32 \<Rightarrow> suspension list \<Rightarrow> kernel \<Rightarrow> (u32 \<times> kernel) option" where
  "pool_alloc_loop p timeout_ms susps k = do {
     (r, k1) \<leftarrow> pool_alloc_enter p timeout_ms k;
     case (r, susps) of
       (Some block, _) \<Rightarrow> Some (block, k1)
     | (None, []) \<Rightarrow> None
     | (None, suspend # rest) \<Rightarrow> do {
         task \<leftarrow> current_task k1;
         k2 \<leftarrow> suspend k1;
         (r2, k3) \<leftarrow> pool_alloc_resume p task k2;
         case r2 of
           Some block \<Rightarrow> Some (block, k3)
         | None \<Rightarrow> pool_alloc_loop p timeout_ms rest k3
       }
   }"

declare pool_alloc_loop.simps [simp del]

definition rtos_mempool_alloc_timeout ::
  "u32 \<Rightarrow> u32 \<Rightarrow> suspension list \<Rightarrow> kernel \<Rightarrow> (u32 \<times> kernel) option" where
  "rtos_mempool_alloc_timeout p timeout_ms susps k =
     (if p = 0 then Some (0, k) else pool_alloc_loop p timeout_ms susps k)"

definition rtos_mempool_alloc :: "u32 \<Rightarrow> kernel \<Rightarrow> (u32 \<times> kernel) option" where
  "rtos_mempool_alloc p k = rtos_mempool_alloc_timeout p 0 [] k"

definition rtos_mempool_free :: "u32 \<Rightarrow> u32 \<Rightarrow> kernel \<Rightarrow> (int \<times> kernel) option" where
  "rtos_mempool_free p block k =
     (if p = 0 \<or> block = 0 then Some (RTOS_ERR_INVALID, k)
      else let k1 = rtos_enter_critical k in do {
        (woken, mp, ts) \<leftarrow> pool_pop (pools k1 p) (tasks k1);
        case woken of
          Some task \<Rightarrow>
            let ts1 = upd_task task (\<lambda>b. wake_up (b\<lparr>wait_object_result := block\<rparr>)) ts
            in Some (RTOS_OK, rtos_yield (rtos_exit_critical
                 (k1\<lparr>pools := (pools k1)(p := mp), tasks := ts1\<rparr>)))
        | None \<Rightarrow>
            let (mp', m) = push_free_block block (mp, ram k1)
            in Some (RTOS_OK, rtos_exit_critical
                 (k1\<lparr>pools := (pools k1)(p := mp'), tasks := ts, ram := m\<rparr>))
      })"

section \<open>The free list\<close>

text \<open>From the head the blocks \<open>bs\<close> are linked through their first words, and the count is right.\<close>

definition free_chain :: "(u32 \<Rightarrow> u32) \<Rightarrow> rtos_mempool \<Rightarrow> u32 list \<Rightarrow> bool" where
  "free_chain m mp bs \<longleftrightarrow> linked (\<lambda>a. pointer (m a)) (pointer (mp_free_list mp)) bs \<and>
     unat (mp_free_count mp) = length bs"

lemma free_chain_Nil [simp]: "free_chain m mp [] \<longleftrightarrow> mp_free_list mp = 0 \<and> mp_free_count mp = 0"
  by (auto simp: free_chain_def unat_eq_0)

lemma free_chain_nonzero: "free_chain m mp bs \<Longrightarrow> 0 \<notin> set bs"
proof -
  have gen: "segment (\<lambda>a. pointer (m a)) p bs None \<Longrightarrow> p \<noteq> Some 0 \<Longrightarrow> 0 \<notin> set bs" for p
    by (induction bs arbitrary: p) auto
  assume "free_chain m mp bs"
  with gen[of "pointer (mp_free_list mp)"] show "0 \<notin> set bs" by (auto simp: free_chain_def)
qed

lemma free_chain_distinct: "free_chain m mp bs \<Longrightarrow> distinct bs"
  by (auto simp: free_chain_def dest: linked_distinct)

lemma free_chain_cong:
  assumes "\<And>a. a \<in> set bs \<Longrightarrow> m a = m' a" and "mp_free_list mp = mp_free_list mp'"
    and "mp_free_count mp = mp_free_count mp'"
  shows "free_chain m mp bs = free_chain m' mp' bs"
proof -
  have "segment (\<lambda>a. pointer (m a)) (pointer (mp_free_list mp)) bs None =
      segment (\<lambda>a. pointer (m' a)) (pointer (mp_free_list mp)) bs None"
    by (rule segment_cong) (simp add: assms(1))
  then show ?thesis by (simp add: free_chain_def assms(2,3))
qed

lemma pop_free_block_spec:
  assumes "free_chain m mp (b # bs)"
  shows "pop_free_block mp m = (b, mp\<lparr>mp_free_list := m b, mp_free_count := mp_free_count mp - 1\<rparr>) \<and>
    b \<noteq> 0 \<and> free_chain m (mp\<lparr>mp_free_list := m b, mp_free_count := mp_free_count mp - 1\<rparr>) bs"
proof -
  have b: "mp_free_list mp = b" "b \<noteq> 0" "linked (\<lambda>a. pointer (m a)) (pointer (m b)) bs"
    "unat (mp_free_count mp) = Suc (length bs)"
    using assms by (auto simp: free_chain_def)
  then have "mp_free_count mp \<noteq> 0" by auto
  then have "unat (mp_free_count mp - 1) = length bs" using b(4) by (simp add: unat_pred_u32)
  with b show ?thesis by (simp add: pop_free_block_def Let_def free_chain_def)
qed

lemma push_free_block_spec:
  assumes "free_chain m mp bs" and "b \<noteq> 0" and "b \<notin> set bs" and "length bs < 2 ^ 32 - 1"
  shows "free_chain (snd (push_free_block b (mp, m))) (fst (push_free_block b (mp, m))) (b # bs)"
proof -
  have "unat (mp_free_count mp + 1) = Suc (length bs)"
    using assms by (simp add: free_chain_def unat_Suc_u32)
  moreover have "(\<lambda>a. pointer ((m(b := mp_free_list mp)) a)) = (\<lambda>a. pointer (m a))(b := pointer (mp_free_list mp))"
    by auto
  ultimately show ?thesis using assms by (simp add: push_free_block_def Let_def free_chain_def)
qed

section \<open>Blocks and the invariant\<close>

text \<open>The addresses of the blocks of a pool, by index.\<close>

definition pool_blocks :: "rtos_mempool \<Rightarrow> u32 list" where
  "pool_blocks mp = map (\<lambda>i. mp_storage mp + of_nat i * mp_block_size mp) [0..<unat (mp_block_count mp)]"

definition pool_waiters :: "kernel \<Rightarrow> u32 \<Rightarrow> nat list \<Rightarrow> bool" where
  "pool_waiters k p xs \<longleftrightarrow> waitq (tasks k) (pool_ends (pools k p)) xs"

text \<open>
  The free blocks \<open>fs\<close> are distinct blocks of the pool, linked and counted, and nobody live waits
  while there is one.
\<close>

definition pool_inv :: "kernel \<Rightarrow> u32 \<Rightarrow> nat list \<Rightarrow> u32 list \<Rightarrow> bool" where
  "pool_inv k p xs fs \<longleftrightarrow> pool_waiters k p xs \<and> free_chain (ram k) (pools k p) fs \<and>
     set fs \<subseteq> set (pool_blocks (pools k p)) \<and> distinct (pool_blocks (pools k p)) \<and>
     0 \<notin> set (pool_blocks (pools k p)) \<and> ((\<exists>x \<in> set xs. live (tasks k) x) \<longrightarrow> fs = [])"

lemma pool_payload_fields:
  assumes "pool_payload mp' = pool_payload mp"
  shows "mp_storage mp' = mp_storage mp" "mp_free_list mp' = mp_free_list mp"
    "mp_block_size mp' = mp_block_size mp" "mp_block_count mp' = mp_block_count mp"
    "mp_free_count mp' = mp_free_count mp" "pool_blocks mp' = pool_blocks mp"
    "free_chain m mp' bs = free_chain m mp bs"
  using assms by (simp_all add: pool_payload_def pool_blocks_def free_chain_def)

lemma length_free:
  assumes "pool_inv k p xs fs" and "b \<in> set (pool_blocks (pools k p))" and "b \<notin> set fs"
  shows "length fs < 2 ^ 32 - 1"
proof -
  have "distinct (b # fs)" using assms free_chain_distinct by (auto simp: pool_inv_def)
  moreover have "set (b # fs) \<subseteq> set (pool_blocks (pools k p))" using assms by (auto simp: pool_inv_def)
  ultimately have "length (b # fs) \<le> length (pool_blocks (pools k p))"
    by (metis card_mono distinct_card finite_set le_trans card_length)
  then show ?thesis
    using u32_less_max[of "mp_block_count (pools k p)"] by (simp add: pool_blocks_def)
qed

section \<open>Initialisation\<close>

lemma init_blocks_chain:
  assumes "inj_on (\<lambda>i. a + of_nat i * sz) {..<j + n}" and "\<forall>i < j + n. a + of_nat i * sz \<noteq> 0"
    and "j + n < 2 ^ 32" and "mp_storage mp = a" "mp_block_size mp = sz"
    and "free_chain m mp (rev (map (\<lambda>i. a + of_nat i * sz) [0..<j]))"
    and "init_blocks n (of_nat j) (mp, m) = (mp', m')"
  shows "free_chain m' mp' (rev (map (\<lambda>i. a + of_nat i * sz) [0..<j + n])) \<and>
    mp_storage mp' = a \<and> mp_block_size mp' = sz \<and> mp_block_count mp' = mp_block_count mp \<and>
    pool_ends mp' = pool_ends mp"
  using assms
proof (induction n arbitrary: j mp m)
  case 0
  then show ?case by simp
next
  case (Suc n)
  let ?b = "a + of_nat j * sz"
  let ?s = "push_free_block ?b (mp, m)"
  have b: "?b \<noteq> 0" "?b \<notin> set (rev (map (\<lambda>i. a + of_nat i * sz) [0..<j]))"
    using Suc.prems(1,2) by (force simp: inj_on_def)+
  have "free_chain (snd ?s) (fst ?s) (?b # rev (map (\<lambda>i. a + of_nat i * sz) [0..<j]))"
    using push_free_block_spec[OF Suc.prems(6) b] Suc.prems(3) by simp
  then have chain: "free_chain (snd ?s) (fst ?s) (rev (map (\<lambda>i. a + of_nat i * sz) [0..<Suc j]))" by simp
  have st: "mp_storage (fst ?s) = a" "mp_block_size (fst ?s) = sz"
    "mp_block_count (fst ?s) = mp_block_count mp" "pool_ends (fst ?s) = pool_ends mp"
    using Suc.prems(4,5) by (simp_all add: push_free_block_def Let_def pool_ends_def)
  have run: "init_blocks n (of_nat (Suc j)) (fst ?s, snd ?s) = (mp', m')"
    using Suc.prems(4,5,7) by (simp add: add.commute)
  have eq: "Suc j + n = j + Suc n" by simp
  from Suc.IH[of "Suc j", OF _ _ _ st(1,2) chain run, unfolded eq] Suc.prems(1-3) show ?case
    unfolding st by blast
qed

text \<open>Blocks that do not run past the end of the address space are distinct.\<close>

lemma block_addresses:
  fixes a sz :: u32
  assumes "unat a + n * unat sz \<le> 2 ^ 32" and "0 < unat sz" and "i < n"
  shows "unat (a + of_nat i * sz) = unat a + i * unat sz"
proof -
  have "i * unat sz + unat sz \<le> n * unat sz" using assms(3) by (metis add.commute mult_Suc mult_le_mono1 Suc_leI)
  then have lt: "unat a + i * unat sz < 2 ^ 32" using assms(1,2) by linarith
  moreover have "i \<le> i * unat sz" using assms(2) by simp
  ultimately have "i < 2 ^ 32" by linarith
  with lt show ?thesis by (simp add: unat_word_ariths unat_of_nat)
qed

lemma block_addresses_inj:
  fixes a sz :: u32
  assumes "unat a + n * unat sz \<le> 2 ^ 32" and "0 < unat sz" and "a \<noteq> 0"
  shows "inj_on (\<lambda>i. a + of_nat i * sz) {..<n}" "\<forall>i < n. a + of_nat i * sz \<noteq> 0"
proof -
  show "inj_on (\<lambda>i. a + of_nat i * sz) {..<n}"
  proof (rule inj_onI)
    fix i j assume "i \<in> {..<n}" "j \<in> {..<n}" "a + of_nat i * sz = a + of_nat j * sz"
    then have "unat a + i * unat sz = unat a + j * unat sz"
      using block_addresses[OF assms(1,2)] by (metis lessThan_iff)
    with assms(2) show "i = j" by simp
  qed
  show "\<forall>i < n. a + of_nat i * sz \<noteq> 0"
    using block_addresses[OF assms(1,2)] assms(3) by (metis add_is_0 unat_0 unat_eq_0)
qed

text \<open>Rounding up to words, while there is room for it.\<close>

lemma unat_align_word:
  assumes "unat v \<le> 2 ^ 32 - 4"
  shows "unat (align_word v) = (unat v + 3) div 4 * 4"
proof -
  have "unat (v + 3) = unat v + 3" using assms by (simp add: unat_word_ariths)
  moreover have "x AND NOT 3 = push_bit 2 (drop_bit 2 x)" for x :: u32
  proof -
    have three: "(3 :: u32) = mask 2" by (simp add: mask_eq_exp_minus_1)
    show ?thesis
      unfolding three
    proof (rule bit_eqI)
      fix n
      show "bit (x AND NOT (mask 2)) n = bit (push_bit 2 (drop_bit 2 x)) n"
      proof (cases "n < 2")
        case False
        then obtain m where "n = 2 + m" by (metis le_Suc_ex not_less)
        then show ?thesis
          by (auto simp only: bit_and_iff bit_not_iff bit_mask_iff bit_push_bit_iff bit_drop_bit_eq comp_def
              add_diff_cancel_left' dest: bit_imp_le_length)
      qed (simp add: bit_simps)
    qed
  qed
  moreover have "unat (push_bit 2 (drop_bit 2 x)) = unat x div 4 * 4" for x :: u32
    using u32_less_max[of x]
    by (simp add: push_bit_eq_mult drop_bit_eq_div unat_word_ariths unat_div_distrib)
  ultimately show ?thesis by (simp add: align_word_def)
qed

section \<open>What each operation does\<close>

lemma pool_inv_port: "pool_inv (k\<lparr>port := x\<rparr>) p xs fs = pool_inv k p xs fs"
  by (simp add: pool_inv_def pool_waiters_def)

lemma pop_ends:
  "pool_ends (mp\<lparr>mp_free_list := a, mp_free_count := c\<rparr>) = pool_ends mp"
  "pool_blocks (mp\<lparr>mp_free_list := a, mp_free_count := c\<rparr>) = pool_blocks mp"
  by (simp_all add: pool_ends_def pool_blocks_def)

lemma pool_alloc_takes:
  assumes inv: "pool_inv k p xs (b # bs)"
  shows "\<exists>k'. pool_alloc_enter p ms k = Some (Some b, k') \<and> b \<noteq> 0 \<and> pool_inv k' p xs bs \<and>
    ram k' = ram k \<and> tasks k' = tasks k \<and> pool_blocks (pools k' p) = pool_blocks (pools k p)"
proof -
  from inv have ch: "free_chain (ram k) (pools k p) (b # bs)" by (simp add: pool_inv_def)
  note pop = pop_free_block_spec[OF ch]
  show ?thesis
    using inv pop by (auto simp: pool_alloc_enter_def Let_def pool_inv_def pool_waiters_def pop_ends)
qed

lemma pool_alloc_empty:
  assumes inv: "pool_inv k p xs []"
  shows "pool_alloc_enter p ms k =
    (let k1 = rtos_enter_critical k in
     if ms = 0 then Some (Some 0, rtos_exit_critical k1)
     else do {
       task \<leftarrow> current_task k1;
       let ts = upd_task task (\<lambda>b. (block_for RTOS_WAIT_MEMPOOL ms b)\<lparr>wait_object_result := 0\<rparr>) (tasks k1);
       (mp', ts') \<leftarrow> pool_push task (pools k1 p) ts;
       Some (None, rtos_yield (rtos_exit_critical (k1\<lparr>pools := (pools k1)(p := mp'), tasks := ts'\<rparr>)))
     })"
proof -
  have "mp_free_list (pools k p) = 0" using inv by (simp add: pool_inv_def)
  then have "pop_free_block (pools k p) (ram k) = (0, pools k p)" by (simp add: pop_free_block_def)
  then show ?thesis by (simp add: pool_alloc_enter_def Let_def)
qed

lemma pool_alloc_blocks:
  assumes inv: "pool_inv k p xs []" and ms: "ms \<noteq> 0" and cur: "current_task k = Some t" and t: "t \<notin> set xs"
  shows "\<exists>k'. pool_alloc_enter p ms k = Some (None, k') \<and>
    pool_inv k' p (prio_insert (\<lambda>x. priority (tasks k x)) t xs) [] \<and> live (tasks k') t \<and>
    current_task k' = Some t \<and> pendsv_pending (port k')"
proof -
  let ?ts = "upd_task t (\<lambda>b. (block_for RTOS_WAIT_MEMPOOL ms b)\<lparr>wait_object_result := 0\<rparr>) (tasks k)"
  have "waitq ?ts (pool_ends (pools k p)) xs"
    using inv by (simp add: pool_inv_def pool_waiters_def waitq_upd_task)
  from pool_queue.push_law[OF this t] obtain mp' ts' where
    push: "pool_push t (pools k p) ?ts = Some (mp', ts')"
    and w: "waitq ts' (pool_ends mp') (prio_insert (\<lambda>x. priority (?ts x)) t xs)"
    and rel: "relinked (insert t (set xs)) ?ts ts'" and pl: "pool_payload mp' = pool_payload (pools k p)" by blast
  have "(\<lambda>x. priority (?ts x)) = (\<lambda>x. priority (tasks k x))" by (auto simp: upd_task_apply)
  moreover have "live ts' t" using relinked_fields(8)[OF rel] by (simp add: live_def)
  ultimately show ?thesis
    using inv w push cur ms pool_payload_fields[OF pl]
    by (auto simp: pool_alloc_empty[OF inv] Let_def pool_inv_def pool_waiters_def port_trigger_pendsv_def)
qed

lemma pool_free_wakes:
  assumes inv: "pool_inv k p xs fs" and "p \<noteq> 0" "b \<noteq> 0" and fl: "first_live (tasks k) xs = Some t"
  shows "\<exists>k'. rtos_mempool_free p b k = Some (RTOS_OK, k') \<and> pool_inv k' p (after_live (tasks k) xs) fs \<and>
    fs = [] \<and> woke_first k xs k' \<and> wait_result (tasks k' t) = RTOS_OK \<and> wait_object_result (tasks k' t) = b \<and>
    pool_blocks (pools k' p) = pool_blocks (pools k p)"
proof -
  from inv have wq: "waitq (tasks k) (pool_ends (pools k p)) xs" by (simp add: pool_inv_def pool_waiters_def)
  from pool_queue.pop_law[OF wq] fl obtain mp where
    pop: "pool_pop (pools k p) (tasks k) = Some (Some t, mp, pop_store (tasks k) xs)"
    "waitq (pop_store (tasks k) xs) (pool_ends mp) (after_live (tasks k) xs)"
    and pl: "pool_payload mp = pool_payload (pools k p)" by auto
  have fs: "fs = []" using inv first_live_SomeD[OF fl] by (auto simp: pool_inv_def)
  have "set (after_live (tasks k) xs) \<subseteq> set xs" by (rule set_after_live)
  show ?thesis
    using assms(2,3) pop fs fl inv pool_payload_fields[OF pl]
    by (auto simp: rtos_mempool_free_def Let_def pool_inv_def pool_waiters_def waitq_upd_task woke_first_def
        upd_task_apply wake_up_def port_trigger_pendsv_def)
qed

lemma pool_free_returns:
  assumes inv: "pool_inv k p xs fs" and "p \<noteq> 0" and b: "b \<in> set (pool_blocks (pools k p))" "b \<notin> set fs"
    and fl: "first_live (tasks k) xs = None"
  shows "\<exists>k'. rtos_mempool_free p b k = Some (RTOS_OK, k') \<and> pool_inv k' p [] (b # fs) \<and>
    woke_first k xs k' \<and> pool_blocks (pools k' p) = pool_blocks (pools k p)"
proof -
  from inv have wq: "waitq (tasks k) (pool_ends (pools k p)) xs" by (simp add: pool_inv_def pool_waiters_def)
  from pool_queue.pop_law[OF wq] fl obtain mp where
    pop: "pool_pop (pools k p) (tasks k) = Some (None, mp, pop_store (tasks k) xs)"
    "waitq (pop_store (tasks k) xs) (pool_ends mp) []" and pl: "pool_payload mp = pool_payload (pools k p)"
    by (auto simp: after_live_Nil)
  have b0: "b \<noteq> 0" using inv b(1) by (auto simp: pool_inv_def)
  have "free_chain (ram k) mp fs" using inv pool_payload_fields[OF pl] by (simp add: pool_inv_def)
  from push_free_block_spec[OF this b0 b(2) length_free[OF inv b]]
  have ch: "free_chain (snd (push_free_block b (mp, ram k))) (fst (push_free_block b (mp, ram k))) (b # fs)" .
  have pe: "pool_ends (fst (push_free_block b (mp, ram k))) = pool_ends mp"
    "pool_blocks (fst (push_free_block b (mp, ram k))) = pool_blocks mp"
    by (simp_all add: push_free_block_def pop_ends Let_def)
  obtain mp' m' where pf: "push_free_block b (mp, ram k) = (mp', m')" by (cases "push_free_block b (mp, ram k)")
  show ?thesis
    using assms(2) b0 pop ch pe fl inv b(1) pool_payload_fields[OF pl]
    by (auto simp: rtos_mempool_free_def Let_def pf pool_inv_def pool_waiters_def woke_first_def)
qed

section \<open>Properties\<close>

text \<open>
  A client that polls: it allocates, gives a block it holds back, and writes to the first word
  of a block it holds. Held blocks are named by their place in the list.
\<close>

datatype pool_call = Alloc | Release nat | Store nat u32

fun pool_step :: "u32 \<Rightarrow> pool_call \<Rightarrow> u32 list \<Rightarrow> kernel \<Rightarrow> (u32 list \<times> kernel) option" where
  "pool_step p Alloc held k = do {
     (b, k') \<leftarrow> rtos_mempool_alloc p k;
     Some (if b \<noteq> 0 then b # held else held, k')
   }"
| "pool_step p (Release i) held k =
     (if i < length held then do {
        (r, k') \<leftarrow> rtos_mempool_free p (held ! i) k;
        Some (take i held @ drop (Suc i) held, k')
      } else Some (held, k))"
| "pool_step p (Store i v) held k =
     Some (held, if i < length held then k\<lparr>ram := (ram k)(held ! i := v)\<rparr> else k)"

fun pool_run :: "u32 \<Rightarrow> pool_call list \<Rightarrow> u32 list \<Rightarrow> kernel \<Rightarrow> (u32 list \<times> kernel) option" where
  "pool_run p [] held k = Some (held, k)"
| "pool_run p (c # cs) held k = do { (held', k') \<leftarrow> pool_step p c held k; pool_run p cs held' k' }"

lemma mset_drop_nth: "i < length xs \<Longrightarrow> mset xs = add_mset (xs ! i) (mset (take i xs @ drop (Suc i) xs))"
  by (metis id_take_nth_drop mset.simps(2) mset_append union_mset_add_mset_right)

lemma held_not_free:
  assumes "mset fs + mset held = mset bl" and "distinct bl" and "b \<in> set held"
  shows "b \<notin> set fs" "b \<in> set bl"
proof -
  have "mset (fs @ held) = mset bl" using assms(1) by simp
  then have "distinct (fs @ held)" "set (fs @ held) = set bl"
    using assms(2) by (metis mset_eq_imp_distinct_iff, metis mset_eq_setD)
  with assms(3) show "b \<notin> set fs" "b \<in> set bl" by auto
qed

lemma pool_store_ok:
  assumes "pool_inv k p xs fs" and "a \<notin> set fs"
  shows "pool_inv (k\<lparr>ram := (ram k)(a := v)\<rparr>) p xs fs"
proof -
  have "free_chain ((ram k)(a := v)) (pools k p) fs = free_chain (ram k) (pools k p) fs"
    using assms(2) by (intro free_chain_cong) auto
  with assms(1) show ?thesis by (simp add: pool_inv_def pool_waiters_def)
qed

text \<open>One step: \<open>accounted\<close> says that the free and the held blocks together are the pool's.\<close>

definition accounted :: "u32 \<Rightarrow> u32 list \<Rightarrow> kernel \<Rightarrow> u32 list \<Rightarrow> u32 list \<Rightarrow> bool" where
  "accounted p bl k fs held \<longleftrightarrow> pool_inv k p [] fs \<and> pool_blocks (pools k p) = bl \<and>
     mset fs + mset held = mset bl"

lemma accounted_alloc:
  assumes "p \<noteq> 0" and "accounted p bl k fs held"
  shows "\<exists>held' k' fs'. pool_step p Alloc held k = Some (held', k') \<and> accounted p bl k' fs' held'"
proof (cases fs)
  case Nil
  have inv: "pool_inv k p [] []" using assms(2) by (simp add: accounted_def Nil)
  have "rtos_mempool_alloc p k = Some (0, rtos_exit_critical (rtos_enter_critical k))"
    using assms(1) pool_alloc_empty[OF inv]
    by (simp add: rtos_mempool_alloc_def rtos_mempool_alloc_timeout_def pool_alloc_loop.simps Let_def)
  with assms(2) show ?thesis by (auto simp: accounted_def pool_inv_port)
next
  case (Cons b bs)
  have "pool_inv k p [] (b # bs)" using assms(2) by (simp add: accounted_def Cons)
  from pool_alloc_takes[OF this, of 0] obtain k' where
    k': "rtos_mempool_alloc p k = Some (b, k')" "b \<noteq> 0" "pool_inv k' p [] bs"
    "pool_blocks (pools k' p) = pool_blocks (pools k p)"
    using assms(1) by (auto simp: rtos_mempool_alloc_def rtos_mempool_alloc_timeout_def pool_alloc_loop.simps)
  with assms(2) show ?thesis by (auto simp: accounted_def Cons)
qed

lemma accounted_release:
  assumes "p \<noteq> 0" and "accounted p bl k fs held" and "i < length held"
  shows "\<exists>k'. rtos_mempool_free p (held ! i) k = Some (RTOS_OK, k') \<and>
    accounted p bl k' (held ! i # fs) (take i held @ drop (Suc i) held)"
proof -
  note a = assms(2)[unfolded accounted_def]
  have inv: "pool_inv k p [] fs" and eq: "mset fs + mset held = mset (pool_blocks (pools k p))" using a by simp_all
  have dis: "distinct (pool_blocks (pools k p))" using inv by (simp add: pool_inv_def)
  have b: "held ! i \<notin> set fs" "held ! i \<in> set (pool_blocks (pools k p))"
    using held_not_free[OF eq dis, of "held ! i"] assms(3) by simp_all
  from pool_free_returns[OF inv assms(1) b(2,1)] show ?thesis
    using a mset_drop_nth[OF assms(3)] by (auto simp: accounted_def)
qed

lemma accounted_step:
  assumes "p \<noteq> 0" and "accounted p bl k fs held"
  shows "\<exists>held' k' fs'. pool_step p c held k = Some (held', k') \<and> accounted p bl k' fs' held'"
proof (cases c)
  case Alloc
  then show ?thesis using accounted_alloc[OF assms] by simp
next
  case (Release i)
  then show ?thesis using accounted_release[OF assms, of i] assms(2) by (cases "i < length held") auto
next
  case (Store i v)
  note a = assms(2)[unfolded accounted_def]
  have "pool_inv k p [] fs" and "mset fs + mset held = mset (pool_blocks (pools k p))"
    and "distinct (pool_blocks (pools k p))" using a by (auto simp: pool_inv_def)
  with Store a show ?thesis
    using held_not_free(1)[of fs held "pool_blocks (pools k p)" "held ! i"] pool_store_ok[of k p "[]" fs "held ! i" v]
    by (auto simp: accounted_def)
qed

lemma accounted_run:
  "p \<noteq> 0 \<Longrightarrow> accounted p bl k fs held \<Longrightarrow>
     \<exists>held' k' fs'. pool_run p cs held k = Some (held', k') \<and> accounted p bl k' fs' held'"
proof (induction cs arbitrary: k fs held)
  case Nil
  then show ?case by auto
next
  case (Cons c cs)
  from accounted_step[OF Cons.prems, of c] Cons.IH[OF Cons.prems(1)] show ?case by fastforce
qed

text \<open>
  C13. A pool neither loses nor duplicates blocks: along every run of allocations, releases and
  writes to held blocks the calls return, and the free blocks and the held blocks together are
  exactly the blocks of the pool, so no block is ever handed out twice.
\<close>

theorem pool_blocks_conserved:
  assumes "p \<noteq> 0" and "pool_inv k p [] fs" and "mset fs + mset held = mset (pool_blocks (pools k p))"
  shows "\<exists>held' k' fs'. pool_run p cs held k = Some (held', k') \<and> pool_inv k' p [] fs' \<and>
    mset fs' + mset held' = mset (pool_blocks (pools k p)) \<and> distinct held'"
proof -
  let ?bl = "pool_blocks (pools k p)"
  have "accounted p ?bl k fs held" using assms(2,3) by (simp add: accounted_def)
  from accounted_run[OF assms(1) this] obtain held' k' fs' where
    r: "pool_run p cs held k = Some (held', k')" "accounted p ?bl k' fs' held'" by blast
  then have "mset (fs' @ held') = mset ?bl" by (simp add: accounted_def)
  moreover have "distinct ?bl" using assms(2) by (simp add: pool_inv_def)
  ultimately have "distinct (fs' @ held')" by (metis mset_eq_imp_distinct_iff)
  with r show ?thesis by (auto simp: accounted_def)
qed

text \<open>A pool at 0x20003000 with two blocks of eight bytes at 0x20003100.\<close>

definition sample_pool_kernel :: kernel where
  "sample_pool_kernel = (zero_kernel sample_image)\<lparr>
     current_task := Some 0,
     ram := (\<lambda>_. 0)(0x20003108 := 0x20003100),
     pools := (\<lambda>_. \<lparr>mp_storage = 0x20003100, mp_free_list = 0x20003108, mp_block_size = 8,
       mp_block_count = 2, mp_free_count = 2, mp_wait_head = None, mp_wait_tail = None\<rparr>)\<rparr>"

lemma sample_pool_inv:
  "pool_inv sample_pool_kernel 0x20003000 [] [0x20003108, 0x20003100]"
  "pool_blocks (pools sample_pool_kernel a) = [0x20003100, 0x20003108]"
  by (auto simp: pool_inv_def pool_waiters_def sample_pool_kernel_def pool_ends_def free_chain_def
      pool_blocks_def upt_rec)

theorem pool_blocks_conserved_witness:
  "\<exists>held' k' fs'. pool_run 0x20003000 [Alloc, Store 0 99, Alloc, Release 1] [] sample_pool_kernel = Some (held', k') \<and>
     mset fs' + mset held' = {#0x20003100, 0x20003108#}"
  using pool_blocks_conserved[OF _ sample_pool_inv(1), of "[]" "[Alloc, Store 0 99, Alloc, Release 1]"]
  by (fastforce simp: sample_pool_inv(2) simp del: pool_run.simps)

text \<open>
  C30. Initialisation. For a storage that fits into the address space, every block of the pool
  becomes free, linked from the last to the first; the blocks are distinct, start at the storage
  address, lie one block size apart, and the block size is the requested one rounded up to whole
  words.
\<close>

theorem pool_init_correct:
  assumes "p \<noteq> 0" and "storage \<noteq> 0" and "n_blocks \<noteq> 0" and "4 \<le> n_bytes" and "unat n_bytes \<le> 2 ^ 32 - 4"
    and "unat storage + unat n_blocks * ((unat n_bytes + 3) div 4 * 4) \<le> 2 ^ 32"
  shows "\<exists>k'. rtos_mempool_init p storage n_bytes n_blocks k = (RTOS_OK, k') \<and>
    pool_inv k' p [] (rev (pool_blocks (pools k' p))) \<and>
    map unat (pool_blocks (pools k' p)) =
      map (\<lambda>i. unat storage + i * ((unat n_bytes + 3) div 4 * 4)) [0..<unat n_blocks]"
proof -
  let ?sz = "align_word n_bytes"
  let ?f = "\<lambda>i. storage + of_nat i * ?sz"
  have sz: "unat ?sz = (unat n_bytes + 3) div 4 * 4" using assms(5) by (rule unat_align_word)
  have pos: "0 < unat ?sz" using assms(4) sz by (simp add: word_le_nat_alt)
  have fit: "unat storage + unat n_blocks * unat ?sz \<le> 2 ^ 32" using assms(6) sz by simp
  note inj = block_addresses_inj[OF fit pos assms(2)]
  let ?mp = "\<lparr>mp_storage = storage, mp_free_list = 0, mp_block_size = ?sz, mp_block_count = n_blocks,
     mp_free_count = 0, mp_wait_head = None, mp_wait_tail = None\<rparr>"
  obtain mp m where run: "init_blocks (unat n_blocks) 0 (?mp, ram k) = (mp, m)"
    by (cases "init_blocks (unat n_blocks) 0 (?mp, ram k)")
  have ch: "free_chain m mp (rev (map ?f [0..<unat n_blocks]))"
    and mp: "mp_storage mp = storage" "mp_block_size mp = ?sz" "mp_block_count mp = n_blocks"
      "pool_ends mp = (None, None)"
    using init_blocks_chain[of storage ?sz 0 "unat n_blocks" ?mp "ram k" mp m] inj run u32_less_max[of n_blocks]
    by (simp_all add: pool_ends_def)
  have bl: "pool_blocks mp = map ?f [0..<unat n_blocks]" by (simp add: pool_blocks_def mp)
  let ?k' = "snd (rtos_object_register p RTOS_OBJECT_MEMPOOL (k\<lparr>pools := (pools k)(p := mp), ram := m\<rparr>))"
  have "rtos_mempool_init p storage n_bytes n_blocks k = (RTOS_OK, ?k')"
    using assms(1-4) run by (simp add: rtos_mempool_init_def Let_def not_less)
  moreover have "pool_inv ?k' p [] (rev (pool_blocks (pools ?k' p)))"
    using ch inj mp by (auto simp: pool_inv_def pool_waiters_def bl distinct_map atLeast0LessThan)
  moreover have "map unat (pool_blocks (pools ?k' p)) =
      map (\<lambda>i. unat storage + i * ((unat n_bytes + 3) div 4 * 4)) [0..<unat n_blocks]"
    using block_addresses[OF fit pos] by (simp add: bl sz)
  ultimately show ?thesis by blast
qed

theorem pool_init_correct_witness:
  "\<exists>k'. rtos_mempool_init 0x20003000 0x20003100 6 2 (zero_kernel sample_image) = (RTOS_OK, k') \<and>
     map unat (pool_blocks (pools k' 0x20003000)) = [0x20003100, 0x20003108]"
proof -
  have "(0x20003000 :: u32) \<noteq> 0" "(0x20003100 :: u32) \<noteq> 0" "(2 :: u32) \<noteq> 0" "4 \<le> (6 :: u32)"
    "unat (6 :: u32) \<le> 2 ^ 32 - 4"
    "unat (0x20003100 :: u32) + unat (2 :: u32) * ((unat (6 :: u32) + 3) div 4 * 4) \<le> 2 ^ 32" by simp_all
  from pool_init_correct[OF this, of "zero_kernel sample_image"] show ?thesis by (auto simp: upt_rec)
qed

text \<open>
  C29. Freeing. If a live task waits, the block goes to the first one in the queue: it becomes
  ready and its allocation will return that very block; otherwise the block becomes the head of
  the free list. The pool stays well formed.
\<close>

theorem pool_free_correct:
  assumes inv: "pool_inv k p xs fs" and "p \<noteq> 0" and "b \<in> set (pool_blocks (pools k p))" and "b \<notin> set fs"
  shows "\<exists>k' ys fs'. rtos_mempool_free p b k = Some (RTOS_OK, k') \<and> pool_inv k' p ys fs' \<and>
    woke_first k xs k' \<and>
    (case first_live (tasks k) xs of
       Some t \<Rightarrow> ys = after_live (tasks k) xs \<and> fs' = fs \<and>
         (\<exists>k2. pool_alloc_resume p t k' = Some (Some b, k2))
     | None \<Rightarrow> ys = [] \<and> fs' = b # fs)"
proof (cases "first_live (tasks k) xs")
  case None
  with pool_free_returns[OF inv assms(2-4) None] show ?thesis by auto
next
  case (Some t)
  have "b \<noteq> 0" using inv assms(3) by (auto simp: pool_inv_def)
  with pool_free_wakes[OF inv assms(2) this Some] Some show ?thesis
    by (auto simp: pool_alloc_resume_def Let_def)
qed

theorem pool_free_correct_witness:
  "\<exists>k'. rtos_mempool_free 0x20003000 0x20003108
       (sample_pool_kernel\<lparr>pools := (\<lambda>a. (pools sample_pool_kernel a)\<lparr>mp_free_list := 0x20003100, mp_free_count := 1\<rparr>)\<rparr>) =
     Some (RTOS_OK, k') \<and> pool_inv k' 0x20003000 [] [0x20003108, 0x20003100]"
proof -
  let ?k = "sample_pool_kernel\<lparr>pools := (\<lambda>a. (pools sample_pool_kernel a)\<lparr>mp_free_list := 0x20003100, mp_free_count := 1\<rparr>)\<rparr>"
  have "pool_inv ?k 0x20003000 [] [0x20003100]"
    by (auto simp: pool_inv_def pool_waiters_def sample_pool_kernel_def pool_ends_def free_chain_def
      pool_blocks_def upt_rec)
  moreover have "0x20003108 \<in> set (pool_blocks (pools ?k 0x20003000))"
    by (simp add: pool_blocks_def sample_pool_kernel_def upt_rec)
  ultimately show ?thesis using pool_free_correct[of ?k "0x20003000" "[]" "[0x20003100]" "0x20003108"] by auto
qed

text \<open>
  One turn of an allocation, on every branch: the head of the free list is taken; an empty
  pool answers a poll with null and changes nothing; any other caller is blocked in priority
  order. The pool stays well formed.
\<close>

lemma pool_alloc_round:
  assumes inv: "pool_inv k p xs fs" and cur: "current_task k = Some t" and t: "t \<notin> set xs"
  shows "\<exists>r k' ys. pool_alloc_enter p ms k = Some (r, k') \<and> pool_inv k' p ys (tl fs) \<and>
    (case fs of
       b # bs \<Rightarrow> r = Some b \<and> b \<noteq> 0 \<and> ys = xs \<and> tasks k' = tasks k
     | [] \<Rightarrow> if ms = 0 then r = Some 0 \<and> ys = xs \<and> tasks k' = tasks k
        else r = None \<and> ys = prio_insert (\<lambda>x. priority (tasks k x)) t xs \<and> live (tasks k') t \<and>
          pendsv_pending (port k'))"
proof (cases fs)
  case (Cons b bs)
  with pool_alloc_takes[OF inv[unfolded Cons], of ms] show ?thesis by auto
next
  case Nil
  note inv0 = inv[unfolded Nil]
  show ?thesis
  proof (cases "ms = 0")
    case True
    with inv0 Nil show ?thesis by (simp add: pool_alloc_empty[OF inv0] pool_inv_port)
  next
    case False
    with pool_alloc_blocks[OF inv0 False cur t] Nil show ?thesis by auto
  qed
qed

lemma pool_alloc_round_example:
  "\<exists>k'. pool_alloc_enter 0x20003000 10 sample_pool_kernel = Some (Some 0x20003108, k') \<and>
     pool_inv k' 0x20003000 [] [0x20003100]"
proof -
  have "current_task sample_pool_kernel = Some 0" by (simp add: sample_pool_kernel_def)
  from pool_alloc_round[OF sample_pool_inv(1) this, of 10] show ?thesis by auto
qed

end
