(* ===== verification/Assertion.thy ===== *)
theory Assertion
  imports Ticks
begin

text \<open>
  Assertions (kernel/assert.c, include/rtos\_assert.h). A failed assertion masks interrupts,
  records where it failed and parks the processor for good, so code after it never runs.
  A checked operation therefore returns a sum: \<open>Inl k\<close> is the parked system in its last
  state \<open>k\<close>, \<open>Inr\<close> the value of the code that went on.
\<close>

definition rtos_assert_failed :: "string \<Rightarrow> string \<Rightarrow> u32 \<Rightarrow> kernel \<Rightarrow> kernel" where
  "rtos_assert_failed expression file line k =
     (let k1 = k\<lparr>port := cpsid_i (port k)\<rparr>
      in k1\<lparr>assert_record := \<lparr>as_active = 1, as_expression = expression, as_file = file,
             as_line = line, as_tick = rtos_tick_count k1, as_task = current_task k1\<rparr>\<rparr>)"

definition RTOS_ASSERT :: "bool \<Rightarrow> string \<Rightarrow> string \<Rightarrow> u32 \<Rightarrow> kernel \<Rightarrow> kernel + kernel" where
  "RTOS_ASSERT holds expression file line k =
     (if \<not> holds then Inl (rtos_assert_failed expression file line k) else Inr k)"

lemma RTOS_ASSERT_True [simp]: "RTOS_ASSERT True e f l k = Inr k"
  by (simp add: RTOS_ASSERT_def)

lemma RTOS_ASSERT_False [simp]: "RTOS_ASSERT False e f l k = Inl (rtos_assert_failed e f l k)"
  by (simp add: RTOS_ASSERT_def)

lemma assert_failed_fields [simp]:
  "as_active (assert_record (rtos_assert_failed e f l k)) = 1"
  "as_expression (assert_record (rtos_assert_failed e f l k)) = e"
  "as_file (assert_record (rtos_assert_failed e f l k)) = f"
  "as_line (assert_record (rtos_assert_failed e f l k)) = l"
  "as_tick (assert_record (rtos_assert_failed e f l k)) = tick_count k"
  "as_task (assert_record (rtos_assert_failed e f l k)) = current_task k"
  "tasks (rtos_assert_failed e f l k) = tasks k"
  "ram (rtos_assert_failed e f l k) = ram k"
  "cpu_primask (port (rtos_assert_failed e f l k)) = 1"
  by (simp_all add: rtos_assert_failed_def Let_def rtos_tick_count_def cpsid_i_def)

end
