(* ===== verification/Trace_Ring.thy ===== *)
theory Trace_Ring
  imports Ticks
begin

text \<open>
  The trace ring of kernel/trace.c: a static array of 32 entries that overwrites its oldest
  entry, with a write index, a saturating count and a running total. \<open>trace_view\<close> is what a
  debugger reads out of it, oldest first.
\<close>

definition put_trace :: "rtos_trace_entry \<Rightarrow> trace_ring \<Rightarrow> trace_ring" where
  "put_trace e tr =
     (let index = trace_write_index tr;
          tr1 = tr\<lparr>trace_entries := (trace_entries tr)[unat index := e]\<rparr>;
          index = (index + 1) mod RTOS_TRACE_LENGTH;
          tr2 = tr1\<lparr>trace_write_index := index\<rparr>;
          tr3 = (if trace_count tr2 < RTOS_TRACE_LENGTH
                 then tr2\<lparr>trace_count := trace_count tr2 + 1\<rparr> else tr2)
      in tr3\<lparr>trace_total_count := trace_total_count tr3 + 1\<rparr>)"

definition record_common :: "rtos_trace_event_t \<Rightarrow> u32 \<Rightarrow> u32 \<Rightarrow> kernel \<Rightarrow> kernel" where
  "record_common event arg0 arg1 k =
     (if event = RTOS_TRACE_NONE then k
      else let k1 = rtos_enter_critical k;
               e = \<lparr>te_tick = rtos_tick_count k1, te_event = trace_event_code event,
                    te_arg0 = arg0, te_arg1 = arg1\<rparr>;
               k2 = k1\<lparr>trace := put_trace e (trace k1)\<rparr>
           in rtos_exit_critical k2)"

definition rtos_trace_record :: "rtos_trace_event_t \<Rightarrow> u32 \<Rightarrow> u32 \<Rightarrow> kernel \<Rightarrow> kernel" where
  "rtos_trace_record event arg0 arg1 k = record_common event arg0 arg1 k"

definition rtos_trace_record_isr :: "rtos_trace_event_t \<Rightarrow> u32 \<Rightarrow> u32 \<Rightarrow> kernel \<Rightarrow> kernel" where
  "rtos_trace_record_isr event arg0 arg1 k = record_common event arg0 arg1 k"

section \<open>Frame: a trace call touches the trace ring and the port\<close>

lemma trace_record_frame [simp]:
  "linked_at (rtos_trace_record e a b k) = linked_at k"
  "ram (rtos_trace_record e a b k) = ram k"
  "tasks (rtos_trace_record e a b k) = tasks k"
  "task_count (rtos_trace_record e a b k) = task_count k"
  "stack_guard_check_index (rtos_trace_record e a b k) = stack_guard_check_index k"
  "idle_hook (rtos_trace_record e a b k) = idle_hook k"
  "idle_hook_arg (rtos_trace_record e a b k) = idle_hook_arg k"
  "current_task (rtos_trace_record e a b k) = current_task k"
  "scheduler_lock_count (rtos_trace_record e a b k) = scheduler_lock_count k"
  "scheduler_pending (rtos_trace_record e a b k) = scheduler_pending k"
  "tick_count (rtos_trace_record e a b k) = tick_count k"
  "debug_update_ticks (rtos_trace_record e a b k) = debug_update_ticks k"
  "registry (rtos_trace_record e a b k) = registry k"
  "object_snapshots (rtos_trace_record e a b k) = object_snapshots k"
  "object_snapshot_count (rtos_trace_record e a b k) = object_snapshot_count k"
  "sems (rtos_trace_record e a b k) = sems k"
  "queues (rtos_trace_record e a b k) = queues k"
  "mutexes (rtos_trace_record e a b k) = mutexes k"
  "events (rtos_trace_record e a b k) = events k"
  "pools (rtos_trace_record e a b k) = pools k"
  "timers (rtos_trace_record e a b k) = timers k"
  "timer_list (rtos_trace_record e a b k) = timer_list k"
  "work (rtos_trace_record e a b k) = work k"
  "debug_snapshots (rtos_trace_record e a b k) = debug_snapshots k"
  "debug_snapshot_count (rtos_trace_record e a b k) = debug_snapshot_count k"
  "cpu_usage (rtos_trace_record e a b k) = cpu_usage k"
  "assert_record (rtos_trace_record e a b k) = assert_record k"
  by (simp_all add: rtos_trace_record_def record_common_def Let_def)

lemma trace_record_port:
  assumes "crit_ok (Suc n) (port k)"
  shows "port (rtos_trace_record e a b k) = (if e = RTOS_TRACE_NONE then port k else port_crit (port k))"
  using exit_enter[OF assms] by (simp add: rtos_trace_record_def record_common_def Let_def)

lemma trace_record_trace:
  "e \<noteq> RTOS_TRACE_NONE \<Longrightarrow> trace (rtos_trace_record e a b k) =
     put_trace \<lparr>te_tick = tick_count k, te_event = trace_event_code e, te_arg0 = a, te_arg1 = b\<rparr>
       (trace k)"
  by (simp add: rtos_trace_record_def record_common_def Let_def rtos_tick_count_def)

section \<open>The ring keeps the last 32 records\<close>

definition trace_ok :: "trace_ring \<Rightarrow> bool" where
  "trace_ok tr \<longleftrightarrow> length (trace_entries tr) = 32 \<and> trace_write_index tr < 32 \<and>
     trace_count tr \<le> 32 \<and> (trace_count tr < 32 \<longrightarrow> trace_write_index tr = trace_count tr)"

definition trace_view :: "trace_ring \<Rightarrow> rtos_trace_entry list" where
  "trace_view tr =
     (if trace_count tr < RTOS_TRACE_LENGTH
      then ring_list ((!) (trace_entries tr)) 0 (unat (trace_count tr)) 32
      else ring_list ((!) (trace_entries tr)) (unat (trace_write_index tr)) 32 32)"

lemma length_trace_view: "trace_ok tr \<Longrightarrow> length (trace_view tr) = unat (trace_count tr)"
  by (auto simp: trace_view_def trace_ok_def word_less_nat_alt word_le_nat_alt)

lemma nth_update_ring:
  "length xs = c \<Longrightarrow> 0 < c \<Longrightarrow> i < c \<Longrightarrow>
     ring_list ((!) (xs[i := x])) h n c = ring_list (((!) xs)(i := x)) h n c"
  by (rule ring_list_cong) auto

lemma put_trace_ok: "trace_ok tr \<Longrightarrow> trace_ok (put_trace e tr)"
  unfolding trace_ok_def put_trace_def Let_def
  by (auto simp: word_less_nat_alt word_le_nat_alt unat_Suc_u32 unat_mod_distrib word_unat_eq_iff)

lemma put_trace_view:
  assumes ok: "trace_ok tr"
  shows "trace_view (put_trace e tr) = last_n 32 (trace_view tr @ [e])"
proof (cases "trace_count tr < 32")
  case True
  define n where "n = unat (trace_count tr)"
  from ok True have n: "n < 32" and w: "unat (trace_write_index tr) = n"
    and len: "length (trace_entries tr) = 32"
    by (auto simp: trace_ok_def n_def word_less_nat_alt)
  have view: "trace_view tr = ring_list ((!) (trace_entries tr)) 0 n 32"
    using True by (simp add: trace_view_def n_def)
  have put: "ring_list ((!) ((trace_entries tr)[n := e])) 0 (Suc n) 32 = trace_view tr @ [e]"
    using ring_put[of n 32 "(!) (trace_entries tr)" 0 e] n len
    by (simp add: nth_update_ring view del: fun_upd_apply)
  have count: "unat (trace_count tr + 1) = Suc n"
    using n by (simp add: n_def unat_Suc_u32)
  have index: "unat ((trace_write_index tr + 1) mod 32) = Suc n mod 32"
    using n w by (simp add: u32_wrap_index)
  have "trace_view (put_trace e tr) = ring_list ((!) ((trace_entries tr)[n := e])) 0 (Suc n) 32"
  proof (cases "n = 31")
    case True
    with \<open>trace_count tr < 32\<close> show ?thesis
      by (simp add: trace_view_def put_trace_def Let_def w count index word_less_nat_alt)
  next
    case False
    with \<open>trace_count tr < 32\<close> n show ?thesis
      by (simp add: trace_view_def put_trace_def Let_def w count index word_less_nat_alt)
  qed
  then show ?thesis
    using n by (simp add: put last_n_short view)
next
  case False
  define w where "w = unat (trace_write_index tr)"
  from ok False have c: "trace_count tr = 32" and w: "w < 32"
    and len: "length (trace_entries tr) = 32"
    by (auto simp: trace_ok_def w_def word_less_nat_alt)
  have view: "trace_view tr = ring_list ((!) (trace_entries tr)) w 32 32"
    by (simp add: trace_view_def c w_def)
  have index: "unat ((trace_write_index tr + 1) mod 32) = Suc w mod 32"
    using w by (simp add: u32_wrap_index w_def)
  have "trace_view (put_trace e tr) = ring_list ((!) ((trace_entries tr)[w := e])) (Suc w mod 32) 32 32"
    by (simp add: trace_view_def put_trace_def Let_def c index flip: w_def)
  also have "\<dots> = tl (trace_view tr) @ [e]"
    using ring_overwrite[of 32 w "(!) (trace_entries tr)" e] w len
    by (simp add: nth_update_ring view del: fun_upd_apply)
  also have "\<dots> = last_n 32 (trace_view tr @ [e])"
  proof -
    have "length (trace_view tr) = 32" by (simp add: view)
    then show ?thesis by (cases "trace_view tr") (simp_all add: last_n_def)
  qed
  finally show ?thesis .
qed

definition log_trace :: "(rtos_trace_event_t \<times> u32 \<times> u32) list \<Rightarrow> kernel \<Rightarrow> kernel" where
  "log_trace es k = fold (\<lambda>(e, a, b). rtos_trace_record e a b) es k"

text \<open>The entries a sequence of calls writes; events of kind \<open>RTOS_TRACE_NONE\<close> are ignored.\<close>

definition trace_log :: "u32 \<Rightarrow> (rtos_trace_event_t \<times> u32 \<times> u32) list \<Rightarrow> rtos_trace_entry list" where
  "trace_log now es =
     map (\<lambda>(e, a, b). \<lparr>te_tick = now, te_event = trace_event_code e, te_arg0 = a, te_arg1 = b\<rparr>)
       (filter (\<lambda>(e, _). e \<noteq> RTOS_TRACE_NONE) es)"

lemma trace_record_none [simp]: "rtos_trace_record RTOS_TRACE_NONE a b k = k"
  by (simp add: rtos_trace_record_def record_common_def)

lemma last_n_append: "0 < n \<Longrightarrow> last_n n (last_n n xs @ ys) = last_n n (xs @ ys)"
proof (induction ys rule: rev_induct)
  case Nil
  then show ?case by (simp add: last_n_def)
next
  case (snoc y ys)
  then show ?case by (metis append.assoc last_n_snoc)
qed

lemma log_trace_view:
  "trace_ok (trace k) \<Longrightarrow>
     trace_ok (trace (log_trace es k)) \<and>
     trace_view (trace (log_trace es k)) = last_n 32 (trace_view (trace k) @ trace_log (tick_count k) es)"
proof (induction es arbitrary: k)
  case Nil
  then have "length (trace_view (trace k)) \<le> 32"
    by (simp add: length_trace_view) (auto simp: trace_ok_def word_le_nat_alt)
  with Nil show ?case by (simp add: log_trace_def trace_log_def last_n_short)
next
  case (Cons ev es)
  obtain e a b where ev: "ev = (e, a, b)" by (cases ev)
  show ?case
  proof (cases "e = RTOS_TRACE_NONE")
    case True
    with Cons show ?thesis by (simp add: ev log_trace_def trace_log_def)
  next
    case False
    let ?k = "rtos_trace_record e a b k"
    have "trace_ok (trace ?k)"
      using Cons.prems False by (simp add: trace_record_trace put_trace_ok)
    from Cons.IH[OF this] show ?thesis
      using Cons.prems False
      by (simp add: ev log_trace_def trace_log_def trace_record_trace put_trace_view last_n_append)
  qed
qed

section \<open>Properties\<close>

text \<open>
  C24. The trace ring is a flight recorder: after any sequence of trace calls a reader finds
  exactly the last 32 of the records it held before followed by the new ones, oldest first,
  and the ring stays well formed.
\<close>

theorem trace_keeps_last:
  assumes "trace_ok (trace k)"
  shows "trace_view (trace (log_trace es k)) =
           last_n 32 (trace_view (trace k) @ trace_log (tick_count k) es) \<and>
         trace_ok (trace (log_trace es k))"
  using log_trace_view[OF assms] by simp_all

theorem trace_keeps_last_witness:
  "trace_view (trace (log_trace [(RTOS_TRACE_NOTIFY, 1, 2), (RTOS_TRACE_NONE, 0, 0),
       (RTOS_TRACE_SWITCH, 3, 4)] (zero_kernel sample_image))) =
     [\<lparr>te_tick = 0, te_event = 2, te_arg0 = 1, te_arg1 = 2\<rparr>,
      \<lparr>te_tick = 0, te_event = 1, te_arg0 = 3, te_arg1 = 4\<rparr>]"
proof -
  have ok: "trace_ok (trace (zero_kernel sample_image))"
    by (simp add: trace_ok_def zero_kernel_def)
  show ?thesis
    unfolding trace_keeps_last[OF ok, THEN conjunct1]
    by (simp add: trace_view_def zero_kernel_def trace_log_def last_n_def)
qed

end
