(* ===== verification/Tasks.thy ===== *)
theory Tasks
  imports Assertion Trace_Ring Wait_Object
begin

text \<open>
  Tasks (kernel/task.c): creation with the initial exception frame, the ring of tasks,
  stack measurement and guards, the per-tick work on delays, deletion, the idle hook and
  direct notifications. Stacks live in \<open>ram\<close>: slot \<open>i\<close> owns the words from
  \<open>stack_of k i\<close> upwards.
\<close>

section \<open>Constants and the idle task\<close>

definition INITIAL_XPSR :: u32 where [simp]: "INITIAL_XPSR = 0x01000000"
definition STACK_FILL_PATTERN :: u32 where [simp]: "STACK_FILL_PATTERN = 0xA5A5A5A5"
definition STACK_GUARD_WORDS :: u32 where [simp]: "STACK_GUARD_WORDS = 8"

text \<open>One turn of the endless loop of the idle task; \<open>call\<close> runs the function at an address.\<close>

definition idle_task_turn :: "callbacks \<Rightarrow> kernel \<Rightarrow> kernel option" where
  "idle_task_turn call k =
     (if idle_hook k \<noteq> 0 then call (idle_hook k) (idle_hook_arg k) k else Some k)"

section \<open>Creating a task\<close>

definition align_stack :: "u32 \<Rightarrow> u32" where
  "align_stack sp = sp AND NOT 7"

definition stack_of :: "kernel \<Rightarrow> nat \<Rightarrow> u32" where
  "stack_of k i = stacks_base (linked_at k) + 4 * RTOS_TASK_STACK_WORDS * of_nat i"

definition find_task_slot :: "kernel \<Rightarrow> (nat \<times> bool) option \<times> kernel" where
  "find_task_slot k =
     (if task_count k < RTOS_MAX_TASKS then
        (Some (unat (task_count k), True), k\<lparr>task_count := task_count k + 1\<rparr>)
      else
        (map_option (\<lambda>i. (i, False))
           (find (\<lambda>i. task_state (tasks k i) = RTOS_TASK_STOPPED) [0..<unat (task_count k)]), k))"

text \<open>\<open>*--sp = v\<close>\<close>

definition push_word :: "u32 \<Rightarrow> u32 \<times> (u32 \<Rightarrow> u32) \<Rightarrow> u32 \<times> (u32 \<Rightarrow> u32)" where
  "push_word v s = (let sp = fst s - 4 in (sp, (snd s)(sp := v)))"

definition fill_stack :: "u32 \<Rightarrow> (u32 \<Rightarrow> u32) \<Rightarrow> (u32 \<Rightarrow> u32)" where
  "fill_stack stack m =
     fold (\<lambda>i m. m(stack + 4 * of_nat i := STACK_FILL_PATTERN)) [0..<unat RTOS_TASK_STACK_WORDS] m"

text \<open>The words of the initial frame, in the order they are pushed.\<close>

definition initial_frame :: "u32 \<Rightarrow> u32 \<Rightarrow> u32 \<Rightarrow> u32 list" where
  "initial_frame entry task_exit arg =
     [INITIAL_XPSR, entry OR 1, task_exit, 0x12121212, 0x03030303, 0x02020202, 0x01010101, arg,
      0x11111111, 0x10101010, 0x09090909, 0x08080808, 0x07070707, 0x06060606, 0x05050505,
      0x04040404]"

definition fresh_task :: "string option \<Rightarrow> u32 \<Rightarrow> u32 \<Rightarrow> u32 \<Rightarrow> rtos_task \<Rightarrow> rtos_task" where
  "fresh_task nm sp stack prio b =
     b\<lparr>task_name := nm, task_sp := sp, stack_base := stack, stack_words := RTOS_TASK_STACK_WORDS,
       delay_ticks := 0, base_priority := prio, priority := prio, task_state := RTOS_TASK_READY,
       wait_next := None, wait_type := RTOS_WAIT_NONE, wait_result := RTOS_OK, wait_flags := 0,
       wait_flags_result := 0, wait_flags_all := 0, wait_flags_clear := 0, wait_object_result := 0,
       notify_value := 0, notify_pending := 0, switch_count := 0, run_ticks := 0\<rparr>"

text \<open>Linking a new control block into the ring behind the current task.\<close>

definition link_task :: "nat \<Rightarrow> kernel \<Rightarrow> kernel option" where
  "link_task task k =
     (if task_count k = 1 then
        Some (k\<lparr>tasks := upd_task task (\<lambda>b. b\<lparr>next_task := Some task\<rparr>) (tasks k),
                current_task := Some task\<rparr>)
      else do {
        cur \<leftarrow> current_task k;
        let ts = upd_task task (\<lambda>b. b\<lparr>next_task := next_task (tasks k cur)\<rparr>) (tasks k);
        Some (k\<lparr>tasks := upd_task cur (\<lambda>b. b\<lparr>next_task := Some task\<rparr>) ts\<rparr>)
      })"

text \<open>
  The handle that task\_out would receive is part of the result. \<open>None\<close> is the dereference of
  a null current task, \<open>Inl\<close> a failed assertion.
\<close>

definition rtos_task_create_named_handle ::
  "u32 \<Rightarrow> u32 \<Rightarrow> u32 \<Rightarrow> string option \<Rightarrow> kernel \<Rightarrow> (kernel + int \<times> nat option \<times> kernel) option" where
  "rtos_task_create_named_handle entry arg prio nm k =
     (if entry = 0 then Some (Inr (-1, None, k))
      else case find_task_slot (rtos_enter_critical k) of
        (None, k1) \<Rightarrow> Some (Inr (-1, None, rtos_exit_critical k1))
      | (Some (slot, is_new), k1) \<Rightarrow>
          let stack = stack_of k1 slot;
              sp = align_stack (stack + 4 * RTOS_TASK_STACK_WORDS)
          in case RTOS_ASSERT (sp AND 7 = 0) ''(((uintptr_t)sp) & 0x7U) == 0U'' ''kernel/task.c'' 80 k1 of
               Inl parked \<Rightarrow> Some (Inl parked)
             | Inr k2 \<Rightarrow>
                 let m = fill_stack stack (ram k2);
                     (sp, m) = fold push_word (initial_frame entry (addr_task_exit (linked_at k2)) arg) (sp, m);
                     k3 = k2\<lparr>ram := m, tasks := upd_task slot (fresh_task nm sp stack prio) (tasks k2)\<rparr>
                 in do {
                   k4 \<leftarrow> (if is_new then link_task slot k3 else Some k3);
                   Some (Inr (0, Some slot, rtos_exit_critical k4))
                 })"

text \<open>The wrappers drop the handle.\<close>

definition rtos_task_create_named ::
  "u32 \<Rightarrow> u32 \<Rightarrow> u32 \<Rightarrow> string option \<Rightarrow> kernel \<Rightarrow> (kernel + int \<times> kernel) option" where
  "rtos_task_create_named entry arg prio nm k =
     map_option (map_sum id (\<lambda>(r, _, k'). (r, k'))) (rtos_task_create_named_handle entry arg prio nm k)"

definition rtos_task_create_with_priority ::
  "u32 \<Rightarrow> u32 \<Rightarrow> u32 \<Rightarrow> kernel \<Rightarrow> (kernel + int \<times> kernel) option" where
  "rtos_task_create_with_priority entry arg prio k = rtos_task_create_named entry arg prio None k"

definition rtos_task_create :: "u32 \<Rightarrow> u32 \<Rightarrow> kernel \<Rightarrow> (kernel + int \<times> kernel) option" where
  "rtos_task_create entry arg k = rtos_task_create_with_priority entry arg RTOS_DEFAULT_PRIORITY k"

definition rtos_create_idle_task :: "kernel \<Rightarrow> (kernel + int \<times> kernel) option" where
  "rtos_create_idle_task k =
     rtos_task_create_named (addr_idle_task (linked_at k)) 0 RTOS_IDLE_PRIORITY (Some ''idle'') k"

section \<open>Queries\<close>

definition rtos_current_priority :: "kernel \<Rightarrow> u32 option" where
  "rtos_current_priority k = map_option (\<lambda>t. priority (tasks k t)) (current_task k)"

definition rtos_current_base_priority :: "kernel \<Rightarrow> u32 option" where
  "rtos_current_base_priority k = map_option (\<lambda>t. base_priority (tasks k t)) (current_task k)"

definition rtos_task_count :: "kernel \<Rightarrow> u32" where
  "rtos_task_count k = task_count k"

definition rtos_task_self :: "kernel \<Rightarrow> nat option" where
  "rtos_task_self k = current_task k"

definition rtos_task_at :: "u32 \<Rightarrow> kernel \<Rightarrow> nat option" where
  "rtos_task_at index k = (if task_count k \<le> index then None else Some (unat index))"

section \<open>Stack use and guards\<close>

text \<open>The loop counts fill words from the bottom; at most \<open>words\<close> of them.\<close>

function unused_scan :: "(u32 \<Rightarrow> u32) \<Rightarrow> u32 \<Rightarrow> nat \<Rightarrow> nat \<Rightarrow> nat" where
  "unused_scan m stack words unused =
     (if unused < words \<and> m (stack + 4 * of_nat unused) = STACK_FILL_PATTERN
      then unused_scan m stack words (Suc unused) else unused)"
  by auto

termination
  by (relation "measure (\<lambda>(m, stack, words, unused). words - unused)") auto

declare unused_scan.simps [simp del]

definition rtos_task_stack_used_words :: "nat option \<Rightarrow> kernel \<Rightarrow> u32" where
  "rtos_task_stack_used_words task k =
     (case task of
        None \<Rightarrow> 0
      | Some t \<Rightarrow>
          let b = tasks k t in
          if stack_base b = 0 then 0
          else stack_words b - of_nat (unused_scan (ram k) (stack_base b) (unat (stack_words b)) 0))"

definition rtos_task_stack_guard_ok :: "nat option \<Rightarrow> kernel \<Rightarrow> int" where
  "rtos_task_stack_guard_ok task k =
     (case task of
        None \<Rightarrow> 0
      | Some t \<Rightarrow>
          let b = tasks k t;
              guard_words = (if stack_words b < STACK_GUARD_WORDS then stack_words b else STACK_GUARD_WORDS)
          in if stack_base b = 0 then 0
             else if list_all (\<lambda>i. ram k (stack_base b + 4 * of_nat i) = STACK_FILL_PATTERN)
                       [0..<unat guard_words] then 1 else 0)"

definition rtos_check_stack_guards :: "kernel \<Rightarrow> kernel + kernel" where
  "rtos_check_stack_guards k =
     (if task_count k = 0 then Inr k
      else
        let k1 = (if task_count k \<le> stack_guard_check_index k
                  then k\<lparr>stack_guard_check_index := 0\<rparr> else k)
        in case RTOS_ASSERT (rtos_task_stack_guard_ok (Some (unat (stack_guard_check_index k1))) k1 \<noteq> 0)
             ''rtos_task_stack_guard_ok(&tasks[stack_guard_check_index]) != 0'' ''kernel/task.c'' 238 k1 of
             Inl parked \<Rightarrow> Inl parked
           | Inr k2 \<Rightarrow> Inr (k2\<lparr>stack_guard_check_index := stack_guard_check_index k2 + 1\<rparr>))"

section \<open>Work of the tick\<close>

definition tick_block :: "rtos_task \<Rightarrow> rtos_task" where
  "tick_block b =
     (if task_state b = RTOS_TASK_BLOCKED \<and> 0 < delay_ticks b then
        let b = b\<lparr>delay_ticks := delay_ticks b - 1\<rparr>
        in if delay_ticks b = 0 then b\<lparr>wait_result := RTOS_ERR_TIMEOUT, task_state := RTOS_TASK_READY\<rparr>
           else b
      else b)"

definition rtos_task_tick :: "kernel \<Rightarrow> kernel" where
  "rtos_task_tick k =
     k\<lparr>tasks := fold (\<lambda>i ts. upd_task i tick_block ts) [0..<unat (task_count k)] (tasks k)\<rparr>"

definition rtos_task_account_tick :: "kernel \<Rightarrow> kernel" where
  "rtos_task_account_tick k =
     (case current_task k of
        None \<Rightarrow> k
      | Some t \<Rightarrow>
          if task_state (tasks k t) = RTOS_TASK_RUNNING
          then k\<lparr>tasks := upd_task t (\<lambda>b. b\<lparr>run_ticks := run_ticks b + 1\<rparr>) (tasks k)\<rparr> else k)"

section \<open>Deletion and the idle hook\<close>

text \<open>The state in which the deleted task waits for the interrupt that switches it out.\<close>

definition rtos_task_delete_self :: "kernel \<Rightarrow> kernel option" where
  "rtos_task_delete_self k =
     (let k1 = rtos_enter_critical k in do {
        t \<leftarrow> current_task k1;
        let k2 = k1\<lparr>tasks := upd_task t (\<lambda>b. b\<lparr>delay_ticks := 0, wait_type := RTOS_WAIT_NONE,
                      wait_result := RTOS_OK, task_state := RTOS_TASK_STOPPED\<rparr>) (tasks k1)\<rparr>;
        Some (rtos_yield (rtos_exit_critical k2))
      })"

definition rtos_task_exit :: "kernel \<Rightarrow> kernel option" where
  "rtos_task_exit k = rtos_task_delete_self k"

definition rtos_idle_set_hook :: "u32 \<Rightarrow> u32 \<Rightarrow> kernel \<Rightarrow> int \<times> kernel" where
  "rtos_idle_set_hook hook arg k =
     (RTOS_OK, rtos_exit_critical ((rtos_enter_critical k)\<lparr>idle_hook := hook, idle_hook_arg := arg\<rparr>))"

section \<open>Notifications\<close>

definition notify_common :: "nat option \<Rightarrow> u32 \<Rightarrow> kernel \<Rightarrow> int \<times> kernel" where
  "notify_common task value k =
     (case task of
        None \<Rightarrow> (RTOS_ERR_INVALID, k)
      | Some t \<Rightarrow>
          if value = 0 then (RTOS_ERR_INVALID, k)
          else
            let k1 = rtos_enter_critical k;
                k2 = k1\<lparr>tasks := upd_task t (\<lambda>b. b\<lparr>notify_value := notify_value b OR value,
                       notify_pending := 1\<rparr>) (tasks k1)\<rparr>;
                k3 = rtos_trace_record RTOS_TRACE_NOTIFY (task_word (linked_at k2) task) value k2;
                b = tasks k3 t;
                wake = (task_state b = RTOS_TASK_BLOCKED \<and> wait_type b = RTOS_WAIT_NOTIFICATION \<and>
                        wait_result b = RTOS_OK);
                k4 = (if wake then k3\<lparr>tasks := upd_task t (\<lambda>b. b\<lparr>delay_ticks := 0,
                        wait_result := RTOS_OK, task_state := RTOS_TASK_READY\<rparr>) (tasks k3)\<rparr> else k3);
                k5 = rtos_exit_critical k4
            in (RTOS_OK, if wake then rtos_yield k5 else k5))"

definition rtos_task_notify :: "nat option \<Rightarrow> u32 \<Rightarrow> kernel \<Rightarrow> int \<times> kernel" where
  "rtos_task_notify task value k = notify_common task value k"

definition rtos_task_notify_isr :: "nat option \<Rightarrow> u32 \<Rightarrow> kernel \<Rightarrow> int \<times> kernel" where
  "rtos_task_notify_isr task value k = notify_common task value k"

text \<open>Clearing bits on exit; the pending mark goes when no bit is left.\<close>

definition notify_clear :: "u32 \<Rightarrow> rtos_task \<Rightarrow> rtos_task" where
  "notify_clear clear_on_exit b =
     (let b = b\<lparr>notify_value := notify_value b AND NOT clear_on_exit\<rparr>
      in if notify_value b = 0 then b\<lparr>notify_pending := 0\<rparr> else b)"

text \<open>
  A wait is cut where it yields, as in the other blocking calls: \<open>Some (r, v)\<close> when the first
  part returns \<open>r\<close>, with \<open>v\<close> the value stored through the out-pointer if one is stored.
\<close>

definition notify_wait_enter ::
  "u32 \<Rightarrow> u32 \<Rightarrow> u32 \<Rightarrow> kernel \<Rightarrow> ((int \<times> u32 option) option \<times> kernel) option" where
  "notify_wait_enter clear_on_entry clear_on_exit timeout_ms k = do {
     t \<leftarrow> current_task k;
     let k1 = rtos_enter_critical k;
     let k2 = k1\<lparr>tasks := upd_task t (\<lambda>b. b\<lparr>notify_value := notify_value b AND NOT clear_on_entry\<rparr>) (tasks k1)\<rparr>;
     if notify_pending (tasks k2 t) \<noteq> 0 then
       Some (Some (RTOS_OK, Some (notify_value (tasks k2 t))),
             rtos_exit_critical (k2\<lparr>tasks := upd_task t (notify_clear clear_on_exit) (tasks k2)\<rparr>))
     else if timeout_ms = 0 then Some (Some (RTOS_ERR_TIMEOUT, None), rtos_exit_critical k2)
     else Some (None, rtos_yield (rtos_exit_critical
            (k2\<lparr>tasks := upd_task t (block_for RTOS_WAIT_NOTIFICATION timeout_ms) (tasks k2)\<rparr>)))
   }"

definition notify_wait_resume :: "u32 \<Rightarrow> nat \<Rightarrow> kernel \<Rightarrow> (int \<times> u32 option) \<times> kernel" where
  "notify_wait_resume clear_on_exit t k =
     (let k1 = rtos_enter_critical k in
      if wait_result (tasks k1 t) = RTOS_ERR_TIMEOUT then
        ((RTOS_ERR_TIMEOUT, None),
         rtos_exit_critical (k1\<lparr>tasks := upd_task t (\<lambda>b. b\<lparr>wait_type := RTOS_WAIT_NONE\<rparr>) (tasks k1)\<rparr>))
      else
        ((RTOS_OK, Some (notify_value (tasks k1 t))),
         rtos_exit_critical (k1\<lparr>tasks := upd_task t
           (\<lambda>b. (notify_clear clear_on_exit b)\<lparr>wait_type := RTOS_WAIT_NONE\<rparr>) (tasks k1)\<rparr>)))"

definition rtos_task_notify_wait ::
  "u32 \<Rightarrow> u32 \<Rightarrow> u32 \<Rightarrow> suspension \<Rightarrow> kernel \<Rightarrow> ((int \<times> u32 option) \<times> kernel) option" where
  "rtos_task_notify_wait clear_on_entry clear_on_exit timeout_ms suspend k = do {
     t \<leftarrow> current_task k;
     (r, k1) \<leftarrow> notify_wait_enter clear_on_entry clear_on_exit timeout_ms k;
     case r of
       Some result \<Rightarrow> Some (result, k1)
     | None \<Rightarrow> do {
         k2 \<leftarrow> suspend k1;
         Some (notify_wait_resume clear_on_exit t k2)
       }
   }"

section \<open>The stack of a fresh task\<close>

lemma fill_stack_apply:
  "fill_stack s m a = (if \<exists>i < 128. a = s + 4 * of_nat i then STACK_FILL_PATTERN else m a)"
proof -
  have fold: "fold (\<lambda>i m. m(s + 4 * of_nat i := c)) [0..<n] m a =
    (if \<exists>i < n. a = s + 4 * of_nat i then c else m a)" for n and c :: u32
    by (induction n) (auto simp: less_Suc_eq)
  have "unat RTOS_TASK_STACK_WORDS = 128" by simp
  then show ?thesis unfolding fill_stack_def using fold[where n = 128 and c = STACK_FILL_PATTERN] by presburger
qed

lemma fill_stack_at: "i < 128 \<Longrightarrow> fill_stack s m (s + 4 * of_nat i) = STACK_FILL_PATTERN"
  unfolding fill_stack_apply by auto

lemma push_word_simps [simp]:
  "fst (push_word v s) = fst s - 4" "snd (push_word v s) = (snd s)(fst s - 4 := v)"
  by (simp_all add: push_word_def Let_def)

text \<open>Pushing words changes only the words below the start.\<close>

lemma push_words_pointer: "fst (fold push_word ws s) = fst s - 4 * of_nat (length ws)"
  by (induction ws arbitrary: s) (simp_all add: diff_diff_eq distrib_left)

lemma push_words_outside:
  "(\<And>i. i < length ws \<Longrightarrow> a \<noteq> fst s - 4 * of_nat (Suc i)) \<Longrightarrow> snd (fold push_word ws s) a = snd s a"
proof (induction ws arbitrary: s)
  case Nil
  then show ?case by simp
next
  case (Cons w ws)
  have "a \<noteq> fst (push_word w s) - 4 * of_nat (Suc i)" if "i < length ws" for i
    using Cons.prems[of "Suc i"] that by (simp add: algebra_simps)
  from Cons.IH[OF this] Cons.prems[of 0] show ?case by simp
qed

text \<open>A stack slot of 512 bytes does not wrap around the address space.\<close>

lemma stack_offset_inject:
  "i < 128 \<Longrightarrow> j < 128 \<Longrightarrow> (s::u32) + 4 * of_nat i = s + 4 * of_nat j \<longleftrightarrow> i = j"
proof -
  assume "i < 128" "j < 128"
  then have "unat (4 * of_nat i :: u32) = 4 * i" "unat (4 * of_nat j :: u32) = 4 * j"
    by (simp_all add: unat_word_ariths unat_of_nat)
  then show ?thesis by (metis add_left_cancel mult_left_cancel zero_neq_numeral)
qed

lemma push_words_at:
  "i < length ws \<Longrightarrow> length ws \<le> 128 \<Longrightarrow>
     snd (fold push_word ws s) (fst s - 4 * of_nat (Suc i)) = ws ! i"
proof (induction ws arbitrary: s i)
  case Nil
  then show ?case by simp
next
  case (Cons w ws)
  show ?case
  proof (cases i)
    case 0
    have "fst s - 4 \<noteq> fst s - 4 - 4 * of_nat (Suc j)" if "j < length ws" for j
    proof -
      from that Cons.prems(2) have "4 * of_nat (Suc j) \<noteq> (0::u32)"
        using stack_offset_inject[of 0 "Suc j" 0] by simp
      moreover have "x \<noteq> x - y" if "y \<noteq> 0" for x y :: u32
        using that by (simp add: eq_diff_eq)
      ultimately show ?thesis by blast
    qed
    then show ?thesis
      using 0 push_words_outside[of ws "fst s - 4" "push_word w s"] by simp
  next
    case (Suc j)
    with Cons.prems have "snd (fold push_word ws (push_word w s))
        (fst (push_word w s) - 4 * of_nat (Suc j)) = ws ! j" by (intro Cons.IH) simp_all
    with Suc show ?thesis by (simp add: algebra_simps)
  qed
qed

lemma unused_scan_from:
  assumes "\<And>i. u \<le> i \<Longrightarrow> i < n \<Longrightarrow> m (s + 4 * of_nat i) = STACK_FILL_PATTERN"
    and "u \<le> n" "n \<le> words" "n < words \<Longrightarrow> m (s + 4 * of_nat n) \<noteq> STACK_FILL_PATTERN"
  shows "unused_scan m s words u = n"
  using assms
proof (induction "n - u" arbitrary: u)
  case 0
  then show ?case by (subst unused_scan.simps) auto
next
  case (Suc d)
  then have "u < words" "m (s + 4 * of_nat u) = STACK_FILL_PATTERN" by simp_all
  then have "unused_scan m s words u = unused_scan m s words (Suc u)"
    by (subst unused_scan.simps) simp
  also have "\<dots> = n" using Suc by (intro Suc.hyps) auto
  finally show ?case .
qed

lemma length_initial_frame [simp]: "length (initial_frame e x a) = 16"
  by (simp add: initial_frame_def)

text \<open>The memory of a slot after its frame has been pushed on the filled stack.\<close>

definition fresh_ram :: "u32 \<Rightarrow> u32 \<Rightarrow> u32 \<Rightarrow> u32 \<Rightarrow> (u32 \<Rightarrow> u32) \<Rightarrow> (u32 \<Rightarrow> u32)" where
  "fresh_ram entry task_exit arg s m =
     snd (fold push_word (initial_frame entry task_exit arg) (s + 512, fill_stack s m))"

lemma fresh_ram_frame:
  "i < 16 \<Longrightarrow> fresh_ram entry x arg s m (s + 4 * of_nat (127 - i)) = initial_frame entry x arg ! i"
  using push_words_at[of i "initial_frame entry x arg" "(s + 512, fill_stack s m)"]
  by (simp add: fresh_ram_def of_nat_diff algebra_simps)

lemma fresh_ram_below:
  assumes "i < 112"
  shows "fresh_ram entry x arg s m (s + 4 * of_nat i) = STACK_FILL_PATTERN"
proof -
  have "s + 4 * of_nat i \<noteq> s + 512 - 4 * of_nat (Suc j)" if "j < 16" for j
  proof -
    from that have "s + 512 - 4 * of_nat (Suc j) = s + 4 * of_nat (127 - j)"
      by (simp add: of_nat_diff algebra_simps)
    with stack_offset_inject[of i "127 - j" s] assms that show ?thesis by auto
  qed
  with assms show ?thesis
    unfolding fresh_ram_def by (subst push_words_outside) (use assms in \<open>simp_all only: length_initial_frame fst_conv snd_conv fill_stack_at\<close>, simp_all)
qed

lemma align_stack_aligned [simp]: "align_stack x AND 7 = 0"
  by (rule bit_eqI) (auto simp: align_stack_def bit_simps)

lemma align_stack_id:
  assumes "x AND 7 = 0"
  shows "align_stack x = x"
proof (rule bit_eqI)
  fix n
  from assms have "bit (x AND 7) n = bit (0 :: u32) n" by simp
  then show "bit (align_stack x) n = bit x n"
    by (auto simp: align_stack_def bit_simps dest: bit_imp_le_length)
qed

text \<open>The linker places the stacks on an eight-byte boundary, as the procedure call standard asks.\<close>

definition stacks_aligned :: "kernel \<Rightarrow> bool" where
  "stacks_aligned k \<longleftrightarrow> unat (stacks_base (linked_at k)) mod 8 = 0"

lemma and_7_eq_0: "(x::u32) AND 7 = 0 \<longleftrightarrow> unat x mod 8 = 0"
proof -
  have "x AND 7 = take_bit 3 x" by (simp add: take_bit_eq_mask mask_eq_exp_minus_1)
  moreover have "take_bit 3 x = 0 \<longleftrightarrow> take_bit 3 (unat x) = 0"
    by (simp add: unsigned_take_bit_eq flip: unat_eq_0)
  moreover have "take_bit 3 (unat x) = unat x mod 8" by (simp add: take_bit_eq_mod)
  ultimately show ?thesis by simp
qed

lemma align_stack_top:
  assumes "stacks_aligned k"
  shows "align_stack (stack_of k i + 512) = stack_of k i + 512"
proof (rule align_stack_id)
  have "unat (stack_of k i + 512) mod 8 = (unat (stacks_base (linked_at k)) + 512 * i + 512) mod 8"
    by (simp add: stack_of_def unat_word_ariths unat_of_nat mod_simps mod_mod_cancel)
  moreover have "(a + 512 * i + 512) mod 8 = 0" if "a mod 8 = 0" for a :: nat
    using that by presburger
  ultimately show "stack_of k i + 512 AND 7 = 0"
    using assms unfolding and_7_eq_0 stacks_aligned_def by metis
qed

section \<open>The ring of tasks\<close>

text \<open>
  \<open>task_ring k xs\<close>: the links \<open>next\<close> run from the current task through exactly the created
  tasks and back; \<open>xs\<close> lists them in that order.
\<close>

definition task_ring :: "kernel \<Rightarrow> nat list \<Rightarrow> bool" where
  "task_ring k xs \<longleftrightarrow> task_count k \<le> RTOS_MAX_TASKS \<and> distinct xs \<and>
     set xs = {..<unat (task_count k)} \<and> current_task k = hd_opt xs \<and>
     segment (\<lambda>x. next_task (tasks k x)) (current_task k) xs (current_task k)"

lemma task_ring_zero: "task_ring (zero_kernel im) []"
  by (simp add: task_ring_def zero_kernel_def)

lemma fresh_task_simps [simp]:
  "next_task (fresh_task nm sp st prio b) = next_task b"
  "task_state (fresh_task nm sp st prio b) = RTOS_TASK_READY"
  by (simp_all add: fresh_task_def)

text \<open>What creation leaves in the chosen slot.\<close>

definition created :: "u32 \<Rightarrow> u32 \<Rightarrow> u32 \<Rightarrow> string option \<Rightarrow> nat \<Rightarrow> kernel \<Rightarrow> kernel \<Rightarrow> bool" where
  "created entry arg prio nm slot k k' \<longleftrightarrow>
     (\<exists>p. tasks k' slot = (fresh_task nm (stack_of k slot + 448) (stack_of k slot) prio (tasks k slot))\<lparr>next_task := p\<rparr>) \<and>
     ram k' = fresh_ram entry (addr_task_exit (linked_at k)) arg (stack_of k slot) (ram k) \<and>
     linked_at k' = linked_at k"

lemma create_eq:
  assumes "entry \<noteq> 0" and "stacks_aligned k"
  shows "rtos_task_create_named_handle entry arg prio nm k =
    (case find_task_slot (k\<lparr>port := port_enter_critical (port k)\<rparr>) of
       (None, k1) \<Rightarrow> Some (Inr (-1, None, rtos_exit_critical k1))
     | (Some (slot, is_new), k1) \<Rightarrow>
        let k3 = k1\<lparr>ram := fresh_ram entry (addr_task_exit (linked_at k)) arg (stack_of k slot) (ram k),
                    tasks := upd_task slot (fresh_task nm (stack_of k slot + 448) (stack_of k slot) prio) (tasks k)\<rparr>
        in map_option (\<lambda>k4. Inr (0, Some slot, rtos_exit_critical k4))
             (if is_new then link_task slot k3 else Some k3))"
proof -
  have push: "fold push_word (initial_frame entry x arg) (a + 512, fill_stack a m) =
      (a + 448, fresh_ram entry x arg a m)" for x a m
    by (rule prod_eqI) (simp_all add: push_words_pointer fresh_ram_def)
  obtain r k1 where f: "find_task_slot (k\<lparr>port := port_enter_critical (port k)\<rparr>) = (r, k1)"
    by (cases "find_task_slot (k\<lparr>port := port_enter_critical (port k)\<rparr>)")
  then have k1: "linked_at k1 = linked_at k" "ram k1 = ram k" "tasks k1 = tasks k"
    by (auto simp: find_task_slot_def split: if_splits)
  then have st: "stack_of k1 = stack_of k" by (auto simp: stack_of_def)
  show ?thesis
  proof (cases r)
    case None
    with f assms show ?thesis by (simp add: rtos_task_create_named_handle_def)
  next
    case (Some s)
    obtain slot new where s: "s = (slot, new)" by (cases s)
    have "align_stack (stack_of k slot + 512) AND 7 = 0" by simp
    then show ?thesis
      unfolding rtos_task_create_named_handle_def
      by (simp add: assms f Some s k1 st align_stack_top push Let_def map_option_case del: align_stack_aligned
          split: option.split)
  qed
qed

text \<open>A new task goes right behind the current one.\<close>

fun ring_insert :: "nat \<Rightarrow> nat list \<Rightarrow> nat list" where
  "ring_insert n [] = [n]"
| "ring_insert n (c # rest) = c # n # rest"

lemma task_ring_cong:
  "task_count k' = task_count k \<Longrightarrow> current_task k' = current_task k \<Longrightarrow>
     (\<And>x. next_task (tasks k' x) = next_task (tasks k x)) \<Longrightarrow> task_ring k' xs = task_ring k xs"
  by (simp add: task_ring_def)

lemma task_ring_port [simp]: "task_ring (k\<lparr>port := x\<rparr>) xs = task_ring k xs"
  by (simp add: task_ring_def)

lemma link_task_ring:
  assumes ring: "task_ring k xs" and room: "task_count k < RTOS_MAX_TASKS"
    and n: "n = unat (task_count k)" and k1: "k1 = k\<lparr>task_count := task_count k + 1\<rparr>"
  shows "\<exists>ts cur. link_task n k1 = Some (k1\<lparr>tasks := ts, current_task := Some cur\<rparr>) \<and>
    task_ring (k1\<lparr>tasks := ts, current_task := Some cur\<rparr>) (ring_insert n xs) \<and>
    (\<forall>x. ts x = (tasks k x)\<lparr>next_task := next_task (ts x)\<rparr>)"
proof (cases xs)
  case Nil
  with ring have "{..<unat (task_count k)} = {}" by (simp add: task_ring_def)
  then have "task_count k = 0" by (simp only: lessThan_empty_iff unat_eq_0 bot_nat_def)
  with Nil n k1 show ?thesis
    by (intro exI[of _ "upd_task n (\<lambda>b. b\<lparr>next_task := Some n\<rparr>) (tasks k)"] exI[of _ n])
      (auto simp: link_task_def task_ring_def upd_task_apply)
next
  case (Cons c rest)
  let ?ts = "upd_task c (\<lambda>b. b\<lparr>next_task := Some n\<rparr>)
     (upd_task n (\<lambda>b. b\<lparr>next_task := next_task (tasks k c)\<rparr>) (tasks k))"
  have cnt: "unat (task_count k + 1) = Suc n" using room n unat_inc_u32 by blast
  have cur: "current_task k = Some c" using ring Cons by (simp add: task_ring_def)
  then have mem: "set (c # rest) = {..<n}" "distinct (c # rest)"
    and seg: "segment (\<lambda>x. next_task (tasks k x)) (next_task (tasks k c)) rest (Some c)"
    using ring Cons n by (simp_all add: task_ring_def)
  have "n \<notin> set (c # rest)" "c < n" using mem(1) by auto
  then have cn: "n \<noteq> c" "n \<notin> set rest" "c \<notin> set rest" "task_count k \<noteq> 0"
    using mem(2) n by auto
  have nx: "(\<lambda>x. next_task (?ts x)) = (\<lambda>x. next_task (tasks k x))(n := next_task (tasks k c), c := Some n)"
    using cn(1) by (auto simp: upd_task_apply)
  have "link_task n k1 = Some (k1\<lparr>tasks := ?ts, current_task := Some c\<rparr>)"
    using cn cur k1 by (simp add: link_task_def)
  moreover have "task_ring (k1\<lparr>tasks := ?ts, current_task := Some c\<rparr>) (ring_insert n xs)"
    using room cnt mem cn cur seg k1 Cons insert_commute[of c n "set rest"]
    by (simp add: task_ring_def nx u32_inc_le[of _ 6, simplified] lessThan_Suc)
  ultimately show ?thesis by (intro exI conjI) (auto simp: upd_task_apply)
qed

section \<open>Properties\<close>

text \<open>The slot creation chooses: a new one while there is room, then the first stopped one.\<close>

definition free_slot :: "kernel \<Rightarrow> nat option" where
  "free_slot k =
     (if task_count k < RTOS_MAX_TASKS then Some (unat (task_count k))
      else find (\<lambda>i. task_state (tasks k i) = RTOS_TASK_STOPPED) [0..<6])"

lemma task_create_props:
  assumes ring: "task_ring k xs" and entry: "entry \<noteq> 0" and al: "stacks_aligned k"
  shows "\<exists>r h k' ys. rtos_task_create_named_handle entry arg prio nm k = Some (Inr (r, h, k')) \<and>
    task_ring k' ys \<and> h = free_slot k \<and>
    (case free_slot k of
       None \<Rightarrow> r = -1 \<and> tasks k' = tasks k \<and> ys = xs
     | Some slot \<Rightarrow> r = 0 \<and> created entry arg prio nm slot k k' \<and>
         (\<forall>x. x \<noteq> slot \<longrightarrow> tasks k' x = (tasks k x)\<lparr>next_task := next_task (tasks k' x)\<rparr>) \<and>
         ys = (if task_count k < RTOS_MAX_TASKS then ring_insert slot xs else xs))"
proof (cases "task_count k < RTOS_MAX_TASKS")
  case True
  let ?n = "unat (task_count k)"
  let ?k2 = "k\<lparr>port := port_enter_critical (port k),
    ram := fresh_ram entry (addr_task_exit (linked_at k)) arg (stack_of k ?n) (ram k),
    tasks := upd_task ?n (fresh_task nm (stack_of k ?n + 448) (stack_of k ?n) prio) (tasks k)\<rparr>"
  let ?k3 = "k\<lparr>port := port_enter_critical (port k), task_count := task_count k + 1,
    ram := fresh_ram entry (addr_task_exit (linked_at k)) arg (stack_of k ?n) (ram k),
    tasks := upd_task ?n (fresh_task nm (stack_of k ?n + 448) (stack_of k ?n) prio) (tasks k)\<rparr>"
  have "task_ring ?k2 xs" using ring by (subst task_ring_cong[of _ k]) (simp_all add: upd_task_apply)
  then obtain ts cur where link: "link_task ?n ?k3 = Some (?k3\<lparr>tasks := ts, current_task := Some cur\<rparr>)"
    and ring': "task_ring (?k3\<lparr>tasks := ts, current_task := Some cur\<rparr>) (ring_insert ?n xs)"
    and ts: "\<forall>x. ts x = (tasks ?k2 x)\<lparr>next_task := next_task (ts x)\<rparr>"
    using link_task_ring[of ?k2 xs ?n ?k3] True by auto
  have "task_ring (rtos_exit_critical (?k3\<lparr>tasks := ts, current_task := Some cur\<rparr>)) (ring_insert ?n xs)"
    using ring' by (subst task_ring_cong) (simp_all del: ring_insert.simps)
  moreover have "rtos_task_create_named_handle entry arg prio nm k =
      Some (Inr (0, Some ?n, rtos_exit_critical (?k3\<lparr>tasks := ts, current_task := Some cur\<rparr>)))"
    using True link by (simp add: create_eq[OF entry al] find_task_slot_def)
  moreover have "created entry arg prio nm ?n k (rtos_exit_critical (?k3\<lparr>tasks := ts, current_task := Some cur\<rparr>))"
    using ts[rule_format, of ?n] by (auto simp: created_def)
  moreover have "tasks ?k2 x = tasks k x" if "x \<noteq> ?n" for x using that by simp
  then have "\<forall>x. x \<noteq> ?n \<longrightarrow> ts x = (tasks k x)\<lparr>next_task := next_task (ts x)\<rparr>"
    using ts by metis
  ultimately show ?thesis using True by (auto simp: free_slot_def)
next
  case False
  then have cnt: "task_count k = 6" using ring by (simp add: task_ring_def)
  show ?thesis
  proof (cases "free_slot k")
    case None
    then show ?thesis
      using False ring by (auto simp: create_eq[OF entry al] find_task_slot_def free_slot_def cnt)
  next
    case (Some slot)
    let ?k3 = "k\<lparr>port := port_enter_critical (port k),
      ram := fresh_ram entry (addr_task_exit (linked_at k)) arg (stack_of k slot) (ram k),
      tasks := upd_task slot (fresh_task nm (stack_of k slot + 448) (stack_of k slot) prio) (tasks k)\<rparr>"
    have "rtos_task_create_named_handle entry arg prio nm k = Some (Inr (0, Some slot, rtos_exit_critical ?k3))"
      using Some False by (simp add: create_eq[OF entry al] find_task_slot_def free_slot_def cnt)
    moreover have "task_ring (rtos_exit_critical ?k3) xs"
      using ring by (subst task_ring_cong[of _ k]) (simp_all add: upd_task_apply)
    moreover have "created entry arg prio nm slot k (rtos_exit_critical ?k3)"
      unfolding created_def by (intro conjI exI[of _ "next_task (tasks k slot)"] rtos_task.equality) simp_all
    ultimately show ?thesis using Some False by auto
  qed
qed


definition sample_tasks_kernel :: kernel where
  "sample_tasks_kernel = (zero_kernel sample_image)\<lparr>task_count := 1, current_task := Some 0,
     tasks := (\<lambda>_. zero_task)(0 := zero_task\<lparr>next_task := Some 0, base_priority := 1, priority := 1\<rparr>)\<rparr>"

lemma sample_tasks_ring: "task_ring sample_tasks_kernel [0]"
  by (auto simp: task_ring_def sample_tasks_kernel_def)

lemma sample_tasks_aligned: "stacks_aligned sample_tasks_kernel"
  by (simp add: stacks_aligned_def sample_tasks_kernel_def zero_kernel_def sample_image_def)


lemma created_stack:
  assumes "created entry arg prio nm slot k k'" and "stack_of k slot \<noteq> 0"
  shows "(\<forall>i < 16. ram k' (stack_of k slot + 4 * of_nat (127 - i)) =
        initial_frame entry (addr_task_exit (linked_at k)) arg ! i) \<and>
    task_sp (tasks k' slot) = stack_of k slot + 4 * of_nat (127 - 15) \<and>
    rtos_task_stack_used_words (Some slot) k' = 16 \<and> rtos_task_stack_guard_ok (Some slot) k' = 1"
proof -
  from assms(1) have ram: "ram k' = fresh_ram entry (addr_task_exit (linked_at k)) arg (stack_of k slot) (ram k)"
    and b: "stack_base (tasks k' slot) = stack_of k slot" "stack_words (tasks k' slot) = 128"
      "task_sp (tasks k' slot) = stack_of k slot + 448"
    by (auto simp: created_def fresh_task_def)
  have top: "ram k' (stack_of k slot + 4 * of_nat 112) = 0x04040404"
    using fresh_ram_frame[of 15 entry "addr_task_exit (linked_at k)" arg "stack_of k slot" "ram k"]
    by (simp add: ram initial_frame_def)
  have "unused_scan (ram k') (stack_of k slot) 128 0 = 112"
    by (rule unused_scan_from) (use top in \<open>auto simp: ram fresh_ram_below\<close>)
  then show ?thesis
    using assms(2) b fresh_ram_frame fresh_ram_below
    by (auto simp: ram rtos_task_stack_used_words_def rtos_task_stack_guard_ok_def list_all_iff)
qed



section \<open>Delays\<close>

lemma task_tick_apply:
  "tasks (rtos_task_tick k) x =
     (if x < unat (task_count k) then tick_block (tasks k x) else tasks k x)"
proof -
  have "fold (\<lambda>i ts. upd_task i f ts) [0..<n] ts x = (if x < n then f (ts x) else ts x)"
    for n ts and f :: "rtos_task \<Rightarrow> rtos_task"
    by (induction n) (auto simp: upd_task_apply less_Suc_eq)
  then show ?thesis by (simp add: rtos_task_tick_def)
qed

lemma task_tick_count [simp]: "task_count ((rtos_task_tick ^^ m) k) = task_count k"
  by (induction m) (simp_all add: rtos_task_tick_def)

lemma task_ticks_apply:
  "x < unat (task_count k) \<Longrightarrow> tasks ((rtos_task_tick ^^ m) k) x = (tick_block ^^ m) (tasks k x)"
  by (induction m) (simp_all add: task_tick_apply)

lemma tick_block_idle:
  "task_state b \<noteq> RTOS_TASK_BLOCKED \<or> delay_ticks b = 0 \<Longrightarrow> (tick_block ^^ m) b = b"
  by (induction m) (auto simp: tick_block_def)

lemma unat_sub_of_nat: "n \<le> unat (x::u32) \<Longrightarrow> unat (x - of_nat n) = unat x - n"
  using u32_less_max[of x] by (simp add: unat_sub_if' unat_of_nat)

lemma tick_block_counts:
  "task_state b = RTOS_TASK_BLOCKED \<Longrightarrow> m < unat (delay_ticks b) \<Longrightarrow>
     (tick_block ^^ m) b = b\<lparr>delay_ticks := delay_ticks b - of_nat m\<rparr>"
proof (induction m)
  case 0
  then show ?case by simp
next
  case (Suc m)
  have "unat (delay_ticks b - of_nat m) \<noteq> 0" "unat (delay_ticks b - of_nat (Suc m)) \<noteq> 0"
    using Suc.prems(2) by (simp_all add: unat_sub_of_nat del: of_nat_Suc)
  then have "delay_ticks b - of_nat m \<noteq> 0" "delay_ticks b - of_nat m - 1 \<noteq> 0"
    by (auto simp: diff_diff_eq add.commute)
  with Suc show ?case by (simp add: tick_block_def Let_def u32_gt_0 algebra_simps)
qed

lemma tick_block_expires:
  assumes "task_state b = RTOS_TASK_BLOCKED" and "delay_ticks b \<noteq> 0" and "unat (delay_ticks b) \<le> m"
  shows "(tick_block ^^ m) b =
    b\<lparr>delay_ticks := 0, wait_result := RTOS_ERR_TIMEOUT, task_state := RTOS_TASK_READY\<rparr>"
proof -
  obtain d where d: "unat (delay_ticks b) = Suc d"
    using assms(2) by (cases "unat (delay_ticks b)") (auto simp: unat_eq_0)
  have "delay_ticks b - of_nat d = 1"
    using d unat_sub_of_nat[of d "delay_ticks b"] by (intro word_unat_eq_iff[THEN iffD2]) simp
  then have last: "(tick_block ^^ Suc d) b =
      b\<lparr>delay_ticks := 0, wait_result := RTOS_ERR_TIMEOUT, task_state := RTOS_TASK_READY\<rparr>"
    using tick_block_counts[OF assms(1), of d] d assms(1) by (simp add: tick_block_def Let_def)
  obtain j where "m = j + Suc d" using assms(3) d by (metis le_add_diff_inverse2)
  then have "(tick_block ^^ m) b = (tick_block ^^ j) ((tick_block ^^ Suc d) b)"
    by (simp only: funpow_add comp_apply)
  then show ?thesis by (simp only: last) (simp add: tick_block_idle)
qed

text \<open>
  Delays are exact: a blocked task stays blocked, with its delay counting down, for as many
  ticks as it asked for, and the tick that ends the delay makes it ready with a timeout as its
  result; a task that waits for ever (delay 0) is never woken by the tick.
\<close>

lemma delay_exact:
  assumes "t < unat (task_count k)" and "task_state (tasks k t) = RTOS_TASK_BLOCKED"
  shows "tasks ((rtos_task_tick ^^ m) k) t =
    (if delay_ticks (tasks k t) = 0 then tasks k t
     else if m < unat (delay_ticks (tasks k t))
     then (tasks k t)\<lparr>delay_ticks := delay_ticks (tasks k t) - of_nat m\<rparr>
     else (tasks k t)\<lparr>delay_ticks := 0, wait_result := RTOS_ERR_TIMEOUT, task_state := RTOS_TASK_READY\<rparr>)"
  using assms by (simp add: task_ticks_apply tick_block_idle tick_block_counts tick_block_expires)

lemma delay_exact_example:
  "task_state (tasks ((rtos_task_tick ^^ 3) (sample_tasks_kernel\<lparr>tasks := (\<lambda>_. zero_task\<lparr>
     task_state := RTOS_TASK_BLOCKED, delay_ticks := 3\<rparr>)\<rparr>)) 0) = RTOS_TASK_READY"
  by (subst delay_exact) (simp_all add: sample_tasks_kernel_def)

section \<open>Stack guards\<close>

text \<open>The slot the next check looks at, and a number of checks in a row.\<close>

definition guard_cursor :: "kernel \<Rightarrow> nat" where
  "guard_cursor k =
     (if task_count k \<le> stack_guard_check_index k then 0 else unat (stack_guard_check_index k))"

fun guard_checks :: "nat \<Rightarrow> kernel \<Rightarrow> kernel + kernel" where
  "guard_checks 0 k = Inr k"
| "guard_checks (Suc n) k =
     (case rtos_check_stack_guards k of Inl parked \<Rightarrow> Inl parked | Inr k' \<Rightarrow> guard_checks n k')"

lemma guard_ok_index [simp]:
  "rtos_task_stack_guard_ok t (k\<lparr>stack_guard_check_index := i\<rparr>) = rtos_task_stack_guard_ok t k"
  by (cases t) (simp_all add: rtos_task_stack_guard_ok_def Let_def)

lemma guard_check_step:
  assumes "task_count k \<noteq> 0"
  shows "if rtos_task_stack_guard_ok (Some (guard_cursor k)) k = 0
    then \<exists>h. rtos_check_stack_guards k = Inl h
    else \<exists>i. rtos_check_stack_guards k = Inr (k\<lparr>stack_guard_check_index := i\<rparr>) \<and>
      guard_cursor (k\<lparr>stack_guard_check_index := i\<rparr>) = Suc (guard_cursor k) mod unat (task_count k)"
proof -
  define c where "c = (if task_count k \<le> stack_guard_check_index k then 0 else stack_guard_check_index k)"
  have c: "unat c = guard_cursor k" by (simp add: c_def guard_cursor_def)
  have lt: "c < task_count k" using assms by (auto simp: c_def u32_gt_0)
  then have inc: "unat (c + 1) = Suc (unat c)" by (rule unat_inc_u32)
  have "rtos_check_stack_guards k =
    (if rtos_task_stack_guard_ok (Some (unat c)) k = 0
     then Inl (rtos_assert_failed ''rtos_task_stack_guard_ok(&tasks[stack_guard_check_index]) != 0''
       ''kernel/task.c'' 238 (k\<lparr>stack_guard_check_index := c\<rparr>))
     else Inr (k\<lparr>stack_guard_check_index := c + 1\<rparr>))"
    using assms by (auto simp: rtos_check_stack_guards_def c_def)
  moreover have "guard_cursor (k\<lparr>stack_guard_check_index := c + 1\<rparr>) = Suc (unat c) mod unat (task_count k)"
    using lt inc by (auto simp: guard_cursor_def word_le_nat_alt word_less_nat_alt le_less mod_Suc)
  ultimately show ?thesis by (auto simp: c)
qed

lemma guard_checks_sweep:
  assumes "task_count k \<noteq> 0"
  shows "(\<exists>h. guard_checks n k = Inl h) \<longleftrightarrow>
    (\<exists>j < n. rtos_task_stack_guard_ok (Some ((guard_cursor k + j) mod unat (task_count k))) k = 0)"
  using assms
proof (induction n arbitrary: k)
  case 0
  then show ?case by simp
next
  case (Suc n)
  have cur: "guard_cursor k mod unat (task_count k) = guard_cursor k"
    using Suc.prems by (intro mod_less) (auto simp: guard_cursor_def word_le_nat_alt word_less_nat_alt unat_gt_0)
  show ?case
  proof (cases "rtos_task_stack_guard_ok (Some (guard_cursor k)) k = 0")
    case True
    with guard_check_step[OF Suc.prems] cur show ?thesis by (auto intro!: exI[of _ 0])
  next
    case False
    with guard_check_step[OF Suc.prems] obtain i where
      i: "rtos_check_stack_guards k = Inr (k\<lparr>stack_guard_check_index := i\<rparr>)"
      "guard_cursor (k\<lparr>stack_guard_check_index := i\<rparr>) = Suc (guard_cursor k) mod unat (task_count k)" by auto
    have "(\<exists>h. guard_checks (Suc n) k = Inl h) \<longleftrightarrow> (\<exists>j < n. rtos_task_stack_guard_ok
        (Some ((guard_cursor k + Suc j) mod unat (task_count k))) k = 0)"
      using Suc.IH[of "k\<lparr>stack_guard_check_index := i\<rparr>"] Suc.prems i by (simp add: mod_simps)
    with False cur show ?thesis by (auto simp: Ex_less_Suc2)
  qed
qed

lemma all_residues: "x < c \<Longrightarrow> \<exists>j < c. (a + j) mod c = (x::nat)"
proof (cases "a mod c \<le> x")
  case True
  assume "x < c"
  moreover have "(a + (x - a mod c)) mod c = (a mod c + (x - a mod c)) mod c" by (simp add: mod_simps)
  ultimately show ?thesis using True by (intro exI[of _ "x - a mod c"]) auto
next
  case False
  assume "x < c"
  moreover from this have "a mod c < c" by simp
  moreover have "(a + (x + c - a mod c)) mod c = (a mod c + (x + c - a mod c)) mod c" by (simp add: mod_simps)
  ultimately show ?thesis using False by (intro exI[of _ "x + c - a mod c"]) auto
qed



section \<open>Notifications\<close>

lemma minus_two_32 [simp]: "(- 4294967296 :: u32) = 0"
  by (simp add: word_eq_iff_unsigned)



text \<open>
  C28. The start of a notification wait, on every branch. Bits are cleared on entry first; a
  pending notification is then returned with what is left of its value, even when that is 0
  because the entry mask removed every bit, since clearing on entry does not reset the pending
  mark; otherwise a poll times out and any other call blocks the caller. No other task changes.
\<close>

theorem notify_wait_round:
  assumes "current_task k = Some t"
  shows "\<exists>r k'. notify_wait_enter ce cx ms k = Some (r, k') \<and>
    (\<forall>x. x \<noteq> t \<longrightarrow> tasks k' x = tasks k x) \<and>
    (let v = notify_value (tasks k t) AND NOT ce in
     if notify_pending (tasks k t) \<noteq> 0
     then r = Some (RTOS_OK, Some v) \<and> notify_value (tasks k' t) = v AND NOT cx \<and>
       (notify_pending (tasks k' t) = 0 \<longleftrightarrow> v AND NOT cx = 0) \<and>
       task_state (tasks k' t) = task_state (tasks k t)
     else notify_value (tasks k' t) = v \<and> notify_pending (tasks k' t) = 0 \<and>
       (if ms = 0 then r = Some (RTOS_ERR_TIMEOUT, None) \<and> task_state (tasks k' t) = task_state (tasks k t)
        else r = None \<and> live (tasks k') t \<and> wait_type (tasks k' t) = RTOS_WAIT_NOTIFICATION \<and>
          delay_ticks (tasks k' t) = rtos_ms_to_ticks ms \<and> pendsv_pending (port k')))"
  using assms
  by (auto simp: notify_wait_enter_def Let_def notify_clear_def live_def block_for_def upd_task_apply
      port_trigger_pendsv_def)

theorem notify_wait_round_witness:
  "\<exists>k'. notify_wait_enter 0xFFFFFFFF 0 10 (sample_tasks_kernel\<lparr>tasks := (\<lambda>_. zero_task\<lparr>
       notify_value := 6, notify_pending := 1\<rparr>)\<rparr>) = Some (Some (RTOS_OK, Some 0), k')"
  using notify_wait_round[of "sample_tasks_kernel\<lparr>tasks := (\<lambda>_. zero_task\<lparr>
       notify_value := 6, notify_pending := 1\<rparr>)\<rparr>" 0 "0xFFFFFFFF" 0 10]
  by (auto simp: sample_tasks_kernel_def)

end
