(* ===== verification/Work_Queue.thy ===== *)
theory Work_Queue
  imports Bounded_Fifo Tasks
begin

text \<open>
  The deferred work queue (kernel/work.c): a ring of four handler and argument pairs that
  interrupts and tasks submit to, and the task that is notified and runs them. The ring is an
  instance of the bounded buffer contract; draining it is a loop that ends because the handlers
  return, which is a hypothesis on the parameter \<open>call\<close>.
\<close>

section \<open>Operations\<close>

text \<open>The assignments of a successful pop, and the function with its test.\<close>

definition take_work :: "work_ring \<Rightarrow> work_item \<times> work_ring" where
  "take_work w =
     (let item = work_queue w ! unat (work_head w);
          w1 = w\<lparr>work_head := (work_head w + 1) mod RTOS_WORK_QUEUE_LENGTH\<rparr>
      in (item, w1\<lparr>work_pending_items := work_pending_items w1 - 1\<rparr>))"

definition pop_work :: "kernel \<Rightarrow> work_item option \<times> kernel" where
  "pop_work k =
     (if work_pending_items (work k) = 0 then (None, k)
      else (Some (fst (take_work (work k))), k\<lparr>work := snd (take_work (work k))\<rparr>))"

text \<open>The critical section of submit\_common: whether there was room, and the state after it.\<close>

definition put_work :: "u32 \<Rightarrow> u32 \<Rightarrow> kernel \<Rightarrow> bool \<times> kernel" where
  "put_work handler arg k =
     (let k1 = rtos_enter_critical k; w = work k1 in
      if RTOS_WORK_QUEUE_LENGTH \<le> work_pending_items w then
        (False, rtos_exit_critical (k1\<lparr>work := w\<lparr>work_drop_count := work_drop_count w + 1\<rparr>\<rparr>))
      else
        let w1 = w\<lparr>work_queue := (work_queue w)[unat (work_tail w) := \<lparr>wi_handler = handler, wi_arg = arg\<rparr>]\<rparr>;
            w2 = w1\<lparr>work_tail := (work_tail w1 + 1) mod RTOS_WORK_QUEUE_LENGTH\<rparr>;
            w3 = w2\<lparr>work_pending_items := work_pending_items w2 + 1\<rparr>;
            k2 = rtos_trace_record RTOS_TRACE_WORK_SUBMIT handler arg (k1\<lparr>work := w3\<rparr>)
        in (True, rtos_exit_critical k2))"

definition submit_common :: "u32 \<Rightarrow> u32 \<Rightarrow> kernel \<Rightarrow> int \<times> kernel" where
  "submit_common handler arg k =
     (if handler = 0 then (RTOS_ERR_INVALID, k)
      else case put_work handler arg k of
        (False, k1) \<Rightarrow> (RTOS_ERR_FULL, k1)
      | (True, k1) \<Rightarrow>
          (RTOS_OK, if work_task_handle (work k1) \<noteq> None
                    then snd (rtos_task_notify (work_task_handle (work k1)) 1 k1) else k1))"

definition rtos_work_submit :: "u32 \<Rightarrow> u32 \<Rightarrow> kernel \<Rightarrow> int \<times> kernel" where
  "rtos_work_submit handler arg k = submit_common handler arg k"

definition rtos_work_submit_isr :: "u32 \<Rightarrow> u32 \<Rightarrow> kernel \<Rightarrow> int \<times> kernel" where
  "rtos_work_submit_isr handler arg k = submit_common handler arg k"

text \<open>The handle of the new task is stored in \<open>work_task_handle\<close> when there is one.\<close>

definition rtos_work_init :: "kernel \<Rightarrow> (kernel + int \<times> kernel) option" where
  "rtos_work_init k =
     map_option (map_sum id (\<lambda>(r, h, k').
         (r, if h = None then k' else k'\<lparr>work := (work k')\<lparr>work_task_handle := h\<rparr>\<rparr>)))
       (rtos_task_create_named_handle (addr_work_task (linked_at k)) 0 RTOS_DEFAULT_PRIORITY (Some ''work'') k)"

text \<open>The inner loop of the work task, which ends when the queue is empty.\<close>

partial_function (option) work_drain :: "callbacks \<Rightarrow> kernel \<Rightarrow> kernel option" where
  "work_drain call k =
     (case fst (pop_work (rtos_enter_critical k)) of
        None \<Rightarrow> Some (rtos_exit_critical (snd (pop_work (rtos_enter_critical k))))
      | Some item \<Rightarrow> do {
          k1 \<leftarrow> call (wi_handler item) (wi_arg item)
                 (rtos_exit_critical (snd (pop_work (rtos_enter_critical k))));
          work_drain call (rtos_trace_record RTOS_TRACE_WORK_RUN (wi_handler item) (wi_arg item) k1)
        })"

text \<open>One turn of the outer loop: wait for a notification, then drain.\<close>

definition work_task_turn :: "callbacks \<Rightarrow> suspension \<Rightarrow> kernel \<Rightarrow> kernel option" where
  "work_task_turn call suspend k = do {
     (_, k1) \<leftarrow> rtos_task_notify_wait 0 0xFFFFFFFF RTOS_TIMEOUT_FOREVER suspend k;
     work_drain call k1
   }"

section \<open>The ring\<close>

definition work_ok :: "work_ring \<Rightarrow> bool" where
  "work_ok w \<longleftrightarrow> length (work_queue w) = 4 \<and> unat (work_head w) < 4 \<and> unat (work_pending_items w) \<le> 4 \<and>
     unat (work_tail w) = (unat (work_head w) + unat (work_pending_items w)) mod 4"

definition work_items :: "work_ring \<Rightarrow> work_item list" where
  "work_items w = ring_list ((!) (work_queue w)) (unat (work_head w)) (unat (work_pending_items w)) 4"

lemma work_drop_count_irrelevant [simp]:
  "work_ok (w\<lparr>work_drop_count := n\<rparr>) = work_ok w" "work_items (w\<lparr>work_drop_count := n\<rparr>) = work_items w"
  "work_ok (w\<lparr>work_task_handle := h\<rparr>) = work_ok w" "work_items (w\<lparr>work_task_handle := h\<rparr>) = work_items w"
  by (simp_all add: work_ok_def work_items_def)

lemma work_items_Nil: "work_items w = [] \<longleftrightarrow> work_pending_items w = 0"
  by (simp add: work_items_def unat_eq_0)

lemma length_work_items [simp]: "length (work_items w) = unat (work_pending_items w)"
  by (simp add: work_items_def)

lemma wrap_4: "unat (i::u32) < 4 \<Longrightarrow> unat ((i + 1) mod 4) = Suc (unat i) mod 4"
  using u32_wrap_index[of i 4] by simp

lemma take_work_correct:
  assumes "work_ok w" and "work_pending_items w \<noteq> 0"
  shows "work_items w = fst (take_work w) # work_items (snd (take_work w)) \<and> work_ok (snd (take_work w)) \<and>
    work_drop_count (snd (take_work w)) = work_drop_count w \<and>
    work_task_handle (snd (take_work w)) = work_task_handle w"
proof -
  obtain n where n: "unat (work_pending_items w) = Suc n" "unat (work_pending_items w - 1) = n"
    using assms(2) by (cases "unat (work_pending_items w)") (auto simp: unat_eq_0 unat_pred_u32)
  have h: "unat ((work_head w + 1) mod 4) = Suc (unat (work_head w)) mod 4"
    using assms(1) by (intro wrap_4) (simp add: work_ok_def)
  have "unat (work_head w) mod 4 = unat (work_head w)" using assms(1) by (simp add: work_ok_def)
  then have "work_items w = fst (take_work w) # work_items (snd (take_work w))"
    using ring_get[of "(!) (work_queue w)" "unat (work_head w)" n 4]
    by (simp add: work_items_def take_work_def Let_def n h)
  moreover have "work_ok (snd (take_work w))"
    using assms(1) by (auto simp: work_ok_def take_work_def Let_def n h mod_simps)
  ultimately show ?thesis by (simp add: take_work_def Let_def)
qed

lemma pop_work_frame [simp]:
  "tasks (snd (pop_work k)) = tasks k" "port (snd (pop_work k)) = port k"
  by (simp_all add: pop_work_def)

text \<open>What the critical section of a submission does to the ring.\<close>

lemma put_work_full:
  "4 \<le> work_pending_items (work k) \<Longrightarrow> fst (put_work h a k) = False \<and>
     work (snd (put_work h a k)) = (work k)\<lparr>work_drop_count := work_drop_count (work k) + 1\<rparr> \<and>
     tasks (snd (put_work h a k)) = tasks k"
  by (simp add: put_work_def Let_def)

lemma put_work_room:
  assumes "work_ok (work k)" and "work_pending_items (work k) < 4"
  shows "fst (put_work h a k) \<and> work_ok (work (snd (put_work h a k))) \<and>
    work_items (work (snd (put_work h a k))) = work_items (work k) @ [\<lparr>wi_handler = h, wi_arg = a\<rparr>] \<and>
    work_drop_count (work (snd (put_work h a k))) = work_drop_count (work k) \<and>
    work_task_handle (work (snd (put_work h a k))) = work_task_handle (work k) \<and>
    tasks (snd (put_work h a k)) = tasks k"
proof -
  let ?w = "work k" and ?i = "\<lparr>wi_handler = h, wi_arg = a\<rparr>"
  let ?w' = "?w\<lparr>work_queue := (work_queue ?w)[unat (work_tail ?w) := ?i],
    work_tail := (work_tail ?w + 1) mod 4, work_pending_items := work_pending_items ?w + 1\<rparr>"
  have w': "work (snd (put_work h a k)) = ?w'" "fst (put_work h a k)" "tasks (snd (put_work h a k)) = tasks k"
    using assms(2) by (simp_all add: put_work_def Let_def not_le)
  have n: "unat (work_pending_items ?w) < 4" "unat (work_pending_items ?w + 1) = Suc (unat (work_pending_items ?w))"
    using assms(2) unat_inc_u32[OF assms(2)] by (simp_all add: word_less_nat_alt)
  have t: "unat (work_tail ?w) = (unat (work_head ?w) + unat (work_pending_items ?w)) mod 4"
    and len: "length (work_queue ?w) = 4" using assms(1) by (simp_all add: work_ok_def)
  have "ring_list ((!) ((work_queue ?w)[unat (work_tail ?w) := ?i])) (unat (work_head ?w)) (Suc (unat (work_pending_items ?w))) 4 =
      ring_list (((!) (work_queue ?w))(unat (work_tail ?w) := ?i)) (unat (work_head ?w)) (Suc (unat (work_pending_items ?w))) 4"
    by (rule ring_list_cong) (simp_all add: len nth_list_update)
  also have "\<dots> = work_items ?w @ [?i]"
    unfolding t work_items_def by (rule ring_put[OF n(1)])
  finally have "work_items ?w' = work_items ?w @ [?i]" by (simp add: work_items_def n)
  moreover have "work_ok ?w'"
    using assms(1) n by (simp add: work_ok_def wrap_4 mod_simps)
  ultimately show ?thesis using w' by simp
qed

section \<open>The bounded buffer contract\<close>

lemma notify_work [simp]: "work (snd (rtos_task_notify t v k)) = work k"
  by (simp add: rtos_task_notify_def notify_common_def Let_def split: option.splits)

text \<open>A submission seen as the put of a buffer; an item with a handler is always well formed.\<close>

definition submits :: "work_item \<Rightarrow> kernel \<Rightarrow> bool \<times> kernel" where
  "submits item k =
     (let (r, k') = rtos_work_submit (wi_handler item) (wi_arg item) k in (r = RTOS_OK, k'))"

text \<open>The same without the test for a null handler, which the contract of a buffer leaves out.\<close>

definition accepts :: "work_item \<Rightarrow> kernel \<Rightarrow> bool \<times> kernel" where
  "accepts item k =
     (let (ok, k1) = put_work (wi_handler item) (wi_arg item) k
      in (ok, if ok \<and> work_task_handle (work k1) \<noteq> None
              then snd (rtos_task_notify (work_task_handle (work k1)) 1 k1) else k1))"

lemma submits_accepts: "wi_handler item \<noteq> 0 \<Longrightarrow> submits item k = accepts item k"
  by (auto simp: submits_def accepts_def rtos_work_submit_def submit_common_def Let_def split: prod.splits bool.splits)

lemma accepts_work:
  "fst (accepts i k) = fst (put_work (wi_handler i) (wi_arg i) k)"
  "work (snd (accepts i k)) = work (snd (put_work (wi_handler i) (wi_arg i) k))"
  by (simp_all add: accepts_def split: prod.splits)

interpretation work_fifo: bounded_fifo "\<lambda>k. work_ok (work k)" "\<lambda>k. work_items (work k)" "\<lambda>_. 4"
  accepts pop_work
proof (unfold_locales, goal_cases)
  case (1 k)
  then show ?case by (simp add: work_ok_def)
next
  case (2 k i)
  then have "work_pending_items (work k) < 4" by (simp add: word_less_nat_alt)
  from put_work_room[OF 2(1) this, of "wi_handler i" "wi_arg i"] show ?case
    by (intro exI[of _ "snd (accepts i k)"]) (simp add: prod_eq_iff accepts_work)
next
  case (3 k i)
  then have "4 \<le> work_pending_items (work k)" by (simp add: word_le_nat_alt)
  from put_work_full[OF this, of "wi_handler i" "wi_arg i"] 3(1) show ?case
    by (intro exI[of _ "snd (accepts i k)"]) (simp add: prod_eq_iff accepts_work)
next
  case (4 k y ys)
  then have "work_pending_items (work k) \<noteq> 0" using work_items_Nil[of "work k"] by auto
  from take_work_correct[OF 4(1) this] 4(2) this show ?case by (simp add: pop_work_def)
next
  case (5 k)
  then show ?case by (simp add: pop_work_def work_items_Nil)
qed

section \<open>Draining\<close>

text \<open>
  Handlers that return and leave the queue alone, watched through a log \<open>obs\<close> that is not part of
  the port, the trace, the tasks or the queue.
\<close>

definition handlers_return :: "callbacks \<Rightarrow> (kernel \<Rightarrow> (u32 \<times> u32) list) \<Rightarrow> bool" where
  "handlers_return call obs \<longleftrightarrow>
     (\<forall>f a k. \<exists>k'. call f a k = Some k' \<and> work k' = work k \<and> tasks k' = tasks k \<and> obs k' = obs k @ [(f, a)]) \<and>
     (\<forall>k p. obs (k\<lparr>port := p\<rparr>) = obs k) \<and> (\<forall>k ts. obs (k\<lparr>tasks := ts\<rparr>) = obs k) \<and>
     (\<forall>k w. obs (k\<lparr>work := w\<rparr>) = obs k) \<and> (\<forall>k tr. obs (k\<lparr>trace := tr\<rparr>) = obs k)"

abbreviation item_call :: "work_item \<Rightarrow> u32 \<times> u32" where
  "item_call i \<equiv> (wi_handler i, wi_arg i)"

lemma obs_port: "handlers_return call obs \<Longrightarrow> obs (k\<lparr>port := p\<rparr>) = obs k"
  and obs_work: "handlers_return call obs \<Longrightarrow> obs (k\<lparr>work := w\<rparr>) = obs k"
  and obs_tasks: "handlers_return call obs \<Longrightarrow> obs (k\<lparr>tasks := ts\<rparr>) = obs k"
  by (simp_all add: handlers_return_def)

lemma obs_trace: "handlers_return call obs \<Longrightarrow> obs (rtos_trace_record e a b k) = obs k"
  by (simp add: handlers_return_def rtos_trace_record_def record_common_def Let_def)

lemma work_drain_runs:
  assumes "handlers_return call obs" and "work_ok (work k)"
  shows "\<exists>k'. work_drain call k = Some k' \<and> obs k' = obs k @ map item_call (work_items (work k)) \<and>
    work_ok (work k') \<and> work_items (work k') = [] \<and> tasks k' = tasks k"
  using assms(2)
proof (induction "work_items (work k)" arbitrary: k)
  case Nil
  then have "work_pending_items (work k) = 0" by (metis work_items_Nil)
  then show ?case
    using assms(1) Nil by (subst work_drain.simps) (simp add: pop_work_def handlers_return_def)
next
  case (Cons i js)
  then have nz: "work_pending_items (work k) \<noteq> 0" using work_items_Nil[of "work k"] by auto
  note t = take_work_correct[OF Cons.prems nz]
  let ?k1 = "rtos_exit_critical (snd (pop_work (rtos_enter_critical k)))"
  have i: "fst (pop_work (rtos_enter_critical k)) = Some i" and w1: "work ?k1 = snd (take_work (work k))"
    "tasks ?k1 = tasks k" and is1: "work_items (snd (take_work (work k))) = js"
    using t nz Cons.hyps(2) by (simp_all add: pop_work_def)
  have o1: "obs ?k1 = obs k" using assms(1) by (simp add: pop_work_def handlers_return_def)
  obtain k2 where k2: "call (wi_handler i) (wi_arg i) ?k1 = Some k2" "work k2 = work ?k1" "tasks k2 = tasks ?k1"
    "obs k2 = obs ?k1 @ [item_call i]"
    using assms(1) unfolding handlers_return_def by blast
  let ?k3 = "rtos_trace_record RTOS_TRACE_WORK_RUN (wi_handler i) (wi_arg i) k2"
  have "js = work_items (work ?k3)" "work_ok (work ?k3)" using k2 w1 is1 t by simp_all
  from Cons.hyps(1)[OF this] obtain k' where k': "work_drain call ?k3 = Some k'"
    "obs k' = obs ?k3 @ map item_call js" "work_ok (work k')" "work_items (work k') = []" "tasks k' = tasks ?k3"
    using is1 k2 w1 by auto
  have "work_drain call k = Some k'"
    by (subst work_drain.simps) (simp only: i option.case k2(1) bind.bind_lunit k'(1))
  with k' k2 w1 o1 Cons.hyps(2)[symmetric] obs_trace[OF assms(1)] show ?case by simp
qed

section \<open>From a submission to its handler\<close>

lemma put_work_current: "current_task (snd (put_work h a k)) = current_task k"
  by (simp add: put_work_def Let_def)

lemma put_work_obs: "handlers_return call obs \<Longrightarrow> obs (snd (put_work h a k)) = obs k"
  by (simp add: put_work_def Let_def obs_trace obs_port obs_work)

lemma submit_queued:
  assumes "handlers_return call obs" and "work_ok (work k)" and "work_task_handle (work k) = Some t"
    and "length (work_items (work k)) < 4" and "h \<noteq> 0"
  obtains k' where "rtos_work_submit h a k = (RTOS_OK, k')" "work_ok (work k')"
    "work_items (work k') = work_items (work k) @ [\<lparr>wi_handler = h, wi_arg = a\<rparr>]" "obs k' = obs k"
    "current_task k' = current_task k" "notify_pending (tasks k' t) = 1"
    "wait_result (tasks k t) = RTOS_OK \<Longrightarrow> wait_result (tasks k' t) = RTOS_OK"
proof -
  have lt: "work_pending_items (work k) < 4" using assms(4) by (simp add: word_less_nat_alt)
  note p = put_work_room[OF assms(2) lt, of h a]
  obtain k1 where k1: "put_work h a k = (True, k1)" using p by (cases "put_work h a k") auto
  have c1: "current_task k1 = current_task k" "obs k1 = obs k"
    using put_work_current[of h a k] put_work_obs[OF assms(1), of h a k] k1 by simp_all
  let ?k2 = "snd (rtos_task_notify (Some t) 1 k1)"
  have "rtos_work_submit h a k = (RTOS_OK, ?k2)"
    using p k1 assms(3,5) by (simp add: rtos_work_submit_def submit_common_def)
  moreover have "obs ?k2 = obs k1"
    using assms(1) by (simp add: rtos_task_notify_def notify_common_def Let_def obs_port obs_tasks obs_trace)
  moreover have "current_task ?k2 = current_task k1" "notify_pending (tasks ?k2 t) = 1"
    "wait_result (tasks k1 t) = RTOS_OK \<Longrightarrow> wait_result (tasks ?k2 t) = RTOS_OK"
    by (simp_all add: rtos_task_notify_def notify_common_def Let_def)
  moreover have "tasks k1 t = tasks k t" using p k1 by simp
  ultimately show ?thesis using p k1 c1 by (intro that[of ?k2]) simp_all
qed

lemma wait_pending:
  assumes "handlers_return call obs" and "current_task k = Some t" and "notify_pending (tasks k t) = 1"
  shows "\<exists>r k'. notify_wait_enter 0 cx ms k = Some (Some r, k') \<and> work k' = work k \<and> obs k' = obs k"
  using assms by (simp add: notify_wait_enter_def Let_def obs_port obs_tasks)

lemma wait_blocks:
  assumes "handlers_return call obs" and "current_task k = Some t" and "notify_pending (tasks k t) = 0" and "ms \<noteq> 0"
  shows "\<exists>k'. notify_wait_enter 0 cx ms k = Some (None, k') \<and> work k' = work k \<and> obs k' = obs k \<and>
    current_task k' = Some t \<and> wait_result (tasks k' t) = RTOS_OK"
  using assms by (simp add: notify_wait_enter_def Let_def obs_port obs_tasks block_for_def)

lemma wait_resumes:
  assumes "handlers_return call obs"
  shows "\<exists>r k'. notify_wait_resume cx t k = (r, k') \<and> work k' = work k \<and> obs k' = obs k"
  using assms by (simp add: notify_wait_resume_def Let_def obs_port obs_tasks)

section \<open>Properties\<close>

text \<open>
  C37. The work queue is first in, first out: along any interleaving of submissions and pops, what
  was queued and what was accepted is what was popped and what is still queued, in order; no
  more than four items are ever held.
\<close>

theorem work_queue_fifo:
  assumes "work_ok (work k)" and "\<forall>i. Put i \<in> set cs \<longrightarrow> wi_handler i \<noteq> 0"
    and "fifo_run submits pop_work cs k = (ins, outs, k')"
  shows "work_items (work k) @ ins = outs @ work_items (work k') \<and> work_ok (work k') \<and>
    length (work_items (work k')) \<le> 4"
proof -
  have "fifo_run submits pop_work cs k = fifo_run accepts pop_work cs k"
    using assms(2) by (intro fifo_run_cong submits_accepts) blast
  with assms(3) work_fifo.run_fifo[OF assms(1), of cs ins outs k'] show ?thesis by simp
qed

text \<open>Interrupts not yet set up, the worker is task 0 and runs; the log is kept in the snapshots.\<close>

definition sample_work_kernel :: kernel where
  "sample_work_kernel = (zero_kernel sample_image)\<lparr>task_count := 1, current_task := Some 0,
     work := \<lparr>work_queue = replicate 4 \<lparr>wi_handler = 0, wi_arg = 0\<rparr>, work_head = 0, work_tail = 0,
       work_task_handle = Some 0, work_pending_items = 0, work_drop_count = 0\<rparr>, debug_snapshots := []\<rparr>"

lemma sample_work_ok: "work_ok (work sample_work_kernel)" "work_items (work sample_work_kernel) = []"
  by (simp_all add: sample_work_kernel_def work_ok_def work_items_def)

theorem work_queue_fifo_witness:
  "\<exists>ins outs k'. fifo_run submits pop_work [Put \<lparr>wi_handler = 1, wi_arg = 5\<rparr>, Put \<lparr>wi_handler = 2, wi_arg = 6\<rparr>, Get]
     sample_work_kernel = (ins, outs, k') \<and> ins = outs @ work_items (work k')"
proof -
  obtain ins outs k' where r: "fifo_run submits pop_work [Put \<lparr>wi_handler = 1, wi_arg = 5\<rparr>,
    Put \<lparr>wi_handler = 2, wi_arg = 6\<rparr>, Get] sample_work_kernel = (ins, outs, k')" by (metis prod_cases3)
  from work_queue_fifo[OF sample_work_ok(1) _ r] sample_work_ok(2) r show ?thesis by auto
qed

text \<open>
  C36. A submission, on every branch. A null handler is refused and nothing changes; a full queue
  refuses the item, counts the drop and disturbs nobody; otherwise the item is queued last, the
  worker has a notification pending and, if it was waiting for one, is ready to run.
\<close>

theorem work_submit_round:
  assumes "work_ok (work k)"
  shows "case rtos_work_submit h a k of (r, k') \<Rightarrow>
    if h = 0 then r = RTOS_ERR_INVALID \<and> k' = k
    else if length (work_items (work k)) = 4 then r = RTOS_ERR_FULL \<and> tasks k' = tasks k \<and>
      work k' = (work k)\<lparr>work_drop_count := work_drop_count (work k) + 1\<rparr>
    else r = RTOS_OK \<and> work_ok (work k') \<and>
      work_items (work k') = work_items (work k) @ [\<lparr>wi_handler = h, wi_arg = a\<rparr>] \<and>
      work_drop_count (work k') = work_drop_count (work k) \<and>
      (\<forall>x. work_task_handle (work k) \<noteq> Some x \<longrightarrow> tasks k' x = tasks k x) \<and>
      (\<forall>t. work_task_handle (work k) = Some t \<longrightarrow> notify_pending (tasks k' t) = 1 \<and>
         (live (tasks k) t \<and> wait_type (tasks k t) = RTOS_WAIT_NOTIFICATION \<longrightarrow>
            task_state (tasks k' t) = RTOS_TASK_READY \<and> pendsv_pending (port k')))"
proof (cases "h = 0")
  case True
  then show ?thesis by (simp add: rtos_work_submit_def submit_common_def)
next
  case h: False
  have le: "unat (work_pending_items (work k)) \<le> 4" using assms by (simp add: work_ok_def)
  show ?thesis
  proof (cases "length (work_items (work k)) = 4")
    case True
    then have "4 \<le> work_pending_items (work k)" by (simp add: word_le_nat_alt)
    note f = put_work_full[OF this, of h a]
    obtain k1 where "put_work h a k = (False, k1)" using f by (cases "put_work h a k") auto
    with f h True show ?thesis by (simp add: rtos_work_submit_def submit_common_def)
  next
    case False
    then have "work_pending_items (work k) < 4" using le by (simp add: word_less_nat_alt)
    note p = put_work_room[OF assms this, of h a]
    obtain k1 where k1: "put_work h a k = (True, k1)" using p by (cases "put_work h a k") auto
    show ?thesis
    proof (cases "work_task_handle (work k)")
      case None
      with p k1 h False show ?thesis by (simp add: rtos_work_submit_def submit_common_def)
    next
      case (Some t)
      have n: "(\<forall>x. x \<noteq> t \<longrightarrow> tasks (snd (rtos_task_notify (Some t) 1 k1)) x = tasks k x) \<and>
          notify_pending (tasks (snd (rtos_task_notify (Some t) 1 k1)) t) = 1 \<and>
          (live (tasks k) t \<and> wait_type (tasks k t) = RTOS_WAIT_NOTIFICATION \<longrightarrow>
            task_state (tasks (snd (rtos_task_notify (Some t) 1 k1)) t) = RTOS_TASK_READY \<and>
            pendsv_pending (port (snd (rtos_task_notify (Some t) 1 k1))))"
        using p k1 by (simp add: rtos_task_notify_def notify_common_def Let_def live_def)
      have "rtos_work_submit h a k = (RTOS_OK, snd (rtos_task_notify (Some t) 1 k1))"
        using p k1 h Some by (simp add: rtos_work_submit_def submit_common_def)
      with p k1 h False Some n show ?thesis by auto
    qed
  qed
qed

theorem work_submit_round_witness:
  "\<exists>k'. rtos_work_submit 0x08001000 7 sample_work_kernel = (RTOS_OK, k') \<and>
     work_items (work k') = [\<lparr>wi_handler = 0x08001000, wi_arg = 7\<rparr>]"
  using work_submit_round[OF sample_work_ok(1), of "0x08001000" 7] sample_work_ok(2)
  by (auto split: prod.splits)



text \<open>Handlers that write a line to the snapshots, as a log.\<close>

definition sample_handlers :: callbacks where
  "sample_handlers f a k = Some (k\<lparr>debug_snapshots := debug_snapshots k @ [\<lparr>sn_name = None, sn_task = None,
     sn_sp = f, sn_stack_base = a, sn_stack_words = 0, sn_stack_used_words = 0, sn_delay_ticks = 0,
     sn_base_priority = 0, sn_priority = 0, sn_state = RTOS_TASK_READY, sn_wait_result = 0,
     sn_stack_guard_ok = 0, sn_switch_count = 0, sn_run_ticks = 0\<rparr>]\<rparr>)"

definition sample_handler_log :: "kernel \<Rightarrow> (u32 \<times> u32) list" where
  "sample_handler_log k = map (\<lambda>s. (sn_sp s, sn_stack_base s)) (debug_snapshots k)"

lemma sample_handlers_return: "handlers_return sample_handlers sample_handler_log"
  by (simp add: handlers_return_def sample_handlers_def sample_handler_log_def)


end
