(* ===== verification/Soft_Timer.thy ===== *)
theory Soft_Timer
  imports Object_Registry Ticks
begin

text \<open>
  Software timers (kernel/timer.c): a list of timers threaded through \<open>next\<close>, which the tick
  handler walks once per tick. A timer whose count reaches zero has its callback run, in the
  middle of the walk; then it is reloaded or deactivated.
\<close>

section \<open>Operations\<close>

definition upd_timer :: "u32 \<Rightarrow> (rtos_timer \<Rightarrow> rtos_timer) \<Rightarrow> kernel \<Rightarrow> kernel" where
  "upd_timer t f k = k\<lparr>timers := (timers k)(t := f (timers k t))\<rparr>"

definition link_timer :: "u32 \<Rightarrow> kernel \<Rightarrow> kernel" where
  "link_timer t k =
     (if tm_linked (timers k t) \<noteq> 0 then k
      else let k1 = upd_timer t (\<lambda>b. b\<lparr>tm_next := timer_list k\<rparr>) k;
               k2 = k1\<lparr>timer_list := t\<rparr>
           in upd_timer t (\<lambda>b. b\<lparr>tm_linked := 1\<rparr>) k2)"

definition rtos_timer_init :: "u32 \<Rightarrow> u32 \<Rightarrow> u32 \<Rightarrow> u32 \<Rightarrow> u32 \<Rightarrow> kernel \<Rightarrow> int \<times> kernel" where
  "rtos_timer_init t period_ms reload callback arg k =
     (if t = 0 \<or> period_ms = 0 \<or> callback = 0 then (RTOS_ERR_INVALID, k)
      else let period = rtos_ms_to_ticks period_ms in
        if period = 0 then (RTOS_ERR_INVALID, k)
        else let k1 = rtos_enter_critical k;
                 k2 = upd_timer t (\<lambda>b. b\<lparr>tm_period_ticks := period, tm_remaining_ticks := period,
                        tm_reload := reload, tm_active := 0, tm_callback := callback, tm_arg := arg\<rparr>) k1;
                 k3 = link_timer t k2;
                 k4 = snd (rtos_object_register t RTOS_OBJECT_TIMER k3)
             in (RTOS_OK, rtos_exit_critical k4))"

definition rtos_timer_start :: "u32 \<Rightarrow> kernel \<Rightarrow> int \<times> kernel" where
  "rtos_timer_start t k =
     (if t = 0 \<or> tm_callback (timers k t) = 0 then (RTOS_ERR_INVALID, k)
      else let k1 = rtos_enter_critical k;
               k2 = link_timer t k1;
               k3 = upd_timer t (\<lambda>b. b\<lparr>tm_remaining_ticks := tm_period_ticks b, tm_active := 1\<rparr>) k2
           in (RTOS_OK, rtos_exit_critical k3))"

definition rtos_timer_stop :: "u32 \<Rightarrow> kernel \<Rightarrow> int \<times> kernel" where
  "rtos_timer_stop t k =
     (if t = 0 then (RTOS_ERR_INVALID, k)
      else let k1 = rtos_enter_critical k;
               k2 = upd_timer t (\<lambda>b. b\<lparr>tm_active := 0\<rparr>) k1
           in (RTOS_OK, rtos_exit_critical k2))"

text \<open>The body of the loop of rtos\_timer\_tick, for the timer at \<open>t\<close>.\<close>

definition timer_step :: "callbacks \<Rightarrow> u32 \<Rightarrow> kernel \<Rightarrow> kernel option" where
  "timer_step call t k =
     (if tm_active (timers k t) \<noteq> 0 \<and> 0 < tm_remaining_ticks (timers k t) then
        let k1 = upd_timer t (\<lambda>b. b\<lparr>tm_remaining_ticks := tm_remaining_ticks b - 1\<rparr>) k in
        if tm_remaining_ticks (timers k1 t) = 0 then do {
          k2 \<leftarrow> call (tm_callback (timers k1 t)) (tm_arg (timers k1 t)) k1;
          Some (if tm_reload (timers k2 t) \<noteq> 0
                then upd_timer t (\<lambda>b. b\<lparr>tm_remaining_ticks := tm_period_ticks b\<rparr>) k2
                else upd_timer t (\<lambda>b. b\<lparr>tm_active := 0\<rparr>) k2)
        }
        else Some k1
      else Some k)"

partial_function (option) timer_scan :: "callbacks \<Rightarrow> u32 \<Rightarrow> kernel \<Rightarrow> kernel option" where
  "timer_scan call t k =
     (if t = 0 then Some k
      else do {
        k' \<leftarrow> timer_step call t k;
        timer_scan call (tm_next (timers k' t)) k'
      })"

definition rtos_timer_tick :: "callbacks \<Rightarrow> kernel \<Rightarrow> kernel option" where
  "rtos_timer_tick call k = timer_scan call (timer_list k) k"

section \<open>The list of timers\<close>

text \<open>The list holds exactly the timers marked as linked, each once.\<close>

definition timers_listed :: "kernel \<Rightarrow> u32 list \<Rightarrow> bool" where
  "timers_listed k xs \<longleftrightarrow>
     linked (\<lambda>t. pointer (tm_next (timers k t))) (pointer (timer_list k)) xs \<and> 0 \<notin> set xs \<and>
     (\<forall>t. t \<noteq> 0 \<longrightarrow> (tm_linked (timers k t) \<noteq> 0 \<longleftrightarrow> t \<in> set xs))"

lemma upd_timer_fields [simp]:
  "timer_list (upd_timer t f k) = timer_list k" "port (upd_timer t f k) = port k"
  "timers (upd_timer t f k) t = f (timers k t)"
  "s \<noteq> t \<Longrightarrow> timers (upd_timer t f k) s = timers k s"
  by (simp_all add: upd_timer_def)

lemma timers_listed_cong:
  assumes "timer_list k' = timer_list k" and "\<And>t. tm_next (timers k' t) = tm_next (timers k t)"
    and "\<And>t. tm_linked (timers k' t) = tm_linked (timers k t)"
  shows "timers_listed k' xs = timers_listed k xs"
  by (simp add: timers_listed_def assms)

lemma timers_listed_upd:
  "(\<And>b. tm_next (f b) = tm_next b) \<Longrightarrow> (\<And>b. tm_linked (f b) = tm_linked b) \<Longrightarrow>
     timers_listed (upd_timer t f k) xs = timers_listed k xs"
  by (rule timers_listed_cong) (simp_all add: upd_timer_def)

lemma link_timer_listed:
  assumes "timers_listed k xs" and "t \<noteq> 0"
  shows "timers_listed (link_timer t k) (if t \<in> set xs then xs else t # xs)"
proof (cases "t \<in> set xs")
  case True
  with assms have "link_timer t k = k" by (simp add: timers_listed_def link_timer_def)
  with True assms show ?thesis by simp
next
  case False
  with assms have un: "tm_linked (timers k t) = 0" by (auto simp: timers_listed_def)
  let ?k' = "link_timer t k"
  have next': "(\<lambda>s. pointer (tm_next (timers ?k' s))) =
      (\<lambda>s. pointer (tm_next (timers k s)))(t := pointer (timer_list k))"
    using un by (auto simp: link_timer_def Let_def upd_timer_def)
  have "timer_list ?k' = t" using un by (simp add: link_timer_def Let_def)
  moreover have "tm_linked (timers ?k' s) = (if s = t then 1 else tm_linked (timers k s))" for s
    using un by (simp add: link_timer_def Let_def upd_timer_def)
  ultimately show ?thesis
    using False assms by (simp add: timers_listed_def next')
qed

section \<open>One tick\<close>

text \<open>
  Callbacks that leave the timers alone, watched through a log: \<open>obs\<close> reads from the state, outside
  the timers, which callbacks have run with which argument.
\<close>

definition observes :: "callbacks \<Rightarrow> (kernel \<Rightarrow> (u32 \<times> u32) list) \<Rightarrow> bool" where
  "observes call obs \<longleftrightarrow>
     (\<forall>f a k. \<exists>k'. call f a k = Some k' \<and> timers k' = timers k \<and> timer_list k' = timer_list k \<and>
        obs k' = obs k @ [(f, a)]) \<and>
     (\<forall>k x. obs (k\<lparr>timers := x\<rparr>) = obs k)"

text \<open>A timer that fires in the next tick, and what a tick does to a timer.\<close>

definition due :: "rtos_timer \<Rightarrow> bool" where
  "due b \<longleftrightarrow> tm_active b \<noteq> 0 \<and> tm_remaining_ticks b = 1"

definition tick_timer :: "rtos_timer \<Rightarrow> rtos_timer" where
  "tick_timer b =
     (if tm_active b \<noteq> 0 \<and> tm_remaining_ticks b \<noteq> 0 then
        (if tm_remaining_ticks b \<noteq> 1 then b\<lparr>tm_remaining_ticks := tm_remaining_ticks b - 1\<rparr>
         else if tm_reload b \<noteq> 0 then b\<lparr>tm_remaining_ticks := tm_period_ticks b\<rparr>
         else b\<lparr>tm_remaining_ticks := 0, tm_active := 0\<rparr>)
      else b)"

lemma tick_timer_fields [simp]:
  "tm_next (tick_timer b) = tm_next b" "tm_period_ticks (tick_timer b) = tm_period_ticks b"
  "tm_reload (tick_timer b) = tm_reload b" "tm_linked (tick_timer b) = tm_linked b"
  "tm_callback (tick_timer b) = tm_callback b" "tm_arg (tick_timer b) = tm_arg b"
  by (simp_all add: tick_timer_def)

lemma timer_step_observed:
  assumes "observes call obs"
  shows "\<exists>k'. timer_step call t k = Some k' \<and> timers k' = (timers k)(t := tick_timer (timers k t)) \<and>
    timer_list k' = timer_list k \<and>
    obs k' = obs k @ (if due (timers k t) then [(tm_callback (timers k t), tm_arg (timers k t))] else [])"
proof -
  have obs: "obs (upd_timer t f k1) = obs k1" for f k1
    using assms by (simp add: observes_def upd_timer_def)
  consider (idle) "tm_active (timers k t) = 0 \<or> tm_remaining_ticks (timers k t) = 0"
    | (count) "tm_active (timers k t) \<noteq> 0" "tm_remaining_ticks (timers k t) \<noteq> 0" "tm_remaining_ticks (timers k t) \<noteq> 1"
    | (fire) "tm_active (timers k t) \<noteq> 0" "tm_remaining_ticks (timers k t) = 1" by blast
  then show ?thesis
  proof cases
    case idle
    then show ?thesis by (auto simp: timer_step_def tick_timer_def due_def fun_upd_idem)
  next
    case count
    then have "tm_remaining_ticks (timers k t) - 1 \<noteq> 0" by simp
    with count show ?thesis
      by (simp add: timer_step_def Let_def u32_gt_0 obs due_def) (simp add: upd_timer_def tick_timer_def)
  next
    case fire
    let ?k1 = "upd_timer t (\<lambda>b. b\<lparr>tm_remaining_ticks := tm_remaining_ticks b - 1\<rparr>) k"
    obtain k2 where k2: "call (tm_callback (timers k t)) (tm_arg (timers k t)) ?k1 = Some k2"
      "timers k2 = timers ?k1" "timer_list k2 = timer_list k"
      "obs k2 = obs k @ [(tm_callback (timers k t), tm_arg (timers k t))]"
      using assms[unfolded observes_def, THEN conjunct1, rule_format,
          of "tm_callback (timers k t)" "tm_arg (timers k t)" ?k1] by (auto simp: obs)
    then have "timer_step call t k = Some (if tm_reload (timers k t) \<noteq> 0
        then upd_timer t (\<lambda>b. b\<lparr>tm_remaining_ticks := tm_period_ticks b\<rparr>) k2
        else upd_timer t (\<lambda>b. b\<lparr>tm_active := 0\<rparr>) k2)"
      using fire by (simp add: timer_step_def Let_def)
    with fire k2 show ?thesis
      by (auto simp: obs due_def tick_timer_def)
  qed
qed

lemma timer_scan_observed:
  assumes "observes call obs" and "segment (\<lambda>s. pointer (tm_next (timers k s))) (pointer t) xs None"
    and "distinct xs"
  shows "\<exists>k'. timer_scan call t k = Some k' \<and> timer_list k' = timer_list k \<and>
    (\<forall>s. timers k' s = (if s \<in> set xs then tick_timer (timers k s) else timers k s)) \<and>
    obs k' = obs k @ map (\<lambda>s. (tm_callback (timers k s), tm_arg (timers k s))) (filter (\<lambda>s. due (timers k s)) xs)"
  using assms(2,3)
proof (induction xs arbitrary: t k)
  case Nil
  then show ?case by (simp add: timer_scan.simps)
next
  case (Cons x xs)
  then have x: "t = x" "x \<noteq> 0" "segment (\<lambda>s. pointer (tm_next (timers k s))) (pointer (tm_next (timers k x))) xs None"
    by auto
  obtain k1 where k1: "timer_step call x k = Some k1" "timers k1 = (timers k)(x := tick_timer (timers k x))"
    "timer_list k1 = timer_list k"
    "obs k1 = obs k @ (if due (timers k x) then [(tm_callback (timers k x), tm_arg (timers k x))] else [])"
    using timer_step_observed[OF assms(1)] by blast
  have nx: "(\<lambda>s. pointer (tm_next (timers k1 s))) = (\<lambda>s. pointer (tm_next (timers k s)))"
    by (auto simp: k1(2))
  have same: "timers k1 s = timers k s" if "s \<in> set xs" for s using that Cons.prems(2) by (auto simp: k1(2))
  have "segment (\<lambda>s. pointer (tm_next (timers k1 s))) (pointer (tm_next (timers k x))) xs None"
    using x(3) unfolding nx .
  from Cons.IH[OF this] Cons.prems(2) obtain k' where
    k': "timer_scan call (tm_next (timers k x)) k1 = Some k'" "timer_list k' = timer_list k1"
    "\<forall>s. timers k' s = (if s \<in> set xs then tick_timer (timers k1 s) else timers k1 s)"
    "obs k' = obs k1 @ map (\<lambda>s. (tm_callback (timers k1 s), tm_arg (timers k1 s))) (filter (\<lambda>s. due (timers k1 s)) xs)" by auto
  have "filter (\<lambda>s. due (timers k1 s)) xs = filter (\<lambda>s. due (timers k s)) xs"
    using same by (auto intro: filter_cong)
  then have log: "map (\<lambda>s. (tm_callback (timers k1 s), tm_arg (timers k1 s))) (filter (\<lambda>s. due (timers k1 s)) xs) =
      map (\<lambda>s. (tm_callback (timers k s), tm_arg (timers k s))) (filter (\<lambda>s. due (timers k s)) xs)"
    using same by (auto intro!: map_cong)
  have "timer_scan call t k = Some k'"
    using x(1,2) k1(1,2) k'(1) by (subst timer_scan.simps) simp
  with k1 k' log same Cons.prems(2) show ?case by auto
qed

lemma timer_tick_walk:
  assumes "observes call obs" and "timers_listed k xs"
  shows "\<exists>k'. rtos_timer_tick call k = Some k' \<and> timers_listed k' xs \<and>
    (\<forall>s. timers k' s = (if s \<in> set xs then tick_timer (timers k s) else timers k s)) \<and>
    obs k' = obs k @ map (\<lambda>s. (tm_callback (timers k s), tm_arg (timers k s))) (filter (\<lambda>s. due (timers k s)) xs)"
proof -
  have "segment (\<lambda>s. pointer (tm_next (timers k s))) (pointer (timer_list k)) xs None" "distinct xs"
    using assms(2) by (auto simp: timers_listed_def dest: linked_distinct)
  from timer_scan_observed[OF assms(1) this] obtain k' where
    k': "rtos_timer_tick call k = Some k'" "timer_list k' = timer_list k"
    "\<forall>s. timers k' s = (if s \<in> set xs then tick_timer (timers k s) else timers k s)"
    "obs k' = obs k @ map (\<lambda>s. (tm_callback (timers k s), tm_arg (timers k s))) (filter (\<lambda>s. due (timers k s)) xs)"
    by (auto simp: rtos_timer_tick_def)
  moreover have "timers_listed k' xs = timers_listed k xs"
    by (rule timers_listed_cong) (simp_all add: k')
  ultimately show ?thesis using assms(2) by blast
qed

section \<open>Properties\<close>

text \<open>A log kept in the trace ring's entries, for examples.\<close>

definition sample_callbacks :: callbacks where
  "sample_callbacks f a k = Some (k\<lparr>trace := (trace k)\<lparr>trace_entries := trace_entries (trace k) @
     [\<lparr>te_tick = 0, te_event = 0, te_arg0 = f, te_arg1 = a\<rparr>]\<rparr>\<rparr>)"

definition sample_log :: "kernel \<Rightarrow> (u32 \<times> u32) list" where
  "sample_log k = map (\<lambda>e. (te_arg0 e, te_arg1 e)) (trace_entries (trace k))"

lemma sample_observes: "observes sample_callbacks sample_log"
  by (simp add: observes_def sample_callbacks_def sample_log_def)

definition sample_timer_kernel :: kernel where
  "sample_timer_kernel = (zero_kernel sample_image)\<lparr>
     trace := \<lparr>trace_write_index = 0, trace_count = 0, trace_total_count = 0, trace_entries = []\<rparr>,
     timer_list := 0x20004000,
     timers := (\<lambda>_. \<lparr>tm_period_ticks = 0, tm_remaining_ticks = 0, tm_reload = 0, tm_active = 0,
         tm_linked = 0, tm_callback = 0, tm_arg = 0, tm_next = 0\<rparr>)(
       0x20004000 := \<lparr>tm_period_ticks = 2, tm_remaining_ticks = 2, tm_reload = 1, tm_active = 1,
         tm_linked = 1, tm_callback = 0x08001000, tm_arg = 7, tm_next = 0\<rparr>)\<rparr>"

lemma sample_timers_listed: "timers_listed sample_timer_kernel [0x20004000]"
  by (auto simp: timers_listed_def sample_timer_kernel_def)

text \<open>Several ticks in a row.\<close>

fun timer_ticks :: "callbacks \<Rightarrow> nat \<Rightarrow> kernel \<Rightarrow> kernel option" where
  "timer_ticks call 0 k = Some k"
| "timer_ticks call (Suc n) k = do { k' \<leftarrow> rtos_timer_tick call k; timer_ticks call n k' }"

text \<open>How often a timer fires in \<open>n\<close> ticks, by the step function, and what the code's log shows.\<close>

fun fires :: "nat \<Rightarrow> rtos_timer \<Rightarrow> nat" where
  "fires 0 b = 0"
| "fires (Suc n) b = (if due b then 1 else 0) + fires n (tick_timer b)"

lemma fires_counting:
  "tm_active b \<noteq> 0 \<Longrightarrow> n < unat (tm_remaining_ticks b) \<Longrightarrow> fires n b = 0 \<and>
     (tick_timer ^^ n) b = b\<lparr>tm_remaining_ticks := tm_remaining_ticks b - of_nat n\<rparr>"
proof (induction n arbitrary: b)
  case 0
  then show ?case by simp
next
  case (Suc n)
  then have r: "tm_remaining_ticks b \<noteq> 0" "tm_remaining_ticks b \<noteq> 1" by auto
  then have t: "tick_timer b = b\<lparr>tm_remaining_ticks := tm_remaining_ticks b - 1\<rparr>" and nd: "\<not> due b"
    using Suc.prems by (simp_all add: tick_timer_def due_def)
  have "n < unat (tm_remaining_ticks (tick_timer b))"
    using Suc.prems(2) r(1) by (simp add: t unat_pred_u32)
  with Suc.IH[of "tick_timer b"] Suc.prems(1) nd show ?case
    by (simp add: funpow_swap1[symmetric] t diff_diff_eq funpow_Suc_right del: funpow.simps)
qed

lemma fires_add: "fires (m + n) b = fires m b + fires n ((tick_timer ^^ m) b)"
  by (induction m arbitrary: b) (simp_all add: funpow_swap1)

lemma fires_round:
  assumes "tm_active b \<noteq> 0" and "tm_remaining_ticks b = tm_period_ticks b" and "tm_period_ticks b \<noteq> 0"
  shows "fires (unat (tm_period_ticks b)) b = 1 \<and>
    (tick_timer ^^ unat (tm_period_ticks b)) b =
      (if tm_reload b \<noteq> 0 then b else b\<lparr>tm_remaining_ticks := 0, tm_active := 0\<rparr>)"
proof -
  obtain d where d: "unat (tm_period_ticks b) = Suc d"
    using assms(3) by (cases "unat (tm_period_ticks b)") (auto simp: unat_eq_0)
  have "tm_period_ticks b - of_nat d = 1"
  proof -
    have "tm_period_ticks b = of_nat (Suc d)" by (metis d of_nat_unat ucast_id)
    then show ?thesis by simp
  qed
  with fires_counting[OF assms(1), of d] d assms(1,2)
  have c: "fires d b = 0" "(tick_timer ^^ d) b = b\<lparr>tm_remaining_ticks := 1\<rparr>" by simp_all
  have "fires (d + 1) b = 1" unfolding fires_add c using assms(1) by (simp add: due_def)
  moreover have "(tick_timer ^^ Suc d) b = tick_timer (b\<lparr>tm_remaining_ticks := 1\<rparr>)" by (simp add: c)
  moreover have "b\<lparr>tm_remaining_ticks := tm_period_ticks b\<rparr> = b" using assms(2) by simp
  ultimately show ?thesis using assms(1) d by (auto simp: tick_timer_def)
qed

lemma fires_inactive: "tm_active b = 0 \<Longrightarrow> fires n b = 0"
  by (induction n) (simp_all add: due_def tick_timer_def)

lemma fires_total:
  assumes "tm_active b \<noteq> 0" and "tm_remaining_ticks b = tm_period_ticks b" and "tm_period_ticks b \<noteq> 0"
  shows "fires n b =
    (if tm_reload b \<noteq> 0 then n div unat (tm_period_ticks b)
     else if unat (tm_period_ticks b) \<le> n then 1 else 0)"
proof (induction n rule: less_induct)
  case (less n)
  let ?P = "unat (tm_period_ticks b)"
  have pos: "0 < ?P" using assms(3) by (simp add: unat_gt_0)
  show ?case
  proof (cases "n < ?P")
    case True
    then show ?thesis using fires_counting[OF assms(1)] assms(2) by simp
  next
    case False
    then have n: "n = ?P + (n - ?P)" by simp
    have "fires n b = 1 + fires (n - ?P) ((tick_timer ^^ ?P) b)"
      using fires_add[of ?P "n - ?P" b] n fires_round[OF assms] by simp
    also have "\<dots> = (if tm_reload b \<noteq> 0 then 1 + fires (n - ?P) b else 1)"
      using fires_round[OF assms] by (simp add: fires_inactive)
    also have "\<dots> = (if tm_reload b \<noteq> 0 then 1 + (n - ?P) div ?P else 1)"
      using less.IH[of "n - ?P"] pos False by simp
    also have "1 + (n - ?P) div ?P = n div ?P" using False pos by (simp add: le_div_geq)
    finally show ?thesis using False by simp
  qed
qed

lemma count_fired:
  assumes "distinct xs" and "t \<in> set xs" and "\<forall>s \<in> set xs. s \<noteq> t \<longrightarrow> f s \<noteq> f t"
  shows "count_list (map f (filter P xs)) (f t) = (if P t then 1 else 0)"
  using assms
proof (induction xs)
  case Nil
  then show ?case by simp
next
  case (Cons x xs)
  show ?case
  proof (cases "x = t")
    case True
    have "f t \<notin> set (map f (filter P xs))" using Cons.prems True by force
    then show ?thesis using True by (simp add: count_notin)
  next
    case False
    with Cons show ?thesis by auto
  qed
qed

lemma timer_ticks_count:
  assumes "observes call obs" and "timers_listed k xs" and "t \<in> set xs"
    and "\<forall>s \<in> set xs. s \<noteq> t \<longrightarrow> (tm_callback (timers k s), tm_arg (timers k s)) \<noteq> e"
    and "e = (tm_callback (timers k t), tm_arg (timers k t))"
  shows "\<exists>k'. timer_ticks call n k = Some k' \<and> count_list (obs k') e = count_list (obs k) e + fires n (timers k t)"
  using assms(2,4,5)
proof (induction n arbitrary: k)
  case 0
  then show ?case by simp
next
  case (Suc n)
  from timer_tick_walk[OF assms(1) Suc.prems(1)] obtain k1 where
    k1: "rtos_timer_tick call k = Some k1" "timers_listed k1 xs"
    "\<forall>s. timers k1 s = (if s \<in> set xs then tick_timer (timers k s) else timers k s)"
    "obs k1 = obs k @ map (\<lambda>s. (tm_callback (timers k s), tm_arg (timers k s))) (filter (\<lambda>s. due (timers k s)) xs)"
    by blast
  have "distinct xs" using Suc.prems(1) by (auto simp: timers_listed_def dest: linked_distinct)
  have same: "\<forall>s \<in> set xs. (tm_callback (timers k1 s), tm_arg (timers k1 s)) = (tm_callback (timers k s), tm_arg (timers k s))"
    by (simp add: k1(3))
  from Suc.IH[OF k1(2)] same Suc.prems assms(3) obtain k' where
    k': "timer_ticks call n k1 = Some k'" "count_list (obs k') e = count_list (obs k1) e + fires n (timers k1 t)" by auto
  have "count_list (obs k1) e = count_list (obs k) e + (if due (timers k t) then 1 else 0)"
    using count_fired[OF \<open>distinct xs\<close> assms(3), of "\<lambda>s. (tm_callback (timers k s), tm_arg (timers k s))"] Suc.prems(2,3)
    by (simp add: k1(4))
  with k1 k' assms(3) show ?case by simp
qed



text \<open>
  C32. Initialising and starting a timer keep the list well formed: it stays a null-terminated
  list of distinct timers that are the ones marked as linked, a new timer at its head; starting
  sets a full period.
\<close>

theorem timer_list_kept:
  assumes "timers_listed k xs" and "t \<noteq> 0" and "period_ms \<noteq> 0" and "period_ms \<noteq> RTOS_TIMEOUT_FOREVER"
    and "callback \<noteq> 0"
  shows "\<exists>k1 k2. rtos_timer_init t period_ms reload callback arg k = (RTOS_OK, k1) \<and>
    timers_listed k1 (if t \<in> set xs then xs else t # xs) \<and> tm_active (timers k1 t) = 0 \<and>
    rtos_timer_start t k1 = (RTOS_OK, k2) \<and> timers_listed k2 (if t \<in> set xs then xs else t # xs) \<and>
    tm_active (timers k2 t) \<noteq> 0 \<and> tm_remaining_ticks (timers k2 t) = rtos_ms_to_ticks period_ms \<and>
    tm_period_ticks (timers k2 t) = rtos_ms_to_ticks period_ms"
proof -
  let ?ys = "if t \<in> set xs then xs else t # xs"
  let ?f = "\<lambda>b. b\<lparr>tm_period_ticks := rtos_ms_to_ticks period_ms, tm_remaining_ticks := rtos_ms_to_ticks period_ms,
    tm_reload := reload, tm_active := 0, tm_callback := callback, tm_arg := arg\<rparr>"
  let ?k1 = "rtos_enter_critical k"
  have "timers_listed (upd_timer t ?f ?k1) xs"
    using assms(1) by (simp add: timers_listed_upd) (simp add: timers_listed_def)
  from link_timer_listed[OF this assms(2)] have l3: "timers_listed (link_timer t (upd_timer t ?f ?k1)) ?ys" .
  define k4 where "k4 = rtos_exit_critical (snd (rtos_object_register t RTOS_OBJECT_TIMER (link_timer t (upd_timer t ?f ?k1))))"
  have k4: "timers k4 = timers (link_timer t (upd_timer t ?f ?k1))" "timer_list k4 = timer_list (link_timer t (upd_timer t ?f ?k1))"
    by (simp_all add: k4_def)
  then have l4: "timers_listed k4 ?ys"
    using l3 timers_listed_cong[of k4 "link_timer t (upd_timer t ?f ?k1)"] by simp
  have init: "rtos_timer_init t period_ms reload callback arg k = (RTOS_OK, k4)"
    using assms ms_to_ticks_zero_iff[of period_ms] by (simp add: rtos_timer_init_def Let_def k4_def)
  have cb: "tm_callback (timers k4 t) \<noteq> 0" "tm_active (timers k4 t) = 0"
    "tm_period_ticks (timers k4 t) = rtos_ms_to_ticks period_ms"
    unfolding k4 by (simp_all add: link_timer_def Let_def assms(5))
  have "t \<in> set ?ys" by simp
  then have linked': "tm_linked (timers k4 t) \<noteq> 0" using l4 assms(2) unfolding timers_listed_def by blast
  define k5 where "k5 = rtos_exit_critical (upd_timer t
      (\<lambda>b. b\<lparr>tm_remaining_ticks := tm_period_ticks b, tm_active := 1\<rparr>) (rtos_enter_critical k4))"
  have start: "rtos_timer_start t k4 = (RTOS_OK, k5)"
    using cb(1) assms(2) linked' by (simp add: rtos_timer_start_def Let_def link_timer_def k5_def)
  have l5: "timers_listed k5 ?ys"
    using l4 by (subst timers_listed_cong[of _ k4]) (simp_all add: k5_def upd_timer_def)
  have "timers k5 t = (timers k4 t)\<lparr>tm_remaining_ticks := tm_period_ticks (timers k4 t), tm_active := 1\<rparr>"
    by (simp add: k5_def)
  then have "tm_active (timers k5 t) \<noteq> 0" "tm_remaining_ticks (timers k5 t) = rtos_ms_to_ticks period_ms"
    "tm_period_ticks (timers k5 t) = rtos_ms_to_ticks period_ms" using cb(3) by simp_all
  with init l4 cb(2) start l5 show ?thesis by blast
qed

theorem timer_list_kept_witness:
  "\<exists>k1. rtos_timer_init 0x20004100 500 1 0x08002000 0 sample_timer_kernel = (RTOS_OK, k1) \<and>
     timers_listed k1 [0x20004100, 0x20004000]"
  using timer_list_kept[OF sample_timers_listed, of "0x20004100" 500 "0x08002000" 1 0] by auto

section \<open>A callback that acts on its own timer\<close>

text \<open>Callbacks whose body is one call, on the timer at \<open>t\<close>.\<close>

definition stopping_callback :: "u32 \<Rightarrow> callbacks" where
  "stopping_callback t f a k = Some (snd (rtos_timer_stop t k))"

definition starting_callback :: "u32 \<Rightarrow> callbacks" where
  "starting_callback t f a k = Some (snd (rtos_timer_start t k))"

text \<open>
  C33. What a callback can do to its own timer. A timer stopped by its callback stays stopped. A
  start by the callback takes effect for a reloading timer only: after the callback of a one-shot
  timer has returned, the walk deactivates the timer, so it cannot rearm itself.
\<close>

theorem own_callback_effect:
  assumes "due (timers k t)" and "t \<noteq> 0" and "tm_callback (timers k t) \<noteq> 0"
  shows "(\<exists>k'. timer_step (stopping_callback t) t k = Some k' \<and> tm_active (timers k' t) = 0) \<and>
    (\<exists>k'. timer_step (starting_callback t) t k = Some k' \<and>
      (tm_active (timers k' t) \<noteq> 0 \<longleftrightarrow> tm_reload (timers k t) \<noteq> 0) \<and>
      tm_remaining_ticks (timers k' t) = tm_period_ticks (timers k t))"
proof -
  have d: "tm_active (timers k t) \<noteq> 0" "tm_remaining_ticks (timers k t) = 1"
    using assms(1) by (simp_all add: due_def)
  let ?k1 = "upd_timer t (\<lambda>b. b\<lparr>tm_remaining_ticks := tm_remaining_ticks b - 1\<rparr>) k"
  have link: "tm_reload (timers (link_timer t k1) s) = tm_reload (timers k1 s)"
    "tm_period_ticks (timers (link_timer t k1) s) = tm_period_ticks (timers k1 s)" for k1 s
    by (simp_all add: link_timer_def Let_def upd_timer_def)
  have stop: "timers (snd (rtos_timer_stop t k1)) t = (timers k1 t)\<lparr>tm_active := 0\<rparr>" for k1
    using assms(2) by (simp add: rtos_timer_stop_def Let_def)
  have start: "timers (snd (rtos_timer_start t ?k1)) t =
      (timers (link_timer t (rtos_enter_critical ?k1)) t)\<lparr>tm_remaining_ticks := tm_period_ticks (timers k t), tm_active := 1\<rparr>"
    using assms(2,3) by (simp add: rtos_timer_start_def Let_def link)
  show ?thesis
    using d by (simp add: timer_step_def Let_def stopping_callback_def starting_callback_def stop start link)
qed

theorem own_callback_effect_witness:
  "\<exists>k'. timer_step (starting_callback 0x20004000) 0x20004000 (upd_timer 0x20004000
       (\<lambda>b. b\<lparr>tm_remaining_ticks := 1, tm_reload := 0\<rparr>) sample_timer_kernel) = Some k' \<and>
     tm_active (timers k' 0x20004000) = 0"
proof -
  let ?k = "upd_timer 0x20004000 (\<lambda>b. b\<lparr>tm_remaining_ticks := 1, tm_reload := 0\<rparr>) sample_timer_kernel"
  have "due (timers ?k 0x20004000)" "tm_callback (timers ?k 0x20004000) \<noteq> 0" "tm_reload (timers ?k 0x20004000) = 0"
    by (simp_all add: due_def sample_timer_kernel_def)
  with own_callback_effect[of ?k "0x20004000"] show ?thesis by auto
qed

end
