(* ===== verification/Debug_Snapshots.thy ===== *)
theory Debug_Snapshots
  imports Object_Registry Tasks
begin

text \<open>
  What a debugger or the shell reads (kernel/debug.c): a copy of every task's control block with
  its measured stack use, and the share of ticks spent in the idle task. The tick handler
  refreshes them; two functions copy them out inside a critical section.
\<close>

section \<open>Operations\<close>

definition snapshot_task :: "kernel \<Rightarrow> nat \<Rightarrow> task_snapshot" where
  "snapshot_task k i =
     (let b = tasks k i in
      \<lparr>sn_name = task_name b, sn_task = Some i, sn_sp = task_sp b, sn_stack_base = stack_base b,
       sn_stack_words = stack_words b, sn_stack_used_words = rtos_task_stack_used_words (Some i) k,
       sn_delay_ticks = delay_ticks b, sn_base_priority = base_priority b, sn_priority = priority b,
       sn_state = task_state b, sn_wait_result = wait_result b,
       sn_stack_guard_ok = word_of_int (rtos_task_stack_guard_ok (Some i) k),
       sn_switch_count = switch_count b, sn_run_ticks = run_ticks b\<rparr>)"

text \<open>The loop of rtos\_debug\_update: the snapshots and the idle ticks summed so far.\<close>

definition snapshot_step ::
  "kernel \<Rightarrow> nat \<Rightarrow> task_snapshot list \<times> u32 \<Rightarrow> task_snapshot list \<times> u32" where
  "snapshot_step k i s =
     ((fst s)[i := snapshot_task k i],
      if base_priority (tasks k i) = RTOS_IDLE_PRIORITY then snd s + run_ticks (tasks k i) else snd s)"

definition usage_of :: "u32 \<Rightarrow> u32 \<Rightarrow> cpu_usage_snapshot" where
  "usage_of total_ticks idle =
     (let idle_ticks = (if total_ticks < idle then total_ticks else idle);
          active_ticks = total_ticks - idle_ticks
      in \<lparr>cu_total_ticks = total_ticks, cu_idle_ticks = idle_ticks, cu_active_ticks = active_ticks,
          cu_idle_permille = (if total_ticks \<noteq> 0 then idle_ticks * 1000 div total_ticks else 0),
          cu_active_permille = (if total_ticks \<noteq> 0 then active_ticks * 1000 div total_ticks else 0)\<rparr>)"

definition rtos_debug_update :: "kernel \<Rightarrow> kernel" where
  "rtos_debug_update k =
     (let count = (if RTOS_MAX_TASKS < rtos_task_count k then RTOS_MAX_TASKS else rtos_task_count k);
          s = fold (snapshot_step k) [0..<unat count] (debug_snapshots k, 0);
          k1 = k\<lparr>debug_snapshots := fst s\<rparr>;
          k2 = k1\<lparr>debug_snapshot_count := count\<rparr>;
          k3 = k2\<lparr>cpu_usage := usage_of (rtos_tick_count k2) (snd s)\<rparr>
      in rtos_object_debug_update k3)"

text \<open>The entries stored through \<open>out\<close>, from its first on, are the second result.\<close>

definition rtos_debug_snapshot :: "u32 \<Rightarrow> u32 \<Rightarrow> kernel \<Rightarrow> u32 \<times> task_snapshot list \<times> kernel" where
  "rtos_debug_snapshot out max_count k =
     (if out = 0 \<or> max_count = 0 then (0, [], k)
      else let k1 = rtos_debug_update (rtos_enter_critical k);
               count = (if max_count < debug_snapshot_count k1 then max_count else debug_snapshot_count k1)
           in (count, map ((!) (debug_snapshots k1)) [0..<unat count], rtos_exit_critical k1))"

definition rtos_debug_cpu_usage_snapshot :: "kernel \<Rightarrow> cpu_usage_snapshot \<times> kernel" where
  "rtos_debug_cpu_usage_snapshot k =
     (let k1 = rtos_debug_update (rtos_enter_critical k)
      in (cpu_usage k1, rtos_exit_critical k1))"

section \<open>What an update writes\<close>

lemma object_update_frame [simp]:
  "debug_snapshots (rtos_object_debug_update k) = debug_snapshots k"
  "debug_snapshot_count (rtos_object_debug_update k) = debug_snapshot_count k"
  "cpu_usage (rtos_object_debug_update k) = cpu_usage k" "tasks (rtos_object_debug_update k) = tasks k"
  "ram (rtos_object_debug_update k) = ram k" "current_task (rtos_object_debug_update k) = current_task k"
  "task_count (rtos_object_debug_update k) = task_count k" "tick_count (rtos_object_debug_update k) = tick_count k"
  "timers (rtos_object_debug_update k) = timers k" "timer_list (rtos_object_debug_update k) = timer_list k"
  "scheduler_lock_count (rtos_object_debug_update k) = scheduler_lock_count k"
  "debug_update_ticks (rtos_object_debug_update k) = debug_update_ticks k"
  "work (rtos_object_debug_update k) = work k"
  "stack_guard_check_index (rtos_object_debug_update k) = stack_guard_check_index k"
  by (simp_all add: rtos_object_debug_update_def Let_def update_snapshots_locked_def split: prod.splits)

lemma debug_update_frame [simp]:
  "tasks (rtos_debug_update k) = tasks k" "ram (rtos_debug_update k) = ram k"
  "current_task (rtos_debug_update k) = current_task k" "task_count (rtos_debug_update k) = task_count k"
  "tick_count (rtos_debug_update k) = tick_count k" "timers (rtos_debug_update k) = timers k"
  "timer_list (rtos_debug_update k) = timer_list k"
  "scheduler_lock_count (rtos_debug_update k) = scheduler_lock_count k"
  "debug_update_ticks (rtos_debug_update k) = debug_update_ticks k" "work (rtos_debug_update k) = work k"
  "stack_guard_check_index (rtos_debug_update k) = stack_guard_check_index k"
  by (simp_all add: rtos_debug_update_def Let_def)

definition idle_tasks :: "kernel \<Rightarrow> nat \<Rightarrow> nat list" where
  "idle_tasks k n = filter (\<lambda>i. base_priority (tasks k i) = RTOS_IDLE_PRIORITY) [0..<n]"

lemma snapshot_fold:
  "n \<le> length ss \<Longrightarrow> fold (snapshot_step k) [0..<n] (ss, 0) =
     (map (snapshot_task k) [0..<n] @ drop n ss, sum_list (map (\<lambda>i. run_ticks (tasks k i)) (idle_tasks k n)))"
proof (induction n)
  case 0
  then show ?case by (simp add: idle_tasks_def)
next
  case (Suc n)
  then have "drop n ss = ss ! n # drop (Suc n) ss" by (simp add: Cons_nth_drop_Suc)
  with Suc show ?case by (simp add: snapshot_step_def list_update_append idle_tasks_def)
qed

lemma debug_update_contents:
  assumes "task_count k \<le> 6" and "length (debug_snapshots k) = 6"
  shows "debug_snapshot_count (rtos_debug_update k) = task_count k"
    "take (unat (task_count k)) (debug_snapshots (rtos_debug_update k)) =
       map (snapshot_task k) [0..<unat (task_count k)]"
    "length (debug_snapshots (rtos_debug_update k)) = 6"
    "cpu_usage (rtos_debug_update k) = usage_of (tick_count k)
       (sum_list (map (\<lambda>i. run_ticks (tasks k i)) (idle_tasks k (unat (task_count k)))))"
proof -
  have n: "unat (task_count k) \<le> length (debug_snapshots k)"
    using assms by (simp add: word_le_nat_alt)
  have c: "(if RTOS_MAX_TASKS < rtos_task_count k then RTOS_MAX_TASKS else rtos_task_count k) = task_count k"
    using assms(1) by (auto simp: rtos_task_count_def)
  note u = rtos_debug_update_def[of k, unfolded c Let_def snapshot_fold[OF n, of k]]
  show "debug_snapshot_count (rtos_debug_update k) = task_count k" by (simp add: u)
  show "take (unat (task_count k)) (debug_snapshots (rtos_debug_update k)) =
      map (snapshot_task k) [0..<unat (task_count k)]" by (simp add: u)
  show "length (debug_snapshots (rtos_debug_update k)) = 6" using n assms(2) by (simp add: u)
  show "cpu_usage (rtos_debug_update k) = usage_of (tick_count k)
      (sum_list (map (\<lambda>i. run_ticks (tasks k i)) (idle_tasks k (unat (task_count k)))))"
    by (simp add: u rtos_tick_count_def)
qed

lemma snapshot_task_port [simp]: "snapshot_task (k\<lparr>port := p\<rparr>) = snapshot_task k"
  by (simp add: fun_eq_iff snapshot_task_def Let_def rtos_task_stack_used_words_def rtos_task_stack_guard_ok_def)

section \<open>Properties\<close>

text \<open>
  The task snapshot is faithful: it has one row per task, at most as many as the caller asked
  for, each row is the task's control block with its measured stack use and guard state, and
  taking it changes no task, no memory and not the running task.
\<close>

lemma debug_snapshot_faithful:
  assumes "task_count k \<le> RTOS_MAX_TASKS" and "length (debug_snapshots k) = 6" and "out \<noteq> 0"
  shows "case rtos_debug_snapshot out max_count k of (n, rows, k') \<Rightarrow>
    n = min max_count (task_count k) \<and> rows = map (snapshot_task k) [0..<unat n] \<and>
    tasks k' = tasks k \<and> ram k' = ram k \<and> current_task k' = current_task k"
proof (cases "max_count = 0")
  case True
  then show ?thesis by (simp add: rtos_debug_snapshot_def)
next
  case False
  let ?k1 = "rtos_enter_critical k" and ?n = "min max_count (task_count k)"
  let ?k2 = "rtos_debug_update ?k1"
  have k1: "task_count ?k1 \<le> 6" "length (debug_snapshots ?k1) = 6" using assms by simp_all
  note u = debug_update_contents[OF k1]
  have r: "rtos_debug_snapshot out max_count k =
      (?n, map ((!) (debug_snapshots ?k2)) [0..<unat ?n], rtos_exit_critical ?k2)"
    using False assms(3) u(1) by (auto simp: rtos_debug_snapshot_def Let_def min_def)
  have "debug_snapshots ?k2 ! i = snapshot_task k i" if "i < unat ?n" for i
  proof -
    have i: "i < unat (task_count ?k1)" using that by (simp add: min_def word_le_nat_alt split: if_splits)
    then have "debug_snapshots ?k2 ! i = take (unat (task_count ?k1)) (debug_snapshots ?k2) ! i" by simp
    also have "\<dots> = map (snapshot_task ?k1) [0..<unat (task_count ?k1)] ! i" by (simp only: u(2))
    finally show ?thesis using i by simp
  qed
  then show ?thesis by (simp add: r)
qed

text \<open>The first tick's task 0 idles; there are three ticks in all.\<close>

definition sample_debug_kernel :: kernel where
  "sample_debug_kernel = (zero_kernel sample_image)\<lparr>task_count := 1, current_task := Some 0,
     tick_count := 3, tasks := (\<lambda>_. zero_task\<lparr>run_ticks := 1\<rparr>)\<rparr>"

lemma debug_snapshot_faithful_example:
  "\<exists>rows k'. rtos_debug_snapshot 0x20001000 4 sample_debug_kernel = (1, rows, k') \<and>
     map sn_run_ticks rows = [1]"
proof -
  have a: "task_count sample_debug_kernel \<le> RTOS_MAX_TASKS" "length (debug_snapshots sample_debug_kernel) = 6"
    "task_count sample_debug_kernel = 1" "run_ticks (tasks sample_debug_kernel 0) = 1"
    by (simp_all add: sample_debug_kernel_def zero_kernel_def)
  have "(0x20001000 :: u32) \<noteq> 0" by simp
  from debug_snapshot_faithful[OF a(1,2) this, of 4] show ?thesis
    by (auto simp: a snapshot_task_def Let_def split: prod.splits)
qed

text \<open>Dividing the product by the total: exact while the product fits 32 bits, short beyond.\<close>

lemma permille_exact:
  assumes "unat (i::u32) < 4294968"
  shows "unat (i * 1000 div t) = unat i * 1000 div unat t"
proof -
  have "unat (i * 1000) = unat i * 1000" using assms by (simp add: unat_word_ariths)
  then show ?thesis by (simp add: unat_div_distrib)
qed

lemma permille_short:
  assumes "4294968 \<le> unat (i::u32)" and "t \<noteq> 0"
  shows "unat (i * 1000 div t) < unat i * 1000 div unat t"
proof -
  have t: "0 < unat t" "unat t < 4294967296" using assms(2) u32_less_max[of t] by (simp_all add: unat_gt_0)
  have "unat (i * 1000) = unat i * 1000 mod 4294967296" by (simp add: unat_word_ariths)
  also have "\<dots> \<le> unat i * 1000 - 4294967296" using assms(1) by (simp add: mod_if[of "unat i * 1000"])
  finally have "unat (i * 1000) + unat t \<le> unat i * 1000" using assms(1) t by linarith
  then have "(unat (i * 1000) + unat t) div unat t \<le> unat i * 1000 div unat t" by (rule div_le_mono)
  then show ?thesis using t(1) by (simp add: unat_div_distrib div_add_self2)
qed

text \<open>
  C38. The processor usage: idle and active ticks add up to the ticks so far, idle ticks being those
  counted for tasks of idle priority, and the permille are their exact shares, at most 1000 and
  at least 999 together, as long as the counts are below 4294968 (71.6 minutes of ticks). A
  larger count makes the 32-bit product overflow and its share is reported too small.
\<close>

theorem cpu_usage_correct:
  assumes "task_count k \<le> RTOS_MAX_TASKS" and "length (debug_snapshots k) = 6"
    and "idle = sum_list (map (\<lambda>i. run_ticks (tasks k i)) (idle_tasks k (unat (task_count k))))"
    and "idle \<le> tick_count k" and "tick_count k \<noteq> 0"
  shows "case rtos_debug_cpu_usage_snapshot k of (u, k') \<Rightarrow>
    cu_total_ticks u = tick_count k \<and> cu_idle_ticks u = idle \<and>
    unat (cu_idle_ticks u) + unat (cu_active_ticks u) = unat (tick_count k) \<and>
    (unat (tick_count k) < 4294968 \<longrightarrow>
       unat (cu_idle_permille u) = unat idle * 1000 div unat (tick_count k) \<and>
       unat (cu_active_permille u) = unat (cu_active_ticks u) * 1000 div unat (tick_count k) \<and>
       unat (cu_idle_permille u) + unat (cu_active_permille u) \<in> {999, 1000}) \<and>
    (4294968 \<le> unat idle \<longrightarrow> unat (cu_idle_permille u) < unat idle * 1000 div unat (tick_count k)) \<and>
    (4294968 \<le> unat (cu_active_ticks u) \<longrightarrow>
       unat (cu_active_permille u) < unat (cu_active_ticks u) * 1000 div unat (tick_count k))"
proof -
  let ?T = "tick_count k" and ?k1 = "rtos_enter_critical k"
  let ?u = "usage_of ?T idle"
  have k1: "task_count ?k1 \<le> 6" "length (debug_snapshots ?k1) = 6" using assms(1,2) by simp_all
  have "idle_tasks ?k1 n = idle_tasks k n" for n by (simp add: idle_tasks_def)
  then have u: "fst (rtos_debug_cpu_usage_snapshot k) = ?u"
    using debug_update_contents(4)[OF k1] assms(3) by (simp add: rtos_debug_cpu_usage_snapshot_def Let_def)
  have f: "cu_total_ticks ?u = ?T" "cu_idle_ticks ?u = idle" "cu_active_ticks ?u = ?T - idle"
    "cu_idle_permille ?u = idle * 1000 div ?T" "cu_active_permille ?u = (?T - idle) * 1000 div ?T"
    using assms(4,5) by (auto simp: usage_of_def Let_def)
  have sum: "unat idle + unat (?T - idle) = unat ?T"
    using assms(4) by (simp add: unat_sub word_le_nat_alt)
  have parts: "a * 1000 div (a + b) + b * 1000 div (a + b) \<in> {999, 1000}" if "0 < a + b" for a b :: nat
  proof -
    have "a * 1000 div (a + b) * (a + b) + a * 1000 mod (a + b) = a * 1000"
      "b * 1000 div (a + b) * (a + b) + b * 1000 mod (a + b) = b * 1000" by (rule div_mult_mod_eq)+
    then have eq: "(a * 1000 div (a + b) + b * 1000 div (a + b)) * (a + b) +
        (a * 1000 mod (a + b) + b * 1000 mod (a + b)) = 1000 * (a + b)" by (simp add: algebra_simps)
    define q r where "q = a * 1000 div (a + b) + b * 1000 div (a + b)"
      and "r = a * 1000 mod (a + b) + b * 1000 mod (a + b)"
    have "a * 1000 mod (a + b) < a + b" "b * 1000 mod (a + b) < a + b" using that by simp_all
    then have "r < 2 * (a + b)" unfolding r_def mult_2 by (rule add_strict_mono)
    moreover have "q * (a + b) + r = 1000 * (a + b)" using eq by (simp only: q_def r_def)
    ultimately have "q * (a + b) \<le> 1000 * (a + b)" "998 * (a + b) < q * (a + b)" by linarith+
    then have "q \<le> 1000" "998 < q" using that by (simp_all only: mult_le_cancel2 mult_less_cancel2 simp_thms)
    then have "q \<in> {999, 1000}" by auto
    then show ?thesis by (simp only: q_def)
  qed
  have pos: "0 < unat ?T" using assms(5) by (simp add: unat_gt_0)
  have "unat idle < 4294968" "unat (?T - idle) < 4294968" if "unat ?T < 4294968" using that sum by linarith+
  then have small: "unat (cu_idle_permille ?u) = unat idle * 1000 div unat ?T \<and>
      unat (cu_active_permille ?u) = unat (?T - idle) * 1000 div unat ?T \<and>
      unat (cu_idle_permille ?u) + unat (cu_active_permille ?u) \<in> {999, 1000}" if "unat ?T < 4294968"
    using that parts[of "unat idle" "unat (?T - idle)"] pos unfolding f sum by (simp add: permille_exact del: left_diff_distrib_numeral)
  obtain k' where r: "rtos_debug_cpu_usage_snapshot k = (?u, k')"
    using u by (cases "rtos_debug_cpu_usage_snapshot k") simp
  show ?thesis
    unfolding r prod.case f
    using small[unfolded f] permille_short[OF _ assms(5)] sum by blast
qed

theorem cpu_usage_correct_witness:
  "cu_idle_permille (fst (rtos_debug_cpu_usage_snapshot sample_debug_kernel)) = 333"
proof -
  have a: "task_count sample_debug_kernel \<le> RTOS_MAX_TASKS" "length (debug_snapshots sample_debug_kernel) = 6"
    "tick_count sample_debug_kernel = 3" "tick_count sample_debug_kernel \<noteq> 0"
    by (simp_all add: sample_debug_kernel_def zero_kernel_def)
  have i: "1 = sum_list (map (\<lambda>i. run_ticks (tasks sample_debug_kernel i))
      (idle_tasks sample_debug_kernel (unat (task_count sample_debug_kernel))))"
    by (simp add: sample_debug_kernel_def idle_tasks_def zero_task_def)
  have "(1::u32) \<le> tick_count sample_debug_kernel" by (simp add: a)
  note usage = cpu_usage_correct[OF a(1,2) i this a(4)]
  obtain u k' where e: "rtos_debug_cpu_usage_snapshot sample_debug_kernel = (u, k')" by (rule prod.exhaust)
  have "unat (3::u32) < 4294968" by simp
  with usage[unfolded e prod.case a(3)]
  have "unat (cu_idle_permille u) = unat (1::u32) * 1000 div unat (3::u32)" by blast
  then have "unat (cu_idle_permille u) = unat (333::u32)" by simp
  then show ?thesis by (simp only: e fst_conv word_unat_eq_iff)
qed

end
