(* ===== verification/Scheduler.thy ===== *)
theory Scheduler
  imports Tasks
begin

text \<open>
  The scheduler (kernel/sched.c): start-up, the scheduler lock, sleeping, and the choice of the
  next task, which runs in the PendSV exception. The scan of the ring is a partial function,
  since a broken ring would make it loop or follow a null pointer; on a task ring it returns,
  and picks the first of the most urgent ready tasks behind the current one.
\<close>

section \<open>Operations\<close>

text \<open>rtos\_start either returns or hands the processor to the first task.\<close>

datatype start_outcome = Returned kernel | Running kernel

definition rtos_start :: "kernel \<Rightarrow> (kernel + start_outcome) option" where
  "rtos_start k =
     (case current_task k of
        None \<Rightarrow> Some (Inr (Returned k))
      | Some _ \<Rightarrow> do {
          r \<leftarrow> rtos_create_idle_task k;
          case r of
            Inl parked \<Rightarrow> Some (Inl parked)
          | Inr (rc, k1) \<Rightarrow>
              if rc \<noteq> 0 then Some (Inr (Returned k1))
              else do {
                t \<leftarrow> current_task k1;
                let k2 = k1\<lparr>tasks := upd_task t (\<lambda>b. b\<lparr>task_state := RTOS_TASK_RUNNING,
                           switch_count := switch_count b + 1\<rparr>) (tasks k1)\<rparr>;
                let k3 = k2\<lparr>port := port_init_scheduler (port k2)\<rparr>;
                let k4 = k3\<lparr>port := port_setup_systick RTOS_CPU_HZ RTOS_TICK_HZ (port k3)\<rparr>;
                Some (Inr (Running k4))
              }
        })"

definition rtos_sched_lock :: "kernel \<Rightarrow> kernel" where
  "rtos_sched_lock k =
     (let k1 = rtos_enter_critical k;
          k2 = k1\<lparr>scheduler_lock_count := scheduler_lock_count k1 + 1\<rparr>
      in rtos_exit_critical k2)"

definition rtos_sched_unlock :: "kernel \<Rightarrow> kernel" where
  "rtos_sched_unlock k =
     (let k1 = rtos_enter_critical k;
          (should_yield, k2) =
            (if scheduler_lock_count k1 \<noteq> 0 then
               let k2 = k1\<lparr>scheduler_lock_count := scheduler_lock_count k1 - 1\<rparr>
               in if scheduler_lock_count k2 = 0 \<and> scheduler_pending k2 \<noteq> 0
                  then (True, k2\<lparr>scheduler_pending := 0\<rparr>) else (False, k2)
             else (False, k1));
          k3 = rtos_exit_critical k2
      in if should_yield then rtos_yield k3 else k3)"

definition rtos_sched_lock_depth :: "kernel \<Rightarrow> u32" where
  "rtos_sched_lock_depth k = scheduler_lock_count k"

definition rtos_sleep :: "u32 \<Rightarrow> kernel \<Rightarrow> kernel option" where
  "rtos_sleep ms k =
     (if ms = 0 then Some (rtos_yield k)
      else let ticks = rtos_ms_to_ticks ms; k1 = rtos_enter_critical k in do {
        t \<leftarrow> current_task k1;
        let k2 = k1\<lparr>tasks := upd_task t (\<lambda>b. b\<lparr>delay_ticks := ticks, wait_type := RTOS_WAIT_SLEEP,
                      wait_result := RTOS_OK, task_state := RTOS_TASK_BLOCKED\<rparr>) (tasks k1)\<rparr>;
        Some (rtos_yield (rtos_exit_critical k2))
      })"

text \<open>One turn of the scan: a ready task of strictly higher priority becomes the best.\<close>

definition better :: "task_store \<Rightarrow> nat option \<Rightarrow> nat \<Rightarrow> nat option" where
  "better ts best s =
     (if task_state (ts s) = RTOS_TASK_READY then
        (case best of
           None \<Rightarrow> Some s
         | Some b \<Rightarrow> if priority (ts b) < priority (ts s) then Some s else best)
      else best)"

partial_function (option) ring_scan ::
  "task_store \<Rightarrow> nat option \<Rightarrow> nat option \<Rightarrow> nat option \<Rightarrow> nat option option" where
  "ring_scan ts stop best scan = do {
     s \<leftarrow> scan;
     if next_task (ts s) \<noteq> stop then ring_scan ts stop (better ts best s) (next_task (ts s))
     else Some (better ts best s)
   }"

definition rtos_schedule_next :: "kernel \<Rightarrow> (kernel + kernel) option" where
  "rtos_schedule_next k = do {
     old_task \<leftarrow> current_task k;
     let scan_task = next_task (tasks k old_task);
     if scheduler_lock_count k \<noteq> 0 \<and> task_state (tasks k old_task) = RTOS_TASK_RUNNING then
       Some (Inr (k\<lparr>scheduler_pending := 1\<rparr>))
     else do {
       let k1 = k\<lparr>scheduler_pending := 0\<rparr>;
       let k2 = (if task_state (tasks k1 old_task) = RTOS_TASK_RUNNING
                 then k1\<lparr>tasks := upd_task old_task (\<lambda>b. b\<lparr>task_state := RTOS_TASK_READY\<rparr>) (tasks k1)\<rparr>
                 else k1);
       best \<leftarrow> ring_scan (tasks k2) scan_task None scan_task;
       case RTOS_ASSERT (best \<noteq> None) ''best_task != 0'' ''kernel/sched.c'' 118 k2 of
         Inl parked \<Rightarrow> Some (Inl parked)
       | Inr k3 \<Rightarrow>
           case best of
             None \<Rightarrow> Some (Inr k3)
           | Some b \<Rightarrow>
               let k4 = k3\<lparr>tasks := upd_task b (\<lambda>c. c\<lparr>task_state := RTOS_TASK_RUNNING,
                          switch_count := switch_count c + 1\<rparr>) (tasks k3), current_task := Some b\<rparr>
               in Some (Inr (if b \<noteq> old_task
                    then rtos_trace_record RTOS_TRACE_SWITCH (task_word (linked_at k4) (Some old_task))
                           (task_word (linked_at k4) (Some b)) k4
                    else k4))
     }
   }"

section \<open>What the scan finds\<close>

text \<open>\<open>picks P f ys b\<close>: \<open>b\<close> is the first of the elements with \<open>P\<close> and the largest \<open>f\<close> of \<open>ys\<close>.\<close>

definition picks :: "('a \<Rightarrow> bool) \<Rightarrow> ('a \<Rightarrow> 'p::linorder) \<Rightarrow> 'a list \<Rightarrow> 'a \<Rightarrow> bool" where
  "picks P f ys b \<longleftrightarrow> (\<exists>us vs. ys = us @ b # vs \<and> P b \<and>
     (\<forall>y \<in> set us. P y \<longrightarrow> f y < f b) \<and> (\<forall>y \<in> set vs. P y \<longrightarrow> f y \<le> f b))"

definition ready :: "task_store \<Rightarrow> nat \<Rightarrow> bool" where
  "ready ts x \<longleftrightarrow> task_state (ts x) = RTOS_TASK_READY"

lemma picks_snoc_skip: "picks P f ys b \<Longrightarrow> (P y \<Longrightarrow> f y \<le> f b) \<Longrightarrow> picks P f (ys @ [y]) b"
  unfolding picks_def by (elim exE conjE, rule_tac x = us in exI, rule_tac x = "vs @ [y]" in exI) auto

lemma picks_snoc_take:
  assumes "P y" and "\<And>x. x \<in> set ys \<Longrightarrow> P x \<Longrightarrow> f x < f y"
  shows "picks P f (ys @ [y]) y"
  unfolding picks_def using assms by (intro exI[of _ ys] exI[of _ "[]"]) auto

lemma picks_max: "picks P f ys b \<Longrightarrow> y \<in> set ys \<Longrightarrow> P y \<Longrightarrow> f y \<le> f b"
  by (auto simp: picks_def less_imp_le)

lemma picks_mem: "picks P f ys b \<Longrightarrow> b \<in> set ys \<and> P b"
  by (auto simp: picks_def)

lemma better_simps:
  "better ts None y = (if ready ts y then Some y else None)"
  "better ts (Some b) y = (if ready ts y \<and> priority (ts b) < priority (ts y) then Some y else Some b)"
  by (simp_all add: better_def ready_def)

lemma foldl_better:
  "case foldl (better ts) None ys of
     None \<Rightarrow> \<forall>y \<in> set ys. \<not> ready ts y
   | Some b \<Rightarrow> picks (ready ts) (\<lambda>x. priority (ts x)) ys b"
proof (induction ys rule: rev_induct)
  case Nil
  then show ?case by simp
next
  case (snoc y ys)
  show ?case
  proof (cases "foldl (better ts) None ys")
    case None
    with snoc have "\<forall>x \<in> set ys. \<not> ready ts x" by simp
    with None show ?thesis
      by (auto simp: better_simps intro!: picks_snoc_take)
  next
    case (Some b)
    with snoc have p: "picks (ready ts) (\<lambda>x. priority (ts x)) ys b" by simp
    show ?thesis
    proof (cases "ready ts y \<and> priority (ts b) < priority (ts y)")
      case True
      with Some have "foldl (better ts) None (ys @ [y]) = Some y" by (simp add: better_simps)
      moreover have "picks (ready ts) (\<lambda>x. priority (ts x)) (ys @ [y]) y"
        using True picks_max[OF p] by (intro picks_snoc_take) (auto intro: le_less_trans)
      ultimately show ?thesis by simp
    next
      case False
      with Some have "foldl (better ts) None (ys @ [y]) = Some b" by (auto simp: better_simps)
      moreover have "picks (ready ts) (\<lambda>x. priority (ts x)) (ys @ [y]) b"
        using False by (intro picks_snoc_skip[OF p]) auto
      ultimately show ?thesis by simp
    qed
  qed
qed

lemma ring_scan_segment:
  "segment (\<lambda>x. next_task (ts x)) (Some z) (z # zs) stop \<Longrightarrow> stop \<notin> Some ` set zs \<Longrightarrow>
     ring_scan ts stop best (Some z) = Some (foldl (better ts) best (z # zs))"
proof (induction zs arbitrary: z best)
  case Nil
  then show ?case by (simp add: ring_scan.simps)
next
  case (Cons y ys)
  then show ?case by (subst ring_scan.simps) auto
qed

text \<open>The tasks a call of rtos\_schedule\_next chooses from: the running one counts as ready.\<close>

definition demote :: "nat \<Rightarrow> task_store \<Rightarrow> task_store" where
  "demote t ts =
     (if task_state (ts t) = RTOS_TASK_RUNNING
      then upd_task t (\<lambda>b. b\<lparr>task_state := RTOS_TASK_READY\<rparr>) ts else ts)"

definition promote :: "rtos_task \<Rightarrow> rtos_task" where
  "promote c = c\<lparr>task_state := RTOS_TASK_RUNNING, switch_count := switch_count c + 1\<rparr>"

lemma promote_eq:
  "promote = (\<lambda>c. c\<lparr>task_state := RTOS_TASK_RUNNING, switch_count := switch_count c + 1\<rparr>)"
  by (simp add: promote_def fun_eq_iff)

lemma demote_fields [simp]:
  "next_task (demote t ts x) = next_task (ts x)" "priority (demote t ts x) = priority (ts x)"
  by (simp_all add: demote_def upd_task_apply)

lemma promote_fields [simp]:
  "next_task (promote c) = next_task c" "priority (promote c) = priority c"
  "task_state (promote c) = RTOS_TASK_RUNNING"
  by (simp_all add: promote_def)

lemma scan_ring:
  assumes "task_ring k (t # rest)"
  shows "ring_scan (demote t (tasks k)) (next_task (tasks k t)) None (next_task (tasks k t)) =
    Some (foldl (better (demote t (tasks k))) None (rest @ [t]))"
proof -
  let ?ts = "demote t (tasks k)"
  have "current_task k = Some t" using assms by (simp add: task_ring_def)
  then have seg: "segment (\<lambda>x. next_task (tasks k x)) (next_task (tasks k t)) rest (Some t)"
    and dis: "distinct (t # rest)"
    using assms by (simp_all add: task_ring_def)
  obtain z zs where z: "rest @ [t] = z # zs" "z \<notin> set zs"
    using dis by (cases rest) auto
  have nt: "next_task (tasks k t) = Some z" using seg z(1) by (cases rest) auto
  have "segment (\<lambda>x. next_task (tasks k x)) (Some z) (rest @ [t]) (Some z)"
    unfolding segment_append by (rule exI[of _ "Some t"]) (use seg in \<open>simp add: nt\<close>)
  then have "segment (\<lambda>x. next_task (?ts x)) (Some z) (rest @ [t]) (Some z)" by (simp only: demote_fields)
  then have "segment (\<lambda>x. next_task (?ts x)) (Some z) (z # zs) (Some z)" unfolding z(1) .
  from ring_scan_segment[OF this] z(2) show ?thesis unfolding nt z(1) by blast
qed

lemma ring_rotate:
  assumes "task_ring k xs" and "b \<in> set xs"
  shows "\<exists>us vs. xs = us @ b # vs \<and> task_ring (k\<lparr>current_task := Some b\<rparr>) (b # vs @ us)"
proof -
  from assms(2) obtain us vs where xs: "xs = us @ b # vs" by (meson split_list)
  let ?nx = "\<lambda>x. next_task (tasks k x)"
  have "segment ?nx (current_task k) (us @ b # vs) (current_task k)"
    using assms(1) xs unfolding task_ring_def by blast
  then obtain r where "segment ?nx (current_task k) us r" "segment ?nx r (b # vs) (current_task k)"
    by (auto simp only: segment_append)
  then have "segment ?nx (next_task (tasks k b)) vs (current_task k)" "segment ?nx (current_task k) us (Some b)"
    by simp_all
  then have "segment ?nx (next_task (tasks k b)) (vs @ us) (Some b)" by (auto simp only: segment_append)
  moreover have "set (b # vs @ us) = set xs" "distinct (b # vs @ us) = distinct xs" unfolding xs by auto
  ultimately have "task_ring (k\<lparr>current_task := Some b\<rparr>) (b # vs @ us)"
    using assms(1) unfolding task_ring_def by simp
  with xs show ?thesis by blast
qed

lemma schedule_picks:
  assumes ring: "task_ring k (t # rest)"
    and free: "scheduler_lock_count k = 0 \<or> task_state (tasks k t) \<noteq> RTOS_TASK_RUNNING"
    and b: "foldl (better (demote t (tasks k))) None (rest @ [t]) = Some b"
  obtains k' where "rtos_schedule_next k = Some (Inr k')" "current_task k' = Some b"
    "tasks k' = upd_task b promote (demote t (tasks k))" "scheduler_pending k' = 0"
    "task_count k' = task_count k" "scheduler_lock_count k' = scheduler_lock_count k"
    "linked_at k' = linked_at k"
proof -
  have cur: "current_task k = Some t" using ring by (simp add: task_ring_def)
  let ?k1 = "k\<lparr>scheduler_pending := 0\<rparr>"
  have dem: "(if task_state (tasks ?k1 t) = RTOS_TASK_RUNNING
       then ?k1\<lparr>tasks := upd_task t (\<lambda>b. b\<lparr>task_state := RTOS_TASK_READY\<rparr>) (tasks ?k1)\<rparr> else ?k1) =
     ?k1\<lparr>tasks := demote t (tasks k)\<rparr>" by (simp add: demote_def)
  let ?k4 = "?k1\<lparr>tasks := upd_task b promote (demote t (tasks k)), current_task := Some b\<rparr>"
  let ?k5 = "if b \<noteq> t then rtos_trace_record RTOS_TRACE_SWITCH (task_word (linked_at ?k4) (Some t))
     (task_word (linked_at ?k4) (Some b)) ?k4 else ?k4"
  have "rtos_schedule_next k = Some (Inr ?k5)"
    unfolding rtos_schedule_next_def cur bind.bind_lunit Let_def dem
    using free scan_ring[OF ring] b by (auto simp flip: promote_eq)
  then show ?thesis by (rule that) simp_all
qed

lemma schedule_nobody:
  assumes ring: "task_ring k (t # rest)"
    and free: "scheduler_lock_count k = 0 \<or> task_state (tasks k t) \<noteq> RTOS_TASK_RUNNING"
    and b: "foldl (better (demote t (tasks k))) None (rest @ [t]) = None"
  shows "rtos_schedule_next k = Some (Inl (rtos_assert_failed ''best_task != 0'' ''kernel/sched.c'' 118
    (k\<lparr>scheduler_pending := 0, tasks := demote t (tasks k)\<rparr>)))"
proof -
  have cur: "current_task k = Some t" using ring by (simp add: task_ring_def)
  let ?k1 = "k\<lparr>scheduler_pending := 0\<rparr>"
  have dem: "(if task_state (tasks ?k1 t) = RTOS_TASK_RUNNING
       then ?k1\<lparr>tasks := upd_task t (\<lambda>b. b\<lparr>task_state := RTOS_TASK_READY\<rparr>) (tasks ?k1)\<rparr> else ?k1) =
     ?k1\<lparr>tasks := demote t (tasks k)\<rparr>" by (simp add: demote_def)
  show ?thesis
    unfolding rtos_schedule_next_def cur bind.bind_lunit Let_def dem
    using free scan_ring[OF ring] b by auto
qed

lemma schedule_keeps:
  assumes "task_ring k (t # rest)" and "scheduler_lock_count k = 0 \<or> task_state (tasks k t) \<noteq> RTOS_TASK_RUNNING"
    and "rtos_schedule_next k = Some (Inr k')"
  shows "linked_at k' = linked_at k \<and> task_count k' = task_count k"
proof (cases "foldl (better (demote t (tasks k))) None (rest @ [t])")
  case None
  from schedule_nobody[OF assms(1,2) None] assms(3) show ?thesis by simp
next
  case (Some b)
  from schedule_picks[OF assms(1,2) Some] obtain k2 where
    "rtos_schedule_next k = Some (Inr k2)" "task_count k2 = task_count k" "linked_at k2 = linked_at k" .
  with assms(3) show ?thesis by simp
qed

section \<open>Properties\<close>

definition runnable :: "kernel \<Rightarrow> nat \<Rightarrow> bool" where
  "runnable k x \<longleftrightarrow> task_state (tasks k x) = RTOS_TASK_READY \<or>
     current_task k = Some x \<and> task_state (tasks k x) = RTOS_TASK_RUNNING"

lemma ready_demote: "current_task k = Some t \<Longrightarrow> ready (demote t (tasks k)) = runnable k"
  by (auto simp: ready_def demote_def runnable_def upd_task_apply fun_eq_iff)

lemma schedule_decides:
  assumes ring: "task_ring k (t # rest)"
    and free: "scheduler_lock_count k = 0 \<or> task_state (tasks k t) \<noteq> RTOS_TASK_RUNNING"
  shows "if \<forall>x \<in> set (t # rest). \<not> runnable k x
    then \<exists>parked. rtos_schedule_next k = Some (Inl parked) \<and> as_active (assert_record parked) = 1
    else \<exists>b k' ys. rtos_schedule_next k = Some (Inr k') \<and>
      picks (runnable k) (\<lambda>x. priority (tasks k x)) (rest @ [t]) b \<and>
      current_task k' = Some b \<and> scheduler_pending k' = 0 \<and> task_ring k' (b # ys) \<and>
      (\<forall>x. task_state (tasks k' x) =
         (if x = b then RTOS_TASK_RUNNING
          else if x = t \<and> task_state (tasks k t) = RTOS_TASK_RUNNING then RTOS_TASK_READY
          else task_state (tasks k x)))"
proof (cases "foldl (better (demote t (tasks k))) None (rest @ [t])")
  case None
  have cur: "current_task k = Some t" using ring by (simp add: task_ring_def)
  from None foldl_better[where ts = "demote t (tasks k)" and ys = "rest @ [t]"]
  have "\<forall>x \<in> set (t # rest). \<not> runnable k x" by (simp add: ready_demote[OF cur])
  with schedule_nobody[OF ring free None] show ?thesis by simp
next
  case (Some b)
  have cur: "current_task k = Some t" using ring by (simp add: task_ring_def)
  from Some foldl_better[where ts = "demote t (tasks k)" and ys = "rest @ [t]"]
  have p: "picks (runnable k) (\<lambda>x. priority (tasks k x)) (rest @ [t]) b" by (simp add: ready_demote[OF cur])
  obtain k' where k': "rtos_schedule_next k = Some (Inr k')" "current_task k' = Some b"
    "tasks k' = upd_task b promote (demote t (tasks k))" "scheduler_pending k' = 0"
    "task_count k' = task_count k" using schedule_picks[OF ring free Some] .
  from picks_mem[OF p] have mem: "b \<in> set (t # rest)" "runnable k b" by auto
  from ring_rotate[OF ring mem(1)] obtain ys where "task_ring (k\<lparr>current_task := Some b\<rparr>) (b # ys)" by blast
  moreover have "task_ring k' (b # ys) = task_ring (k\<lparr>current_task := Some b\<rparr>) (b # ys)"
    by (rule task_ring_cong) (simp_all add: k' upd_task_apply)
  moreover have "\<forall>x. task_state (tasks k' x) =
         (if x = b then RTOS_TASK_RUNNING
          else if x = t \<and> task_state (tasks k t) = RTOS_TASK_RUNNING then RTOS_TASK_READY
          else task_state (tasks k x))"
    by (auto simp: k'(3) upd_task_apply demote_def)
  ultimately show ?thesis using k' p mem by auto
qed

text \<open>
  C7. The scheduling decision. With the scheduler unlocked, or a current task that cannot go
  on, rtos\_schedule\_next terminates; it parks the system only if no task can run, and else it
  switches to the first of the most urgent runnable tasks in ring order behind the current one,
  whose state becomes running, takes the running state from the old task, changes no other
  task's state, and leaves a ring that starts at the new task.
\<close>

theorem schedule_next_correct:
  assumes ring: "task_ring k (t # rest)"
    and free: "scheduler_lock_count k = 0 \<or> task_state (tasks k t) \<noteq> RTOS_TASK_RUNNING"
  shows "if \<forall>x \<in> set (t # rest). \<not> runnable k x
    then \<exists>parked. rtos_schedule_next k = Some (Inl parked) \<and> as_active (assert_record parked) = 1
    else \<exists>b k' ys. rtos_schedule_next k = Some (Inr k') \<and>
      picks (runnable k) (\<lambda>x. priority (tasks k x)) (rest @ [t]) b \<and>
      current_task k' = Some b \<and> scheduler_pending k' = 0 \<and> task_ring k' (b # ys) \<and>
      (\<forall>x. task_state (tasks k' x) =
         (if x = b then RTOS_TASK_RUNNING
          else if x = t \<and> task_state (tasks k t) = RTOS_TASK_RUNNING then RTOS_TASK_READY
          else task_state (tasks k x)))"
  by (rule schedule_decides[OF assms])

text \<open>Three tasks: 0 runs with priority 1, tasks 1 and 2 are ready with priority 2.\<close>

definition sample_sched_kernel :: kernel where
  "sample_sched_kernel = (zero_kernel sample_image)\<lparr>task_count := 3, current_task := Some 0,
     tasks := (\<lambda>_. zero_task)(
       0 := zero_task\<lparr>next_task := Some 1, priority := 1, task_state := RTOS_TASK_RUNNING\<rparr>,
       1 := zero_task\<lparr>next_task := Some 2, priority := 2\<rparr>,
       2 := zero_task\<lparr>next_task := Some 0, priority := 2\<rparr>)\<rparr>"

lemma sample_sched_ring: "task_ring sample_sched_kernel [0, 1, 2]"
  by (auto simp: task_ring_def sample_sched_kernel_def)

theorem schedule_next_correct_witness:
  "\<exists>k'. rtos_schedule_next sample_sched_kernel = Some (Inr k') \<and> current_task k' = Some 1"
proof -
  have f: "scheduler_lock_count sample_sched_kernel = 0" by (simp add: sample_sched_kernel_def zero_kernel_def)
  have r: "runnable sample_sched_kernel 1" by (simp add: runnable_def sample_sched_kernel_def zero_task_def)
  have "b = 1" if "picks (runnable sample_sched_kernel) (\<lambda>x. priority (tasks sample_sched_kernel x)) ([1, 2] @ [0]) b" for b
    using that r by (auto simp: picks_def sample_sched_kernel_def Cons_eq_append_conv zero_task_def)
  with schedule_next_correct[OF sample_sched_ring] f r show ?thesis by auto
qed

section \<open>Round robin\<close>

text \<open>Running the scheduler several times in a row, as with one call per tick.\<close>

fun schedule_rounds :: "nat \<Rightarrow> kernel \<Rightarrow> kernel option" where
  "schedule_rounds 0 k = Some k"
| "schedule_rounds (Suc n) k =
     (case rtos_schedule_next k of Some (Inr k') \<Rightarrow> schedule_rounds n k' | _ \<Rightarrow> None)"

text \<open>All tasks of the ring can run, and they have the same priority.\<close>

definition peers :: "kernel \<Rightarrow> nat list \<Rightarrow> u32 \<Rightarrow> bool" where
  "peers k xs prio \<longleftrightarrow> task_ring k xs \<and> xs \<noteq> [] \<and> scheduler_lock_count k = 0 \<and>
     (\<forall>x \<in> set xs. priority (tasks k x) = prio \<and>
        task_state (tasks k x) = (if x = hd xs then RTOS_TASK_RUNNING else RTOS_TASK_READY))"

lemma foldl_better_peers:
  assumes "\<forall>y \<in> set (z # zs). ready ts y \<and> priority (ts y) = prio"
  shows "foldl (better ts) None (z # zs) = Some z"
proof -
  have "foldl (better ts) (Some z) ys = Some z" if "\<forall>y \<in> set ys. priority (ts y) = priority (ts z)" for ys
    using that by (induction ys) (auto simp: better_simps)
  with assms show ?thesis by (auto simp: better_simps)
qed

lemma peers_step:
  assumes "peers k xs prio"
  obtains k' where "rtos_schedule_next k = Some (Inr k')" "peers k' (rotate1 xs) prio"
proof -
  obtain t rest where xs: "xs = t # rest" using assms by (cases xs) (auto simp: peers_def)
  have ring: "task_ring k (t # rest)" and lock: "scheduler_lock_count k = 0"
    using assms by (simp_all add: peers_def xs)
  have run: "task_state (tasks k t) = RTOS_TASK_RUNNING" using assms by (simp add: peers_def xs)
  obtain z zs where z: "rest @ [t] = z # zs" by (cases rest) auto
  have "set (rest @ [t]) = set xs" by (auto simp: xs)
  then have mem: "set (z # zs) = set xs" "z \<in> set (t # rest)" unfolding z by (auto simp: xs)
  have best: "foldl (better (demote t (tasks k))) None (rest @ [t]) = Some z"
    unfolding z using assms run mem(1)
    by (intro foldl_better_peers[where prio = prio])
      (auto simp: peers_def xs ready_def demote_def upd_task_apply split: if_splits)
  obtain k' where k': "rtos_schedule_next k = Some (Inr k')" "current_task k' = Some z"
    "tasks k' = upd_task z promote (demote t (tasks k))"
    "task_count k' = task_count k" "scheduler_lock_count k' = scheduler_lock_count k"
    using schedule_picks[OF ring _ best] lock by blast
  have dis: "distinct (t # rest)" using ring by (simp add: task_ring_def)
  from ring_rotate[OF ring mem(2)] obtain us vs where
    uv: "t # rest = us @ z # vs" "task_ring (k\<lparr>current_task := Some z\<rparr>) (z # vs @ us)" by blast
  have "z # vs @ us = rotate1 xs"
  proof (cases rest)
    case Nil
    with uv(1) z show ?thesis by (auto simp: xs Cons_eq_append_conv)
  next
    case (Cons a r)
    with z have "z = a" by simp
    with uv(1) dis Cons show ?thesis by (auto simp: xs Cons_eq_append_conv)
  qed
  with uv(2) have "task_ring k' (rotate1 xs)"
    using k' by (subst task_ring_cong[of _ "k\<lparr>current_task := Some z\<rparr>"]) (simp_all add: upd_task_apply)
  moreover have "hd (rotate1 xs) = z" by (simp add: xs z)
  moreover have "\<forall>x \<in> set xs. priority (tasks k' x) = prio \<and>
        task_state (tasks k' x) = (if x = z then RTOS_TASK_RUNNING else RTOS_TASK_READY)"
    using assms run by (auto simp: k' peers_def xs upd_task_apply demote_def)
  ultimately have "peers k' (rotate1 xs) prio" using lock k' xs by (simp add: peers_def)
  with k'(1) show ?thesis by (rule that)
qed



section \<open>The scheduler lock\<close>

lemma pendsv_critical [simp]:
  "pendsv_pending (port_enter_critical p) = pendsv_pending p"
  "pendsv_pending (port_exit_critical p) = pendsv_pending p"
  "pendsv_pending (port_trigger_pendsv p)"
  by (simp_all add: port_enter_critical_def port_exit_critical_def Let_def cpsid_i_def write_primask_def
      port_trigger_pendsv_def)

lemma locks_fields:
  "scheduler_lock_count ((rtos_sched_lock ^^ n) k) = scheduler_lock_count k + of_nat n"
  "tasks ((rtos_sched_lock ^^ n) k) = tasks k"
  "current_task ((rtos_sched_lock ^^ n) k) = current_task k"
  "pendsv_pending (port ((rtos_sched_lock ^^ n) k)) = pendsv_pending (port k)"
  by (induction n) (simp_all add: rtos_sched_lock_def Let_def)

lemma unlock_inner:
  assumes "scheduler_lock_count k \<noteq> 0" and "scheduler_lock_count k - 1 \<noteq> 0"
  shows "scheduler_lock_count (rtos_sched_unlock k) = scheduler_lock_count k - 1"
    "scheduler_pending (rtos_sched_unlock k) = scheduler_pending k"
    "pendsv_pending (port (rtos_sched_unlock k)) = pendsv_pending (port k)"
    "tasks (rtos_sched_unlock k) = tasks k"
  using assms by (simp_all add: rtos_sched_unlock_def Let_def)

lemma unlock_last:
  assumes "scheduler_lock_count k = 1" and "scheduler_pending k \<noteq> 0"
  shows "scheduler_lock_count (rtos_sched_unlock k) = 0" "scheduler_pending (rtos_sched_unlock k) = 0"
    "pendsv_pending (port (rtos_sched_unlock k))" "tasks (rtos_sched_unlock k) = tasks k"
  using assms by (simp_all add: rtos_sched_unlock_def Let_def)

lemma unlocks_fields:
  assumes "unat (scheduler_lock_count k) = n" and "scheduler_pending k \<noteq> 0"
  shows "m < n \<Longrightarrow> scheduler_lock_count ((rtos_sched_unlock ^^ m) k) = scheduler_lock_count k - of_nat m \<and>
    scheduler_pending ((rtos_sched_unlock ^^ m) k) = scheduler_pending k \<and>
    pendsv_pending (port ((rtos_sched_unlock ^^ m) k)) = pendsv_pending (port k) \<and>
    tasks ((rtos_sched_unlock ^^ m) k) = tasks k"
proof (induction m)
  case 0
  then show ?case by simp
next
  case (Suc m)
  have "unat (scheduler_lock_count k - of_nat m) \<noteq> 0" "unat (scheduler_lock_count k - of_nat (Suc m)) \<noteq> 0"
    using Suc.prems assms(1) by (simp_all add: unat_sub_of_nat del: of_nat_Suc)
  then have "scheduler_lock_count k - of_nat m \<noteq> 0" "scheduler_lock_count k - of_nat m - 1 \<noteq> 0"
    by (auto simp: diff_diff_eq add.commute)
  with Suc show ?case by (simp add: unlock_inner diff_diff_eq add.commute)
qed

text \<open>
  C19. The scheduler lock nests and loses no switch. Under \<open>n\<close> nested locks a scheduling
  decision leaves the running task alone and is only noted; the unlocks count down without
  asking for a switch, and the last one, exactly, requests it and clears the note.
\<close>

theorem lock_defers_switch:
  assumes "current_task k = Some t" and "task_state (tasks k t) = RTOS_TASK_RUNNING"
    and "scheduler_lock_count k = 0" and "0 < n" and "n < 2 ^ 32"
  shows "\<exists>k2. rtos_schedule_next ((rtos_sched_lock ^^ n) k) = Some (Inr k2) \<and>
    current_task k2 = Some t \<and> tasks k2 = tasks k \<and>
    (\<forall>m < n. pendsv_pending (port ((rtos_sched_unlock ^^ m) k2)) = pendsv_pending (port k) \<and>
       rtos_sched_lock_depth ((rtos_sched_unlock ^^ m) k2) = of_nat (n - m)) \<and>
    pendsv_pending (port ((rtos_sched_unlock ^^ n) k2)) \<and>
    scheduler_pending ((rtos_sched_unlock ^^ n) k2) = 0 \<and>
    rtos_sched_lock_depth ((rtos_sched_unlock ^^ n) k2) = 0 \<and>
    tasks ((rtos_sched_unlock ^^ n) k2) = tasks k"
proof -
  define k1 where "k1 = (rtos_sched_lock ^^ n) k"
  have k1: "scheduler_lock_count k1 = of_nat n" "tasks k1 = tasks k" "current_task k1 = Some t"
    "pendsv_pending (port k1) = pendsv_pending (port k)"
    by (simp_all add: k1_def locks_fields assms(1,3))
  let ?k2 = "k1\<lparr>scheduler_pending := 1\<rparr>"
  have n: "unat (of_nat n :: u32) = n" using assms(5) by (simp add: unat_of_nat)
  then have nz: "(of_nat n :: u32) \<noteq> 0" using assms(4) by (metis less_irrefl unat_0)
  have sched: "rtos_schedule_next k1 = Some (Inr ?k2)"
    using assms(2) nz by (simp add: rtos_schedule_next_def Let_def k1)
  have cnt: "unat (scheduler_lock_count ?k2) = n" by (simp add: k1 n)
  note un = unlocks_fields[OF cnt, simplified]
  have depth: "rtos_sched_lock_depth ((rtos_sched_unlock ^^ m) ?k2) = of_nat (n - m)" if "m < n" for m
    using un[OF that] that by (simp add: rtos_sched_lock_depth_def k1 of_nat_diff)
  obtain j where j: "n = Suc j" using assms(4) by (cases n) auto
  have "scheduler_lock_count ((rtos_sched_unlock ^^ j) ?k2) = 1" "scheduler_pending ((rtos_sched_unlock ^^ j) ?k2) \<noteq> 0"
    "tasks ((rtos_sched_unlock ^^ j) ?k2) = tasks k"
    using un[of j] depth[of j] j by (auto simp: rtos_sched_lock_depth_def k1(2))
  note last = unlock_last[OF this(1,2)] this(3)
  have "(rtos_sched_unlock ^^ n) ?k2 = rtos_sched_unlock ((rtos_sched_unlock ^^ j) ?k2)" by (simp add: j)
  with sched un depth last show ?thesis
    unfolding k1_def[symmetric]
    by (intro exI[of _ ?k2]) (simp add: rtos_sched_lock_depth_def k1)
qed

theorem lock_defers_switch_witness:
  "\<exists>k2. rtos_schedule_next ((rtos_sched_lock ^^ 2) sample_sched_kernel) = Some (Inr k2) \<and>
    pendsv_pending (port ((rtos_sched_unlock ^^ 2) k2))"
  using lock_defers_switch[of sample_sched_kernel 0 2]
  by (auto simp: sample_sched_kernel_def zero_kernel_def zero_task_def)

section \<open>Sleeping\<close>

text \<open>
  Sleeping lasts as long as it says: a task that sleeps for \<open>ms\<close> milliseconds, below the
  range in which the conversion overflows, requests a switch, stays blocked for \<open>ms\<close> ticks and
  is made ready by the tick that completes them.
\<close>

lemma sleep_duration:
  assumes "current_task k = Some t" and "t < unat (task_count k)"
    and "0 < unat ms" and "unat ms \<le> 4294966"
  shows "\<exists>k1. rtos_sleep ms k = Some k1 \<and> pendsv_pending (port k1) \<and>
    (\<forall>n. task_state (tasks ((rtos_task_tick ^^ n) k1) t) =
       (if n < unat ms then RTOS_TASK_BLOCKED else RTOS_TASK_READY))"
proof -
  let ?ts = "upd_task t (\<lambda>b. b\<lparr>delay_ticks := rtos_ms_to_ticks ms, wait_type := RTOS_WAIT_SLEEP,
    wait_result := RTOS_OK, task_state := RTOS_TASK_BLOCKED\<rparr>) (tasks k)"
  define k1 where "k1 = rtos_yield (rtos_exit_critical ((rtos_enter_critical k)\<lparr>tasks := ?ts\<rparr>))"
  have "ms \<noteq> 0" using assms(3) by auto
  then have k1': "rtos_sleep ms k = Some k1"
    using assms(1) by (simp add: rtos_sleep_def Let_def k1_def)
  have "tasks k1 = ?ts" "task_count k1 = task_count k" "pendsv_pending (port k1)"
    by (simp_all add: k1_def)
  note k1 = k1' this
  have "unat (rtos_ms_to_ticks ms) = unat ms" using ms_to_ticks_exact[OF assms(4)] assms(3) by simp
  then have "unat (delay_ticks (tasks k1 t)) = unat ms" "delay_ticks (tasks k1 t) \<noteq> 0"
    using assms(3) by (auto simp: k1)
  moreover have "task_state (tasks k1 t) = RTOS_TASK_BLOCKED" by (simp add: k1)
  ultimately show ?thesis
    using k1 assms(2)
    by (auto simp: task_ticks_apply tick_block_counts tick_block_expires not_less)
qed

lemma sleep_duration_example:
  "\<exists>k1. rtos_sleep 3 sample_sched_kernel = Some k1 \<and>
     task_state (tasks ((rtos_task_tick ^^ 2) k1) 0) = RTOS_TASK_BLOCKED \<and>
     task_state (tasks ((rtos_task_tick ^^ 3) k1) 0) = RTOS_TASK_READY"
proof -
  have "current_task sample_sched_kernel = Some 0" "0 < unat (task_count sample_sched_kernel)"
    by (simp_all add: sample_sched_kernel_def)
  from sleep_duration[OF this, of 3] show ?thesis by auto
qed

end
