(* ===== verification/Tick_Handler.thy ===== *)
theory Tick_Handler
  imports Soft_Timer Debug_Snapshots Scheduler
begin

text \<open>
  The tick handler (kernel/tick.c), which the SysTick interrupt calls once per millisecond: it
  counts the tick, accounts it to the running task, counts down delays and timers, checks one
  stack guard, refreshes the debug snapshots every hundredth time and asks for a context switch.
\<close>

definition DEBUG_UPDATE_PERIOD_TICKS :: u32 where [simp]: "DEBUG_UPDATE_PERIOD_TICKS = 100"

text \<open>\<open>Inl\<close> is a parked system: a stack guard was found overwritten.\<close>

definition rtos_tick_handler :: "callbacks \<Rightarrow> kernel \<Rightarrow> (kernel + kernel) option" where
  "rtos_tick_handler call k = do {
     let k1 = k\<lparr>tick_count := tick_count k + 1\<rparr>;
     let k2 = rtos_task_account_tick k1;
     let k3 = rtos_task_tick k2;
     k4 \<leftarrow> rtos_timer_tick call k3;
     case rtos_check_stack_guards k4 of
       Inl parked \<Rightarrow> Some (Inl parked)
     | Inr k5 \<Rightarrow>
         let k6 = (if debug_update_ticks k5 = 0
                   then (rtos_debug_update k5)\<lparr>debug_update_ticks := DEBUG_UPDATE_PERIOD_TICKS\<rparr> else k5);
             k7 = k6\<lparr>debug_update_ticks := debug_update_ticks k6 - 1\<rparr>
         in Some (Inr (k7\<lparr>port := port_trigger_pendsv (port k7)\<rparr>))
   }"

text \<open>The SysTick exception calls the tick handler and nothing else.\<close>

definition SysTick_Handler :: "callbacks \<Rightarrow> kernel \<Rightarrow> (kernel + kernel) option" where
  "SysTick_Handler call k = rtos_tick_handler call k"

section \<open>Effects of the walk over the timers\<close>

text \<open>
  Any relation that callbacks respect and that ignores the timers relates the states before and
  after the walk, wherever it ends.
\<close>

definition ignores_timers :: "(kernel \<Rightarrow> kernel \<Rightarrow> bool) \<Rightarrow> bool" where
  "ignores_timers R \<longleftrightarrow> (\<forall>k. R k k) \<and> (\<forall>a b c. R a b \<longrightarrow> R b c \<longrightarrow> R a c) \<and> (\<forall>t f k. R k (upd_timer t f k))"

lemma timer_step_rel:
  assumes "ignores_timers R" and "\<And>f a k k'. call f a k = Some k' \<Longrightarrow> R k k'"
    and "timer_step call t k = Some k'"
  shows "R k k'"
proof -
  let ?k1 = "upd_timer t (\<lambda>b. b\<lparr>tm_remaining_ticks := tm_remaining_ticks b - 1\<rparr>) k"
  consider "k' = k" | "k' = ?k1"
    | "\<exists>k2 u. call (tm_callback (timers ?k1 t)) (tm_arg (timers ?k1 t)) ?k1 = Some k2 \<and> k' = upd_timer t u k2"
    using assms(3) by (auto simp: timer_step_def Let_def split: if_splits bind_splits)
  then show ?thesis
  proof cases
    case 3
    then obtain k2 u where "R ?k1 k2" "k' = upd_timer t u k2" using assms(2) by blast
    then show ?thesis using assms(1) unfolding ignores_timers_def by blast
  qed (use assms(1) in \<open>auto simp: ignores_timers_def\<close>)
qed

lemma timer_scan_rel:
  assumes "ignores_timers R" and "\<And>f a k k'. call f a k = Some k' \<Longrightarrow> R k k'"
    and "timer_scan call t k = Some k'"
  shows "R k k'"
proof -
  have "call = call \<longrightarrow> R k k'"
  proof (rule timer_scan.raw_induct[OF _ assms(3), where P = "\<lambda>c t k k'. c = call \<longrightarrow> R k k'"], rule impI)
    fix scan c t k k'
    assume IH: "\<And>t' k' b y. scan t' k' b = Some y \<Longrightarrow> t' = call \<longrightarrow> R b y"
      and eq: "(if t = 0 then Some k
        else timer_step c t k \<bind> (\<lambda>k'. scan c (tm_next (timers k' t)) k')) = Some k'" and c: "c = call"
    show "R k k'"
    proof (cases "t = 0")
      case True
      then show ?thesis using eq assms(1) by (auto simp: ignores_timers_def)
    next
      case False
      then obtain k1 where k1: "timer_step call t k = Some k1" "scan call (tm_next (timers k1 t)) k1 = Some k'"
        using eq c by (auto split: bind_splits)
      have "R k k1" using timer_step_rel[OF assms(1) _ k1(1)] assms(2) by blast
      moreover have "R k1 k'" using IH[OF k1(2)] by simp
      ultimately show ?thesis using assms(1) unfolding ignores_timers_def by blast
    qed
  qed
  then show ?thesis by simp
qed

section \<open>Properties\<close>

text \<open>Callbacks that leave alone what the rest of the handler works on.\<close>

definition bystander :: "callbacks \<Rightarrow> bool" where
  "bystander call \<longleftrightarrow> (\<forall>f a k k'. call f a k = Some k' \<longrightarrow>
     tasks k' = tasks k \<and> task_count k' = task_count k \<and> current_task k' = current_task k \<and>
     ram k' = ram k \<and> tick_count k' = tick_count k \<and> debug_update_ticks k' = debug_update_ticks k \<and>
     stack_guard_check_index k' = stack_guard_check_index k)"

definition same_tasks :: "kernel \<Rightarrow> kernel \<Rightarrow> bool" where
  "same_tasks k k' \<longleftrightarrow>
     tasks k' = tasks k \<and> task_count k' = task_count k \<and> current_task k' = current_task k \<and>
     ram k' = ram k \<and> tick_count k' = tick_count k \<and> debug_update_ticks k' = debug_update_ticks k \<and>
     stack_guard_check_index k' = stack_guard_check_index k"

lemma same_tasks_ignores: "ignores_timers same_tasks"
  by (auto simp: ignores_timers_def same_tasks_def upd_timer_def)

lemma timer_tick_same: "bystander call \<Longrightarrow> rtos_timer_tick call k = Some k' \<Longrightarrow> same_tasks k k'"
  unfolding rtos_timer_tick_def
  by (rule timer_scan_rel[OF same_tasks_ignores]) (auto simp: bystander_def same_tasks_def)

text \<open>The running task's account of a tick, then everybody's delay.\<close>

definition ticked :: "kernel \<Rightarrow> nat \<Rightarrow> rtos_task" where
  "ticked k x =
     (let b = (if current_task k = Some x \<and> task_state (tasks k x) = RTOS_TASK_RUNNING
               then (tasks k x)\<lparr>run_ticks := run_ticks (tasks k x) + 1\<rparr> else tasks k x)
      in if x < unat (task_count k) then tick_block b else b)"

lemma account_then_tick:
  "tasks (rtos_task_tick (rtos_task_account_tick k)) = ticked k"
  "task_count (rtos_task_tick (rtos_task_account_tick k)) = task_count k"
  "current_task (rtos_task_tick (rtos_task_account_tick k)) = current_task k"
proof -
  show "tasks (rtos_task_tick (rtos_task_account_tick k)) = ticked k"
    unfolding fun_eq_iff task_tick_apply
    by (auto simp: ticked_def Let_def rtos_task_account_tick_def upd_task_apply split: option.splits)
qed (simp_all add: rtos_task_account_tick_def rtos_task_tick_def split: option.splits)

lemma account_then_tick_frame [simp]:
  "timers (rtos_task_tick (rtos_task_account_tick k)) = timers k"
  "timer_list (rtos_task_tick (rtos_task_account_tick k)) = timer_list k"
  "ram (rtos_task_tick (rtos_task_account_tick k)) = ram k"
  "tick_count (rtos_task_tick (rtos_task_account_tick k)) = tick_count k"
  "debug_update_ticks (rtos_task_tick (rtos_task_account_tick k)) = debug_update_ticks k"
  "stack_guard_check_index (rtos_task_tick (rtos_task_account_tick k)) = stack_guard_check_index k"
  by (simp_all add: rtos_task_account_tick_def rtos_task_tick_def split: option.splits)

lemma ticked_stack [simp]:
  "stack_base (ticked k x) = stack_base (tasks k x)" "stack_words (ticked k x) = stack_words (tasks k x)"
  by (simp_all add: ticked_def Let_def tick_block_def)

lemma guard_ok_cong:
  "stack_base (tasks k' x) = stack_base (tasks k x) \<Longrightarrow> stack_words (tasks k' x) = stack_words (tasks k x) \<Longrightarrow>
     ram k' = ram k \<Longrightarrow> rtos_task_stack_guard_ok (Some x) k' = rtos_task_stack_guard_ok (Some x) k"
  by (simp add: rtos_task_stack_guard_ok_def Let_def)

text \<open>
  The handler in three parts: what happens before the timers, the walk over the timers, and what
  follows the guard check.
\<close>

definition tick_start :: "kernel \<Rightarrow> kernel" where
  "tick_start k = rtos_task_tick (rtos_task_account_tick (k\<lparr>tick_count := tick_count k + 1\<rparr>))"

definition tick_end :: "kernel \<Rightarrow> kernel" where
  "tick_end k =
     (let k6 = (if debug_update_ticks k = 0
                then (rtos_debug_update k)\<lparr>debug_update_ticks := DEBUG_UPDATE_PERIOD_TICKS\<rparr> else k);
          k7 = k6\<lparr>debug_update_ticks := debug_update_ticks k6 - 1\<rparr>
      in k7\<lparr>port := port_trigger_pendsv (port k7)\<rparr>)"

lemma tick_start_fields [simp]:
  "tasks (tick_start k) = ticked k" "task_count (tick_start k) = task_count k"
  "current_task (tick_start k) = current_task k" "timers (tick_start k) = timers k"
  "timer_list (tick_start k) = timer_list k" "ram (tick_start k) = ram k"
  "tick_count (tick_start k) = tick_count k + 1" "debug_update_ticks (tick_start k) = debug_update_ticks k"
  "stack_guard_check_index (tick_start k) = stack_guard_check_index k"
  "scheduler_lock_count (tick_start k) = scheduler_lock_count k"
  by (simp_all add: tick_start_def account_then_tick)
    (simp_all add: ticked_def fun_eq_iff rtos_task_tick_def rtos_task_account_tick_def split: option.splits)

lemma tick_end_fields [simp]:
  "tasks (tick_end k) = tasks k" "task_count (tick_end k) = task_count k"
  "current_task (tick_end k) = current_task k" "timers (tick_end k) = timers k"
  "timer_list (tick_end k) = timer_list k" "ram (tick_end k) = ram k" "tick_count (tick_end k) = tick_count k"
  "stack_guard_check_index (tick_end k) = stack_guard_check_index k"
  "scheduler_lock_count (tick_end k) = scheduler_lock_count k"
  "debug_update_ticks (tick_end k) = (if debug_update_ticks k = 0 then 99 else debug_update_ticks k - 1)"
  "pendsv_pending (port (tick_end k))"
  by (simp_all add: tick_end_def Let_def)

lemma guard_cursor_fields:
  "task_count k' = task_count k \<Longrightarrow> stack_guard_check_index k' = stack_guard_check_index k \<Longrightarrow>
     guard_cursor k' = guard_cursor k"
  by (simp add: guard_cursor_def)

lemma tick_handler_parts:
  assumes "observes call obs" and "timers_listed k xs"
  obtains k4 where "rtos_timer_tick call (tick_start k) = Some k4" "timers_listed k4 xs"
    "\<forall>s. timers k4 s = (if s \<in> set xs then tick_timer (timers k s) else timers k s)"
    "rtos_tick_handler call k =
       Some (case rtos_check_stack_guards k4 of Inl parked \<Rightarrow> Inl parked | Inr k5 \<Rightarrow> Inr (tick_end k5))"
proof -
  have "timers_listed (tick_start k) xs" using assms(2) timers_listed_cong[of "tick_start k" k xs] by simp
  from timer_tick_walk[OF assms(1) this] obtain k4 where
    k4: "rtos_timer_tick call (tick_start k) = Some k4" "timers_listed k4 xs"
    "\<forall>s. timers k4 s = (if s \<in> set xs then tick_timer (timers k s) else timers k s)" by auto
  have "rtos_tick_handler call k =
       Some (case rtos_check_stack_guards k4 of Inl parked \<Rightarrow> Inl parked | Inr k5 \<Rightarrow> Inr (tick_end k5))"
    unfolding rtos_tick_handler_def Let_def
    by (simp only: k4(1) bind.bind_lunit flip: tick_start_def) (simp add: tick_end_def Let_def split: sum.splits)
  from that[OF k4 this] show ?thesis .
qed


text \<open>The kernel with one timer, and a running task of an empty stack.\<close>

definition sample_tick_kernel :: kernel where
  "sample_tick_kernel = sample_timer_kernel\<lparr>task_count := 1, current_task := Some 0,
     tasks := (\<lambda>_. zero_task\<lparr>stack_base := 0x20000400, task_state := RTOS_TASK_RUNNING\<rparr>)\<rparr>"


end
