(* ===== verification/Kernel_Effects.thy ===== *)
theory Kernel_Effects
  imports Semaphore Msg_Queue Mutex Event_Flags Mem_Pool Work_Queue Tick_Handler
begin

text \<open>
  What any kernel call can do to the life of the tasks. The relation \<open>effect S\<close> bounds it: links,
  count and current task stay; a request for a switch stays; a task is made ready only out of a
  blocked state, and only the tasks in \<open>S\<close>, the callers, may leave the running state, with a
  switch requested. Every call of the kernel is shown to be within this bound, whatever state
  its objects are in, and the system theory builds its invariant on that.
\<close>

section \<open>Effects on the control blocks\<close>

definition stirs :: "nat set \<Rightarrow> bool \<Rightarrow> task_store \<Rightarrow> task_store \<Rightarrow> bool" where
  "stirs S p ts ts' \<longleftrightarrow> (\<forall>x. next_task (ts' x) = next_task (ts x) \<and>
     (task_state (ts' x) = task_state (ts x) \<or>
      task_state (ts x) = RTOS_TASK_BLOCKED \<and> task_state (ts' x) = RTOS_TASK_READY \<or>
      x \<in> S \<and> p \<and> task_state (ts' x) \<noteq> RTOS_TASK_RUNNING))"

lemma stirs_refl [simp]: "stirs S p ts ts"
  by (simp add: stirs_def)

lemma stirs_trans: "stirs S p ts ts' \<Longrightarrow> stirs S q ts' ts'' \<Longrightarrow> (p \<longrightarrow> q) \<Longrightarrow> stirs S q ts ts''"
  unfolding stirs_def by (intro allI, drule spec, drule spec, elim conjE) auto

lemma stirs_comp: "stirs S p ts ts' \<Longrightarrow> stirs S p ts' ts'' \<Longrightarrow> stirs S p ts ts''"
  by (rule stirs_trans) auto

lemma stirs_mono: "stirs S p ts ts' \<Longrightarrow> S \<subseteq> T \<Longrightarrow> (p \<longrightarrow> q) \<Longrightarrow> stirs T q ts ts'"
  unfolding stirs_def by blast

lemma stirs_upd:
  "next_task (f (ts t)) = next_task (ts t) \<Longrightarrow> task_state (f (ts t)) = task_state (ts t) \<Longrightarrow> stirs S p ts (upd_task t f ts)"
  by (simp add: stirs_def upd_task_apply)

lemma stirs_ready:
  "next_task (f (ts t)) = next_task (ts t) \<Longrightarrow> task_state (f (ts t)) = RTOS_TASK_READY \<Longrightarrow>
     task_state (ts t) = RTOS_TASK_BLOCKED \<Longrightarrow> stirs S p ts (upd_task t f ts)"
  by (simp add: stirs_def upd_task_apply)

lemma stirs_caller:
  "next_task (f (ts t)) = next_task (ts t) \<Longrightarrow> task_state (f (ts t)) \<noteq> RTOS_TASK_RUNNING \<Longrightarrow> t \<in> S \<Longrightarrow>
     stirs S True ts (upd_task t f ts)"
  by (simp add: stirs_def upd_task_apply)

lemma stirs_relinked: "relinked X ts ts' \<Longrightarrow> stirs S p ts ts'"
  by (simp add: stirs_def relinked_fields)

text \<open>The wait-queue functions, on any queue, well formed or not.\<close>

lemma relinked_any: "relinked UNIV ts (set_wait_next t p ts)"
  by simp

lemma relinked_any2: "relinked UNIV ts ts' \<Longrightarrow> relinked UNIV ts (set_wait_next t p ts')"
  by (rule relinked_trans[OF _ relinked_any])

lemma wait_push_relinked: "wait_push t q ts = Some (q', ts') \<Longrightarrow> relinked UNIV ts ts'"
  by (auto simp: wait_push_def Let_def relinked_any2 split: bind_splits option.splits)

lemma unlink_relinked: "relinked UNIV ts (snd (unlink prev s nxt q ts))"
  by (simp add: unlink_def Let_def relinked_any2 split: option.splits)

lemma remove_scan_relinked:
  assumes "remove_scan t q ts prev scan = Some (q', ts')"
  shows "relinked UNIV ts ts'"
proof -
  have "relinked UNIV ts (snd r)" if "remove_scan t q ts prev scan = Some r" for r
    using that
  proof (rule remove_scan.raw_induct[rotated, where P = "\<lambda>t q ts prev scan r. relinked UNIV ts (snd r)"], goal_cases)
    case (1 rem t q ts prev scan r)
    then show ?case by (auto simp: unlink_relinked split: option.splits if_splits)
  qed
  from this[OF assms] show ?thesis by simp
qed

lemma wait_remove_relinked: "wait_remove t q ts = Some (q', ts') \<Longrightarrow> relinked UNIV ts ts'"
  unfolding wait_remove_def by (rule remove_scan_relinked)

lemma wait_pop_stirs:
  assumes "wait_pop q ts = Some (w, q', ts')"
  shows "stirs S p ts ts' \<and> (\<forall>t. w = Some t \<longrightarrow> task_state (ts' t) = RTOS_TASK_BLOCKED)"
proof -
  have "stirs S p ts (snd (snd r)) \<and> (\<forall>t. fst r = Some t \<longrightarrow> task_state (snd (snd r) t) = RTOS_TASK_BLOCKED)"
    if "wait_pop q ts = Some r" for r
    using that
  proof (rule wait_pop.raw_induct[rotated, where P = "\<lambda>q ts r. stirs S p ts (snd (snd r)) \<and>
      (\<forall>t. fst r = Some t \<longrightarrow> task_state (snd (snd r) t) = RTOS_TASK_BLOCKED)"], goal_cases)
    case (1 pop q ts r)
    show ?case
    proof (cases "fst q")
      case None
      then show ?thesis using 1(2) by auto
    next
      case (Some t)
      let ?ts1 = "set_wait_next t None ts" and ?q1 = "(wait_next (ts t), if wait_next (ts t) = None then None else snd q)"
      have s1: "stirs S p ts ?ts1" by (rule stirs_relinked[OF relinked_any])
      show ?thesis
      proof (cases "task_state (?ts1 t) = RTOS_TASK_BLOCKED \<and> wait_result (?ts1 t) = RTOS_OK")
        case True
        then have "r = (Some t, ?q1, upd_task t (\<lambda>b. b\<lparr>wait_type := RTOS_WAIT_NONE\<rparr>) ?ts1)"
          using 1(2) Some by (simp add: Let_def)
        moreover have "stirs S p ?ts1 (upd_task t (\<lambda>b. b\<lparr>wait_type := RTOS_WAIT_NONE\<rparr>) ?ts1)"
          by (rule stirs_upd) simp_all
        ultimately show ?thesis using True stirs_trans[OF s1] by auto
      next
        case False
        then have "pop ?q1 ?ts1 = Some r" using 1(2) Some by (auto simp: Let_def)
        from 1(1)[OF this] stirs_trans[OF s1] show ?thesis by blast
      qed
    qed
  qed
  from this[OF assms] show ?thesis by simp
qed

lemma pop_stirs: "wait_pop q ts = Some (w, q', ts') \<Longrightarrow> stirs S p ts ts'"
  using wait_pop_stirs by blast

lemma pop_wakes:
  assumes "wait_pop q ts = Some (Some t, q', ts')" and "\<And>b. next_task (f b) = next_task b"
    and "\<And>b. task_state (f b) = RTOS_TASK_READY"
  shows "stirs S p ts (upd_task t f ts')"
proof -
  have "stirs S p ts ts'" "task_state (ts' t) = RTOS_TASK_BLOCKED" using wait_pop_stirs[OF assms(1)] by auto
  moreover from this have "stirs S p ts' (upd_task t f ts')" by (intro stirs_ready) (simp_all add: assms)
  ultimately show ?thesis by (blast intro: stirs_trans)
qed

lemma push_blocks:
  assumes "wait_push t q (upd_task t f ts) = Some (q', ts')" and "next_task (f (ts t)) = next_task (ts t)"
    and "task_state (f (ts t)) \<noteq> RTOS_TASK_RUNNING" and "t \<in> S"
  shows "stirs S True ts ts'"
proof -
  have "stirs S True ts (upd_task t f ts)" by (rule stirs_caller) (rule assms)+
  then show ?thesis by (rule stirs_trans[OF _ stirs_relinked[OF wait_push_relinked[OF assms(1)]]]) simp
qed

lemma remove_upd:
  assumes "wait_remove t q ts = Some (q', ts')" and "\<And>b. next_task (f b) = next_task b"
    and "\<And>b. task_state (f b) = task_state b"
  shows "stirs S p ts (upd_task u f ts')"
proof -
  have "stirs S p ts' (upd_task u f ts')" by (rule stirs_upd) (rule assms)+
  then show ?thesis
    by (rule stirs_trans[where p = p, OF stirs_relinked[OF wait_remove_relinked[OF assms(1)]]]) simp
qed

lemma set_scan_stirs:
  assumes "set_scan e ts prev scan y = Some (e', ts', y')"
  shows "stirs S p ts ts' \<and> (y \<longrightarrow> y')"
proof -
  have "stirs S p ts (fst (snd r)) \<and> (y \<longrightarrow> snd (snd r))" if "set_scan e ts prev scan y = Some r" for r
    using that
  proof (rule set_scan.raw_induct[rotated, where P = "\<lambda>e ts prev scan y r. stirs S p ts (fst (snd r)) \<and>
      (y \<longrightarrow> snd (snd r))"], goal_cases)
    case (1 loop e ts prev scan y r)
    show ?case
    proof (cases scan)
      case None
      then show ?thesis using 1(2) by auto
    next
      case (Some s)
      let ?m = "matched_by (ev_flags e) (ts s)" and ?u = "unlink prev s (wait_next (ts s)) (event_ends e) ts"
      show ?thesis
      proof (cases "task_state (ts s) = RTOS_TASK_BLOCKED \<and> wait_result (ts s) = RTOS_OK \<and> satisfied (ev_flags e) (ts s)")
        case True
        then have "loop (clear_matched (ts s) ?m (set_event_ends (fst ?u) e)) (upd_task s (release ?m) (snd ?u))
            prev (wait_next (ts s)) True = Some r" using 1(2) Some by simp
        from 1(1)[OF this] have r: "stirs S p (upd_task s (release ?m) (snd ?u)) (fst (snd r))" "snd (snd r)" by auto
        have u: "stirs S p ts (snd ?u)" by (rule stirs_relinked[OF unlink_relinked])
        have "task_state (snd ?u s) = RTOS_TASK_BLOCKED" using True relinked_fields[OF unlink_relinked] by simp
        then have "stirs S p (snd ?u) (upd_task s (release ?m) (snd ?u))"
          by (intro stirs_ready) (simp_all add: release_def)
        with u r show ?thesis by (blast intro: stirs_trans)
      next
        case False
        then have "loop e ts scan (wait_next (ts s)) y = Some r" using 1(2) Some by auto
        from 1(1)[OF this] show ?thesis .
      qed
    qed
  qed
  from this[OF assms] show ?thesis by simp
qed

lemma recompute_stirs: "recompute_owner_priority m ts = Some ts' \<Longrightarrow> stirs S p ts ts'"
  by (auto simp: recompute_owner_priority_def intro: stirs_upd split: option.splits bind_splits)

section \<open>Effects on the kernel\<close>

definition effect :: "nat set \<Rightarrow> kernel \<Rightarrow> kernel \<Rightarrow> bool" where
  "effect S k k' \<longleftrightarrow> linked_at k' = linked_at k \<and> current_task k' = current_task k \<and>
     task_count k' = task_count k \<and> (pendsv_pending (port k) \<longrightarrow> pendsv_pending (port k')) \<and>
     stirs S (pendsv_pending (port k')) (tasks k) (tasks k')"

lemma effect_refl [simp]: "effect S k k"
  by (simp add: effect_def)

lemma effect_trans: "effect S a b \<Longrightarrow> effect S b c \<Longrightarrow> effect S a c"
  by (auto simp: effect_def intro: stirs_trans)

lemma effect_mono: "effect S k k' \<Longrightarrow> S \<subseteq> T \<Longrightarrow> effect T k k'"
  by (auto simp: effect_def intro: stirs_mono)

lemma trace_pendsv [simp]:
  "pendsv_pending (port (rtos_trace_record e a b k)) = pendsv_pending (port k)"
  by (simp_all add: rtos_trace_record_def record_common_def Let_def)

named_theorems op_effects \<open>the effect of each kernel call\<close>

lemmas queue_steps = pop_wakes pop_stirs push_blocks remove_upd

lemma sem_post_effect [op_effects]: "sem_post_common p k = Some (r, k') \<Longrightarrow> effect S k k'"
  by (auto simp: sem_post_common_def sem_wait_pop_def Let_def effect_def split: bind_splits if_splits option.splits)
    (erule queue_steps; simp)+

lemma sem_wait_effect [op_effects]:
  "sem_wait_enter p ms k = Some (r, k') \<Longrightarrow> current_task k = Some t \<Longrightarrow> effect {t} k k'"
  by (auto simp: sem_wait_enter_def sem_wait_push_def Let_def effect_def split: bind_splits if_splits option.splits)
    (erule queue_steps; simp)+

lemma sem_resume_effect [op_effects]: "sem_wait_resume p t k = Some (r, k') \<Longrightarrow> effect S k k'"
  by (auto simp: sem_wait_resume_def sem_wait_remove_def Let_def effect_def split: bind_splits if_splits option.splits)
    (erule queue_steps; simp)+

lemma queue_send_effect [op_effects]:
  "queue_send_try p v ms k = Some (r, k') \<Longrightarrow> current_task k = Some t \<Longrightarrow> effect {t} k k'"
  by (auto simp: queue_send_try_def send_push_def recv_pop_def queue_finish_def Let_def effect_def
      split: bind_splits if_splits option.splits)
    (erule queue_steps; simp)+

lemma queue_send_poll_effect [op_effects]: "queue_send_try p v 0 k = Some (r, k') \<Longrightarrow> effect S k k'"
  by (auto simp: queue_send_try_def recv_pop_def queue_finish_def Let_def effect_def
      split: bind_splits if_splits option.splits)
    (erule queue_steps; simp)+

lemma queue_send_resume_effect [op_effects]: "queue_send_resume p t k = Some (r, k') \<Longrightarrow> effect S k k'"
  by (auto simp: queue_send_resume_def send_remove_def Let_def effect_def split: bind_splits if_splits option.splits)
    (erule queue_steps; simp)+

lemma queue_recv_effect [op_effects]:
  "queue_recv_try p vp ms k = Some (r, k') \<Longrightarrow> current_task k = Some t \<Longrightarrow> effect {t} k k'"
  by (auto simp: queue_recv_try_def recv_push_def send_pop_def queue_finish_def Let_def effect_def
      split: bind_splits if_splits option.splits)
    (erule queue_steps; simp)+

lemma queue_recv_resume_effect [op_effects]: "queue_recv_resume p t k = Some (r, k') \<Longrightarrow> effect S k k'"
  by (auto simp: queue_recv_resume_def recv_remove_def Let_def effect_def split: bind_splits if_splits option.splits)
    (erule queue_steps; simp)+

lemma push_boosted_blocks:
  assumes "wait_push t q (upd_task t f (upd_task u g ts)) = Some (q', ts')" and "\<And>b. next_task (f b) = next_task b"
    and "\<And>b. task_state (f b) \<noteq> RTOS_TASK_RUNNING" and "\<And>b. next_task (g b) = next_task b"
    and "\<And>b. task_state (g b) = task_state b" and "t \<in> S"
  shows "stirs S True ts ts'"
proof -
  have "stirs S True (upd_task u g ts) ts'" by (rule push_blocks[OF assms(1)]) (rule assms)+
  moreover have "stirs S True ts (upd_task u g ts)" by (rule stirs_upd) (rule assms)+
  ultimately show ?thesis by (blast intro: stirs_trans)
qed

lemma upd_pop_wakes:
  assumes "wait_pop q (upd_task u g ts) = Some (w, q', ts')" and "\<And>b. next_task (g b) = next_task b"
    and "\<And>b. task_state (g b) = task_state b"
  shows "stirs S p ts ts'" "w = Some t \<Longrightarrow> stirs S p ts (upd_task t wake_up ts')"
proof -
  have g: "stirs S p ts (upd_task u g ts)" by (rule stirs_upd) (rule assms)+
  show "stirs S p ts ts'" using stirs_trans[OF g pop_stirs[OF assms(1)]] by simp
  assume "w = Some t"
  then have "stirs S p (upd_task u g ts) (upd_task t wake_up ts')" using assms(1) by (auto elim: pop_wakes)
  from stirs_trans[OF g this] show "stirs S p ts (upd_task t wake_up ts')" by simp
qed

lemma remove_recompute:
  assumes "wait_remove t q ts = Some (q', ts1)"
    and "recompute_owner_priority m (upd_task t (wait_type_update f) ts1) = Some ts'"
  shows "stirs S p ts ts'"
proof -
  have "stirs S p ts (upd_task t (wait_type_update f) ts1)" using assms(1) by (rule remove_upd) simp_all
  from stirs_trans[OF this recompute_stirs[OF assms(2)]] show ?thesis by simp
qed

lemma mutex_lock_effect [op_effects]:
  "mutex_lock_try p ms k = Some (r, k') \<Longrightarrow> current_task k = Some t \<Longrightarrow> effect {t} k k'"
  by (auto simp: mutex_lock_try_def mutex_push_def Let_def effect_def split: bind_splits if_splits option.splits)
    ((erule queue_steps; simp) | (erule push_boosted_blocks; simp))+

lemma mutex_resume_effect [op_effects]: "mutex_lock_resume p t k = Some (r, k') \<Longrightarrow> effect S k k'"
  by (auto simp: mutex_lock_resume_def mutex_remove_def Let_def effect_def split: bind_splits if_splits option.splits)
    (erule remove_recompute; simp)+

lemma mutex_unlock_effect [op_effects]: "rtos_mutex_unlock p k = Some (r, k') \<Longrightarrow> effect S k k'"
  by (auto simp: rtos_mutex_unlock_def mutex_pop_def Let_def effect_def split: bind_splits if_splits option.splits)
    (erule upd_pop_wakes; simp)+

lemma event_set_effect [op_effects]: "set_common p flags k = Some (r, k') \<Longrightarrow> effect S k k'"
  by (auto simp: set_common_def Let_def effect_def dest: set_scan_stirs split: bind_splits if_splits)

lemma event_clear_effect [op_effects]: "rtos_event_flags_clear p flags k = (r, k') \<Longrightarrow> effect S k k'"
  by (auto simp: rtos_event_flags_clear_def Let_def effect_def split: if_splits)

lemma event_wait_effect [op_effects]:
  "event_wait_enter p fl al cl ms k = Some (r, k') \<Longrightarrow> current_task k = Some t \<Longrightarrow> effect {t} k k'"
  by (auto simp: event_wait_enter_def event_push_def Let_def effect_def
      split: bind_splits if_splits option.splits prod.splits bool.splits)
    (erule queue_steps; simp)+

lemma event_resume_effect [op_effects]: "event_wait_resume p t k = Some (r, k') \<Longrightarrow> effect S k k'"
  by (auto simp: event_wait_resume_def event_remove_def Let_def effect_def split: bind_splits if_splits option.splits)
    (erule queue_steps; simp)+

lemma pool_alloc_effect [op_effects]:
  "pool_alloc_enter p ms k = Some (r, k') \<Longrightarrow> current_task k = Some t \<Longrightarrow> effect {t} k k'"
  by (auto simp: pool_alloc_enter_def pool_push_def Let_def effect_def
      split: bind_splits if_splits option.splits prod.splits)
    (erule queue_steps; simp)+

lemma pool_resume_effect [op_effects]: "pool_alloc_resume p t k = Some (r, k') \<Longrightarrow> effect S k k'"
  by (auto simp: pool_alloc_resume_def pool_remove_def Let_def effect_def
      split: bind_splits if_splits option.splits)
    ((rule stirs_upd; simp) | (erule queue_steps; simp))+

lemma pool_free_effect [op_effects]: "rtos_mempool_free p b k = Some (r, k') \<Longrightarrow> effect S k k'"
  by (auto simp: rtos_mempool_free_def pool_pop_def Let_def effect_def
      split: bind_splits if_splits option.splits prod.splits)
    (erule queue_steps; simp)+

lemma notify_effect [op_effects]: "notify_common task v k = (r, k') \<Longrightarrow> effect S k k'"
proof -
  assume a: "notify_common task v k = (r, k')"
  show "effect S k k'"
  proof (cases "task = None \<or> v = 0")
    case True
    then show ?thesis using a by (auto simp: notify_common_def split: option.splits)
  next
    case False
    then obtain t where t: "task = Some t" "v \<noteq> 0" by auto
    let ?f = "\<lambda>b. b\<lparr>notify_value := notify_value b OR v, notify_pending := 1\<rparr>"
    let ?g = "\<lambda>b. b\<lparr>delay_ticks := 0, wait_result := RTOS_OK, task_state := RTOS_TASK_READY\<rparr>"
    have f: "stirs S q (tasks k) (upd_task t ?f (tasks k))" for q by (rule stirs_upd) simp_all
    have "stirs S q (tasks k) (upd_task t ?g (upd_task t ?f (tasks k)))"
      if "task_state (tasks k t) = RTOS_TASK_BLOCKED" for q
      by (rule stirs_comp[OF f stirs_ready]) (simp_all add: that)
    with f show ?thesis using a t by (auto simp: notify_common_def Let_def effect_def split: if_splits)
  qed
qed

lemma notify_wait_effect [op_effects]:
  assumes "notify_wait_enter ce cx ms k = Some (r, k')" and "current_task k = Some t"
  shows "effect {t} k k'"
proof -
  let ?f = "\<lambda>b. b\<lparr>notify_value := notify_value b AND NOT ce\<rparr>"
  have f: "stirs {t} p (tasks k) (upd_task t ?f (tasks k))" for p by (rule stirs_upd) simp_all
  have c: "stirs {t} p (tasks k) (upd_task t (notify_clear cx) (upd_task t ?f (tasks k)))" for p
    by (rule stirs_comp[OF f stirs_upd]) (simp_all add: notify_clear_def Let_def)
  have b: "stirs {t} True (tasks k) (upd_task t (block_for RTOS_WAIT_NOTIFICATION ms) (upd_task t ?f (tasks k)))"
    by (rule stirs_comp[OF f stirs_caller]) simp_all
  show ?thesis using assms b c f
    by (auto simp: notify_wait_enter_def Let_def effect_def split: if_splits)
qed

lemma notify_resume_effect [op_effects]: "notify_wait_resume cx t k = (r, k') \<Longrightarrow> effect S k k'"
  by (auto simp: notify_wait_resume_def Let_def effect_def notify_clear_def intro!: stirs_upd split: if_splits)

lemma sleep_effect [op_effects]: "rtos_sleep ms k = Some k' \<Longrightarrow> current_task k = Some t \<Longrightarrow> effect {t} k k'"
  by (auto simp: rtos_sleep_def Let_def effect_def split: if_splits bind_splits) (rule stirs_caller; simp)

lemma delete_effect [op_effects]: "rtos_task_delete_self k = Some k' \<Longrightarrow> current_task k = Some t \<Longrightarrow> effect {t} k k'"
  by (auto simp: rtos_task_delete_self_def Let_def effect_def split: bind_splits) (rule stirs_caller; simp)

lemma yield_effect [op_effects]: "effect S k (rtos_yield k)"
  by (simp add: effect_def)

lemma sched_lock_effect [op_effects]: "effect S k (rtos_sched_lock k)" "effect S k (rtos_sched_unlock k)"
  by (simp_all add: rtos_sched_lock_def rtos_sched_unlock_def Let_def effect_def)

lemma timer_start_effect [op_effects]: "rtos_timer_start p k = (r, k') \<Longrightarrow> effect S k k'"
  and timer_stop_effect [op_effects]: "rtos_timer_stop p k = (r, k') \<Longrightarrow> effect S k k'"
  by (auto simp: rtos_timer_start_def rtos_timer_stop_def link_timer_def upd_timer_def Let_def effect_def split: if_splits)

lemma work_submit_effect [op_effects]: "submit_common h a k = (r, k') \<Longrightarrow> effect S k k'"
proof -
  assume s: "submit_common h a k = (r, k')"
  have p: "effect S k (snd (put_work h a k))" by (simp add: put_work_def Let_def effect_def)
  show "effect S k k'"
  proof (cases "h = 0")
    case True
    then show ?thesis using s by (simp add: submit_common_def)
  next
    case False
    obtain ok k1 where k1: "put_work h a k = (ok, k1)" by (rule prod.exhaust)
    have "k' = k1 \<or> k' = snd (rtos_task_notify (work_task_handle (work k1)) 1 k1)"
      using s False k1 by (auto simp: submit_common_def split: bool.splits if_splits)
    moreover have "effect S k1 (snd (rtos_task_notify h' 1 k1))" for h'
      unfolding rtos_task_notify_def using notify_effect[OF prod.collapse[symmetric]] .
    ultimately show ?thesis using p k1 by (auto intro: effect_trans)
  qed
qed

lemma pop_work_effect [op_effects]: "effect S k (snd (pop_work k))"
  by (simp add: pop_work_def effect_def)

lemma idle_hook_effect [op_effects]: "effect S k (snd (rtos_idle_set_hook h a k))"
  by (simp add: rtos_idle_set_hook_def effect_def)

section \<open>The effect of a tick\<close>

text \<open>Callbacks that may be called from an interrupt: they wake tasks and block none.\<close>

definition isr_safe :: "callbacks \<Rightarrow> bool" where
  "isr_safe call \<longleftrightarrow> (\<forall>f a k k'. call f a k = Some k' \<longrightarrow> effect {} k k')"

lemma effect_ignores_timers: "ignores_timers (effect {})"
  by (auto simp: ignores_timers_def upd_timer_def effect_def intro: stirs_trans)

lemma debug_update_effect: "effect S k (rtos_debug_update k)"
  by (simp add: effect_def rtos_debug_update_def rtos_object_debug_update_def update_snapshots_locked_def Let_def
      split: prod.splits)

lemma account_tick_effect: "effect S k (rtos_task_account_tick k)"
  by (auto simp: effect_def rtos_task_account_tick_def intro: stirs_upd split: option.splits)

lemma tick_block_state:
  "next_task (tick_block b) = next_task b"
  "task_state (tick_block b) = task_state b \<or>
     task_state b = RTOS_TASK_BLOCKED \<and> task_state (tick_block b) = RTOS_TASK_READY"
  by (auto simp: tick_block_def Let_def)

lemma task_tick_effect: "effect S k (rtos_task_tick k)"
proof -
  have "stirs S p (tasks k) (tasks (rtos_task_tick k))" for p
    unfolding stirs_def task_tick_apply using tick_block_state by (auto split: if_splits)
  then show ?thesis by (simp add: effect_def) (simp add: rtos_task_tick_def)
qed

lemma check_guards_effect: "rtos_check_stack_guards k = Inr k' \<Longrightarrow> effect S k k'"
  by (auto simp: rtos_check_stack_guards_def RTOS_ASSERT_def Let_def effect_def split: if_splits)

lemma tick_effect [op_effects]:
  assumes "isr_safe call" and "rtos_tick_handler call k = Some (Inr k')"
  shows "effect {} k k'"
proof -
  define k3 where "k3 = rtos_task_tick (rtos_task_account_tick (k\<lparr>tick_count := tick_count k + 1\<rparr>))"
  obtain k4 k5 where k4: "rtos_timer_tick call k3 = Some k4" and k5: "rtos_check_stack_guards k4 = Inr k5"
    and k': "k' = (let k6 = (if debug_update_ticks k5 = 0
                   then (rtos_debug_update k5)\<lparr>debug_update_ticks := DEBUG_UPDATE_PERIOD_TICKS\<rparr> else k5);
             k7 = k6\<lparr>debug_update_ticks := debug_update_ticks k6 - 1\<rparr>
         in k7\<lparr>port := port_trigger_pendsv (port k7)\<rparr>)"
    using assms(2) by (auto simp: rtos_tick_handler_def k3_def Let_def split: bind_splits sum.splits)
  have "effect {} k (k\<lparr>tick_count := tick_count k + 1\<rparr>)" by (simp add: effect_def)
  then have "effect {} k k3"
    unfolding k3_def by (blast intro: effect_trans account_tick_effect task_tick_effect)
  moreover have "effect {} k3 k4"
    using assms(1) k4 unfolding rtos_timer_tick_def isr_safe_def
    by (blast intro: timer_scan_rel[OF effect_ignores_timers])
  moreover have "effect {} k5 k'"
    using debug_update_effect[of "{}" k5] by (simp add: k' Let_def effect_def)
  ultimately show ?thesis using check_guards_effect[OF k5] by (blast intro: effect_trans)
qed

end
