(* ===== verification/Kernel_Steps.thy ===== *)
theory Kernel_Steps
  imports Kernel_Effects
begin

text \<open>
  The kernel as a whole: a step relation over the kernel state, whose steps are the tick
  interrupt, the context switch exception, one kernel call of the running task, the creation of a
  task, and a run of a callback. A blocking call is two steps, up to its yield and behind it, and
  between them anything may happen. The safety of the scheduler is an invariant of all states
  reachable from rtos\_start.
\<close>

section \<open>Steps\<close>

text \<open>
  The calls of the interface, with their parts: a call named \<open>Wake\<close> is what a blocking call does
  when its task runs again.
\<close>

datatype kernel_call =
    Sem_Wait u32 u32 | Sem_Wake u32 | Sem_Post u32
  | Queue_Send u32 u32 u32 | Queue_Send_Wake u32 | Queue_Recv u32 u32 u32 | Queue_Recv_Wake u32
  | Mutex_Lock u32 u32 | Mutex_Lock_Wake u32 | Mutex_Unlock u32
  | Event_Set u32 u32 | Event_Clear u32 u32 | Event_Wait u32 u32 u32 u32 u32 | Event_Wake u32
  | Pool_Alloc u32 u32 | Pool_Alloc_Wake u32 | Pool_Free u32 u32
  | Notify "nat option" u32 | Notify_Wait u32 u32 u32 | Notify_Wake u32
  | Sleep u32 | Yield | Delete_Self | Sched_Lock | Sched_Unlock
  | Timer_Start u32 | Timer_Stop u32 | Work_Submit u32 u32 | Work_Pop | Set_Idle_Hook u32 u32

text \<open>The state after a call by task \<open>t\<close>; \<open>None\<close> is a call that does not come back.\<close>

fun run_call :: "nat \<Rightarrow> kernel_call \<Rightarrow> kernel \<Rightarrow> kernel option" where
  "run_call t (Sem_Wait p ms) k = map_option snd (sem_wait_enter p ms k)"
| "run_call t (Sem_Wake p) k = map_option snd (sem_wait_resume p t k)"
| "run_call t (Sem_Post p) k = map_option snd (rtos_sem_post p k)"
| "run_call t (Queue_Send p v ms) k = map_option snd (queue_send_try p v ms k)"
| "run_call t (Queue_Send_Wake p) k = map_option snd (queue_send_resume p t k)"
| "run_call t (Queue_Recv p vp ms) k = map_option snd (queue_recv_try p vp ms k)"
| "run_call t (Queue_Recv_Wake p) k = map_option snd (queue_recv_resume p t k)"
| "run_call t (Mutex_Lock p ms) k = map_option snd (mutex_lock_try p ms k)"
| "run_call t (Mutex_Lock_Wake p) k = map_option snd (mutex_lock_resume p t k)"
| "run_call t (Mutex_Unlock p) k = map_option snd (rtos_mutex_unlock p k)"
| "run_call t (Event_Set p fl) k = map_option snd (rtos_event_flags_set p fl k)"
| "run_call t (Event_Clear p fl) k = Some (snd (rtos_event_flags_clear p fl k))"
| "run_call t (Event_Wait p fl al cl ms) k = map_option snd (event_wait_enter p fl al cl ms k)"
| "run_call t (Event_Wake p) k = map_option snd (event_wait_resume p t k)"
| "run_call t (Pool_Alloc p ms) k = map_option snd (pool_alloc_enter p ms k)"
| "run_call t (Pool_Alloc_Wake p) k = map_option snd (pool_alloc_resume p t k)"
| "run_call t (Pool_Free p b) k = map_option snd (rtos_mempool_free p b k)"
| "run_call t (Notify task v) k = Some (snd (rtos_task_notify task v k))"
| "run_call t (Notify_Wait ce cx ms) k = map_option snd (notify_wait_enter ce cx ms k)"
| "run_call t (Notify_Wake cx) k = Some (snd (notify_wait_resume cx t k))"
| "run_call t (Sleep ms) k = rtos_sleep ms k"
| "run_call t Yield k = Some (rtos_yield k)"
| "run_call t Delete_Self k = rtos_task_delete_self k"
| "run_call t Sched_Lock k = Some (rtos_sched_lock k)"
| "run_call t Sched_Unlock k = Some (rtos_sched_unlock k)"
| "run_call t (Timer_Start p) k = Some (snd (rtos_timer_start p k))"
| "run_call t (Timer_Stop p) k = Some (snd (rtos_timer_stop p k))"
| "run_call t (Work_Submit h a) k = Some (snd (rtos_work_submit h a k))"
| "run_call t Work_Pop k = Some (snd (pop_work k))"
| "run_call t (Set_Idle_Hook h a) k = Some (snd (rtos_idle_set_hook h a k))"

text \<open>The calls that may take the processor away from their caller.\<close>

fun blocking :: "kernel_call \<Rightarrow> bool" where
  "blocking (Sem_Wait p ms) = True"
| "blocking (Queue_Send p v ms) = True"
| "blocking (Queue_Recv p vp ms) = True"
| "blocking (Mutex_Lock p ms) = True"
| "blocking (Event_Wait p fl al cl ms) = True"
| "blocking (Pool_Alloc p ms) = True"
| "blocking (Notify_Wait ce cx ms) = True"
| "blocking (Sleep ms) = True"
| "blocking Delete_Self = True"
| "blocking _ = False"

text \<open>
  The PendSV exception: taking it clears its pending bit, and its handler in port\_asm.S saves and
  restores registers around rtos\_schedule\_next.
\<close>

definition pendsv_exception :: "kernel \<Rightarrow> (kernel + kernel) option" where
  "pendsv_exception k = rtos_schedule_next (k\<lparr>port := (port k)\<lparr>pendsv_pending := False\<rparr>\<rparr>)"

text \<open>
  One step, for callbacks \<open>call\<close> and the idle task \<open>idle\<close>, which runs only calls that do not block.
  Only a running task calls or creates.
\<close>

inductive kernel_step :: "callbacks \<Rightarrow> nat \<Rightarrow> kernel \<Rightarrow> kernel \<Rightarrow> bool" for call idle where
  tick: "rtos_tick_handler call k = Some (Inr k') \<Longrightarrow> kernel_step call idle k k'"
| switch: "pendsv_pending (port k) \<Longrightarrow> pendsv_exception k = Some (Inr k') \<Longrightarrow> kernel_step call idle k k'"
| task_call: "current_task k = Some t \<Longrightarrow> task_state (tasks k t) = RTOS_TASK_RUNNING \<Longrightarrow>
    (blocking c \<Longrightarrow> t \<noteq> idle) \<Longrightarrow> run_call t c k = Some k' \<Longrightarrow> kernel_step call idle k k'"
| create: "current_task k = Some t \<Longrightarrow> task_state (tasks k t) = RTOS_TASK_RUNNING \<Longrightarrow>
    rtos_task_create_named_handle entry arg prio nm k = Some (Inr (r, h, k')) \<Longrightarrow> kernel_step call idle k k'"
| callback: "call f a k = Some k' \<Longrightarrow> kernel_step call idle k k'"

inductive reachable :: "callbacks \<Rightarrow> nat \<Rightarrow> kernel \<Rightarrow> kernel \<Rightarrow> bool" for call idle k0 where
  start: "reachable call idle k0 k0"
| step: "reachable call idle k0 k \<Longrightarrow> kernel_step call idle k k' \<Longrightarrow> reachable call idle k0 k'"

section \<open>Every call is within the bound\<close>

lemma effect_snd: "(\<And>r k'. f = (r, k') \<Longrightarrow> effect S k k') \<Longrightarrow> effect S k (snd f)"
  by (cases f) simp

lemmas call_defs = rtos_sem_post_def rtos_event_flags_set_def rtos_task_notify_def rtos_work_submit_def

lemma run_call_effect:
  assumes "run_call t c k = Some k'" and "current_task k = Some t"
  shows "effect (if blocking c then {t} else {}) k k'"
  using assms by (cases c) (auto simp: call_defs simp del: port_calls intro: op_effects effect_snd)

section \<open>The invariant of the scheduler\<close>

text \<open>
  The tasks form a ring; the idle task can always run; no task but the current one is running; and
  if the current task has stopped running, a context switch has been requested.
\<close>

definition sys_inv :: "nat \<Rightarrow> kernel \<Rightarrow> bool" where
  "sys_inv idle k \<longleftrightarrow> (\<exists>xs. task_ring k xs) \<and> stacks_aligned k \<and> idle < unat (task_count k) \<and>
     task_state (tasks k idle) \<in> {RTOS_TASK_READY, RTOS_TASK_RUNNING} \<and>
     (\<forall>x < unat (task_count k). task_state (tasks k x) = RTOS_TASK_RUNNING \<longrightarrow> current_task k = Some x) \<and>
     (\<forall>t. current_task k = Some t \<longrightarrow> task_state (tasks k t) \<noteq> RTOS_TASK_RUNNING \<longrightarrow> pendsv_pending (port k))"

lemma effect_sys_inv:
  assumes "sys_inv idle k" and "effect S k k'" and "idle \<notin> S"
  shows "sys_inv idle k'"
proof -
  have e: "linked_at k' = linked_at k" "current_task k' = current_task k" "task_count k' = task_count k"
    "pendsv_pending (port k) \<longrightarrow> pendsv_pending (port k')" "stirs S (pendsv_pending (port k')) (tasks k) (tasks k')"
    using assms(2) by (simp_all add: effect_def)
  have "task_ring k' xs = task_ring k xs" for xs
    using e(5) by (intro task_ring_cong) (simp_all add: e stirs_def)
  moreover have "stacks_aligned k' = stacks_aligned k" by (simp add: stacks_aligned_def e)
  moreover have s: "task_state (tasks k' x) = task_state (tasks k x) \<or>
      task_state (tasks k x) = RTOS_TASK_BLOCKED \<and> task_state (tasks k' x) = RTOS_TASK_READY \<or>
      x \<in> S \<and> pendsv_pending (port k') \<and> task_state (tasks k' x) \<noteq> RTOS_TASK_RUNNING" for x
    using e(5) unfolding stirs_def by blast
  moreover have "task_state (tasks k' idle) \<in> {RTOS_TASK_READY, RTOS_TASK_RUNNING}"
    using s[of idle] assms(1,3) by (auto simp: sys_inv_def)
  moreover have "current_task k = Some x" if "x < unat (task_count k)" "task_state (tasks k' x) = RTOS_TASK_RUNNING" for x
    using s[of x] that assms(1) by (auto simp: sys_inv_def)
  moreover have "pendsv_pending (port k')" if "current_task k = Some t" "task_state (tasks k' t) \<noteq> RTOS_TASK_RUNNING" for t
    using s[of t] that assms(1) e(4) by (auto simp: sys_inv_def)
  ultimately show ?thesis using assms(1) by (simp add: sys_inv_def e)
qed

text \<open>A pending switch always finds a task: at least the idle task can run.\<close>

lemma switch_sys_inv:
  assumes "sys_inv idle k"
  shows "\<exists>k' b. pendsv_exception k = Some (Inr k') \<and> sys_inv idle k' \<and> current_task k' = Some b \<and>
    task_state (tasks k' b) = RTOS_TASK_RUNNING \<and>
    task_state (tasks k b) \<in> {RTOS_TASK_READY, RTOS_TASK_RUNNING} \<and>
    (scheduler_lock_count k = 0 \<longrightarrow> (\<forall>x < unat (task_count k).
       task_state (tasks k' x) = RTOS_TASK_READY \<longrightarrow> priority (tasks k x) \<le> priority (tasks k b)))"
proof -
  let ?k = "k\<lparr>port := (port k)\<lparr>pendsv_pending := False\<rparr>\<rparr>"
  obtain xs where ring0: "task_ring k xs" and idle: "idle < unat (task_count k)"
    using assms by (auto simp: sys_inv_def)
  have set: "set xs = {..<unat (task_count k)}" using ring0 unfolding task_ring_def by blast
  have "idle \<in> set xs" unfolding set using idle by simp
  then obtain t rest where xs: "xs = t # rest" by (cases xs) simp_all
  have same: "task_ring ?k ys = task_ring k ys" for ys by (rule task_ring_cong) simp_all
  then have ring: "task_ring ?k (t # rest)" using ring0 unfolding xs by blast
  have cur: "current_task k = Some t" using ring0 by (simp add: task_ring_def xs)
  have mem: "set (t # rest) = {..<unat (task_count k)}" using set by (simp only: xs)
  have one: "\<And>x. x < unat (task_count k) \<Longrightarrow> task_state (tasks k x) = RTOS_TASK_RUNNING \<Longrightarrow> x = t"
    using assms cur by (auto simp: sys_inv_def)
  have run: "runnable ?k x \<longleftrightarrow> task_state (tasks k x) \<in> {RTOS_TASK_READY, RTOS_TASK_RUNNING}"
    if "x < unat (task_count k)" for x
    using one[OF that] cur by (auto simp: runnable_def)
  show ?thesis
  proof (cases "scheduler_lock_count k = 0 \<or> task_state (tasks k t) \<noteq> RTOS_TASK_RUNNING")
    case False
    then have "pendsv_exception k = Some (Inr (?k\<lparr>scheduler_pending := 1\<rparr>))"
      by (simp add: pendsv_exception_def rtos_schedule_next_def cur Let_def)
    moreover have "task_ring (?k\<lparr>scheduler_pending := 1\<rparr>) xs = task_ring k xs"
      by (rule task_ring_cong) simp_all
    then have "sys_inv idle (?k\<lparr>scheduler_pending := 1\<rparr>)"
      using assms False cur ring0 unfolding sys_inv_def stacks_aligned_def by auto
    ultimately show ?thesis using False cur by auto
  next
    case True
    have "runnable ?k idle" using run[OF idle] assms unfolding sys_inv_def by blast
    moreover have "idle \<in> set (t # rest)" unfolding mem using idle by simp
    ultimately have some: "\<not> (\<forall>x \<in> set (t # rest). \<not> runnable ?k x)" by blast
    have free: "scheduler_lock_count ?k = 0 \<or> task_state (tasks ?k t) \<noteq> RTOS_TASK_RUNNING" using True by simp
    have sel: "tasks ?k = tasks k" by simp
    from schedule_decides[OF ring free, unfolded if_not_P[OF some] sel] obtain b k' ys where
      k': "rtos_schedule_next ?k = Some (Inr k')" "picks (runnable ?k) (\<lambda>x. priority (tasks k x)) (rest @ [t]) b"
      "current_task k' = Some b" "task_ring k' (b # ys)"
      "\<forall>x. task_state (tasks k' x) = (if x = b then RTOS_TASK_RUNNING
        else if x = t \<and> task_state (tasks k t) = RTOS_TASK_RUNNING then RTOS_TASK_READY else task_state (tasks k x))"
      by blast
    have l: "linked_at k' = linked_at k" "task_count k' = task_count k" using schedule_keeps[OF ring _ k'(1)] True by simp_all
    have st: "task_state (tasks k' x) = (if x = b then RTOS_TASK_RUNNING
        else if x = t \<and> task_state (tasks k t) = RTOS_TASK_RUNNING then RTOS_TASK_READY else task_state (tasks k x))"
      for x using k'(5) by blast
    have "task_state (tasks k' idle) \<in> {RTOS_TASK_READY, RTOS_TASK_RUNNING}"
      using assms st[of idle] by (auto simp: sys_inv_def)
    moreover have "x = b" if "x < unat (task_count k)" "task_state (tasks k' x) = RTOS_TASK_RUNNING" for x
      using that one[OF that(1)] st[of x] by (auto split: if_splits)
    moreover have "task_state (tasks k' b) = RTOS_TASK_RUNNING" using st[of b] by simp
    moreover have "stacks_aligned k'" using assms l by (simp add: sys_inv_def stacks_aligned_def)
    ultimately have "sys_inv idle k'"
      unfolding sys_inv_def k'(3) l(2) using k'(4) idle by blast
    moreover have "priority (tasks k x) \<le> priority (tasks k b)"
      if "x < unat (task_count k)" "task_state (tasks k' x) = RTOS_TASK_READY" for x
    proof -
      have "runnable ?k x" unfolding run[OF that(1)] using that(2) st[of x] by (auto split: if_splits)
      moreover have "x \<in> set (t # rest)" unfolding mem using that(1) by simp
      then have "x \<in> set (rest @ [t])" by auto
      ultimately show ?thesis using picks_max[OF k'(2)] by blast
    qed
    moreover have "runnable ?k b" using picks_mem[OF k'(2)] by simp
    then have "task_state (tasks k b) \<in> {RTOS_TASK_READY, RTOS_TASK_RUNNING}" by (auto simp: runnable_def)
    ultimately show ?thesis using k'(1,3) st[of b] unfolding pendsv_exception_def by auto
  qed
qed

section \<open>Creation and start\<close>

lemma create_frame:
  assumes "rtos_task_create_named_handle entry arg prio nm k = Some (Inr (r, h, k'))"
    and "entry \<noteq> 0" and "stacks_aligned k" and "task_count k \<noteq> 0"
  shows "linked_at k' = linked_at k \<and> pendsv_pending (port k') = pendsv_pending (port k) \<and>
    current_task k' = current_task k \<and> scheduler_lock_count k' = scheduler_lock_count k \<and>
    task_count k' = (if task_count k < RTOS_MAX_TASKS then task_count k + 1 else task_count k)"
  using assms(1,4)
  by (auto simp: create_eq[OF assms(2,3)] find_task_slot_def link_task_def Let_def
      split: option.splits if_splits bind_splits prod.splits)

text \<open>What a creation does, in the terms of the invariant.\<close>

lemma create_states:
  assumes "task_ring k xs" and "xs \<noteq> []" and "stacks_aligned k" and "entry \<noteq> 0"
    and "rtos_task_create_named_handle entry arg prio nm k = Some (Inr (r, h, k'))"
  shows "(\<exists>ys. task_ring k' ys) \<and> stacks_aligned k' \<and> pendsv_pending (port k') = pendsv_pending (port k) \<and>
    current_task k' = current_task k \<and>
    task_count k' = (if task_count k < RTOS_MAX_TASKS then task_count k + 1 else task_count k) \<and>
    (\<forall>x. if h = Some x then task_state (tasks k' x) = RTOS_TASK_READY
         else task_state (tasks k' x) = task_state (tasks k x)) \<and>
    h = free_slot k"
proof -
  have n: "task_count k \<noteq> 0"
  proof
    assume "task_count k = 0"
    with assms(1) have "set xs = {}" unfolding task_ring_def by simp
    with assms(2) show False by simp
  qed
  note f = create_frame[OF assms(5,4,3) n]
  from task_create_props[OF assms(1,4,3), of arg prio nm] assms(5) obtain ys where
    p: "task_ring k' ys" "h = free_slot k"
    "case free_slot k of None \<Rightarrow> r = -1 \<and> tasks k' = tasks k \<and> ys = xs
     | Some sl \<Rightarrow> r = 0 \<and> created entry arg prio nm sl k k' \<and>
         (\<forall>x. x \<noteq> sl \<longrightarrow> tasks k' x = (tasks k x)\<lparr>next_task := next_task (tasks k' x)\<rparr>) \<and>
         ys = (if task_count k < RTOS_MAX_TASKS then ring_insert sl xs else xs)" by auto
  have "if h = Some x then task_state (tasks k' x) = RTOS_TASK_READY
        else task_state (tasks k' x) = task_state (tasks k x)" for x
  proof (cases "free_slot k")
    case None
    then show ?thesis using p by simp
  next
    case (Some sl)
    have "task_state (tasks k' sl) = RTOS_TASK_READY" using p(3) Some by (auto simp: created_def fresh_task_def)
    moreover have "task_state (tasks k' x) = task_state (tasks k x)" if "x \<noteq> sl"
    proof -
      have "tasks k' x = (tasks k x)\<lparr>next_task := next_task (tasks k' x)\<rparr>" using p(3) Some that by simp
      then have "task_state (tasks k' x) = task_state ((tasks k x)\<lparr>next_task := next_task (tasks k' x)\<rparr>)" by (rule arg_cong)
      then show ?thesis by simp
    qed
    ultimately show ?thesis using p(2) Some by (cases "x = sl") auto
  qed
  with f p(1,2) assms(3) show ?thesis unfolding stacks_aligned_def by auto
qed

lemma free_slot_cases:
  assumes "free_slot k = Some sl" and "task_count k \<le> RTOS_MAX_TASKS"
  shows "sl = unat (task_count k) \<and> task_count k < RTOS_MAX_TASKS \<or>
    task_state (tasks k sl) = RTOS_TASK_STOPPED \<and> \<not> task_count k < RTOS_MAX_TASKS"
  using assms by (auto simp: free_slot_def find_Some_iff split: if_splits)

lemma create_sys_inv:
  assumes "sys_inv idle k" and "current_task k = Some t" and "task_state (tasks k t) = RTOS_TASK_RUNNING"
    and "rtos_task_create_named_handle entry arg prio nm k = Some (Inr (r, h, k'))"
  shows "sys_inv idle k'"
proof (cases "entry = 0")
  case True
  then have "k' = k" using assms(4) by (simp add: rtos_task_create_named_handle_def)
  then show ?thesis using assms(1) by simp
next
  case False
  obtain xs where xs: "task_ring k xs" "stacks_aligned k" and idle: "idle < unat (task_count k)"
    using assms(1) by (auto simp: sys_inv_def)
  have cnt: "task_count k \<le> RTOS_MAX_TASKS" and set: "set xs = {..<unat (task_count k)}"
    using xs(1) unfolding task_ring_def by blast+
  have "idle \<in> set xs" unfolding set using idle by simp
  then have "xs \<noteq> []" by (cases xs) simp_all
  note c = create_states[OF xs(1) this xs(2) False assms(4)]
  have st: "if h = Some x then task_state (tasks k' x) = RTOS_TASK_READY
      else task_state (tasks k' x) = task_state (tasks k x)" for x using c by blast
  have n: "unat (task_count k) \<le> unat (task_count k')"
    "x < unat (task_count k') \<Longrightarrow> h \<noteq> Some x \<Longrightarrow> x < unat (task_count k)" for x
  proof -
    have inc: "task_count k < RTOS_MAX_TASKS \<Longrightarrow> unat (task_count k') = Suc (unat (task_count k))"
      "\<not> task_count k < RTOS_MAX_TASKS \<Longrightarrow> task_count k' = task_count k"
      using c unat_inc_u32[of "task_count k" RTOS_MAX_TASKS] by simp_all
    have h: "task_count k < RTOS_MAX_TASKS \<Longrightarrow> h = Some (unat (task_count k))" using c by (simp add: free_slot_def)
    show "unat (task_count k) \<le> unat (task_count k')" using inc by (cases "task_count k < RTOS_MAX_TASKS") auto
    show "x < unat (task_count k') \<Longrightarrow> h \<noteq> Some x \<Longrightarrow> x < unat (task_count k)"
      using inc h by (cases "task_count k < RTOS_MAX_TASKS") auto
  qed
  have hc: "h \<noteq> Some t"
  proof
    assume "h = Some t"
    then have "t = unat (task_count k) \<or> task_state (tasks k t) = RTOS_TASK_STOPPED"
      using c free_slot_cases[OF _ cnt] by auto
    moreover have "t \<in> set xs" using xs(1) assms(2) unfolding task_ring_def by (cases xs) auto
    ultimately show False using assms(3) set by auto
  qed
  have "task_state (tasks k' idle) \<in> {RTOS_TASK_READY, RTOS_TASK_RUNNING}"
    using st[of idle] assms(1) by (auto simp: sys_inv_def split: if_splits)
  moreover have "current_task k' = Some x" if "x < unat (task_count k')" "task_state (tasks k' x) = RTOS_TASK_RUNNING" for x
    using that st[of x] n(2)[OF that(1)] assms(1) c by (auto simp: sys_inv_def split: if_splits)
  moreover have "task_state (tasks k' t) = RTOS_TASK_RUNNING" using st[of t] hc assms(3) by simp
  ultimately show ?thesis using c assms(2) idle n(1) unfolding sys_inv_def by auto
qed

text \<open>One step, and all reachable states.\<close>

lemma step_sys_inv:
  assumes "isr_safe call" and "sys_inv idle k" and "kernel_step call idle k k'"
  shows "sys_inv idle k'"
  using assms(3)
proof (cases rule: kernel_step.cases)
  case tick
  then show ?thesis using effect_sys_inv[OF assms(2) tick_effect[OF assms(1)]] by simp
next
  case switch
  then show ?thesis using switch_sys_inv[OF assms(2)] by auto
next
  case (task_call t c)
  then show ?thesis
    using effect_sys_inv[OF assms(2) run_call_effect[OF task_call(4,1)]] by (cases "blocking c") auto
next
  case (create t entry arg prio nm r h)
  then show ?thesis using create_sys_inv[OF assms(2)] by blast
next
  case (callback f a)
  then have "effect {} k k'" using assms(1) unfolding isr_safe_def by blast
  then show ?thesis by (rule effect_sys_inv[OF assms(2)]) simp
qed

lemma reachable_sys_inv:
  assumes "reachable call idle k0 k" and "isr_safe call" and "sys_inv idle k0"
  shows "sys_inv idle k"
  using assms(1)
proof (induction rule: reachable.induct)
  case start
  then show ?case by (rule assms(3))
next
  case (step k k')
  then show ?case using step_sys_inv[OF assms(2)] by blast
qed

text \<open>Starting with room for the idle task.\<close>

definition startable :: "kernel \<Rightarrow> nat list \<Rightarrow> bool" where
  "startable k xs \<longleftrightarrow> task_ring k xs \<and> xs \<noteq> [] \<and> stacks_aligned k \<and> task_count k < RTOS_MAX_TASKS \<and>
     addr_idle_task (linked_at k) \<noteq> 0 \<and> (\<forall>x \<in> set xs. task_state (tasks k x) = RTOS_TASK_READY)"

lemma start_sys_inv:
  assumes "startable k xs"
  shows "\<exists>k0. rtos_start k = Some (Inr (Running k0)) \<and> sys_inv (unat (task_count k)) k0 \<and>
    current_task k0 = Some (hd xs) \<and> task_state (tasks k0 (hd xs)) = RTOS_TASK_RUNNING"
proof -
  note a = assms[unfolded startable_def]
  obtain t rest where xs: "xs = t # rest" using a by (cases xs) auto
  have ring: "task_ring k xs" and room: "task_count k < RTOS_MAX_TASKS" using a by blast+
  have cur: "current_task k = Some t" using ring by (simp add: task_ring_def xs)
  let ?n = "unat (task_count k)"
  have free: "free_slot k = Some ?n" using room by (simp add: free_slot_def)
  have al: "stacks_aligned k" and ne: "xs \<noteq> []" and ent: "addr_idle_task (linked_at k) \<noteq> 0" using a by blast+
  from task_create_props[OF ring ent al, of 0 RTOS_IDLE_PRIORITY "Some ''idle''"] obtain k1 where
    k1: "rtos_task_create_named_handle (addr_idle_task (linked_at k)) 0 RTOS_IDLE_PRIORITY (Some ''idle'') k =
      Some (Inr (0, Some ?n, k1))" by (auto simp: free)
  note c = create_states[OF ring ne al ent k1]
  have idle: "rtos_create_idle_task k = Some (Inr (0, k1))"
    using k1 by (simp add: rtos_create_idle_task_def rtos_task_create_named_def)
  define k2 where "k2 = k1\<lparr>tasks := upd_task t promote (tasks k1),
    port := port_setup_systick RTOS_CPU_HZ RTOS_TICK_HZ (port_init_scheduler (port k1))\<rparr>"
  have c1: "current_task k1 = Some t" using c cur by simp
  have start: "rtos_start k = Some (Inr (Running k2))"
    by (simp add: rtos_start_def cur idle c1 Let_def k2_def flip: promote_eq)
  have set: "set xs = {..<?n}" using ring unfolding task_ring_def by blast
  have tn: "t < ?n" using set by (auto simp: xs)
  have cnt: "unat (task_count k1) = Suc ?n"
    using c room unat_inc_u32[OF room] by simp
  have st: "task_state (tasks k1 x) = RTOS_TASK_READY" if "x \<le> ?n" for x
  proof (cases "x = ?n")
    case True
    then show ?thesis using c by auto
  next
    case False
    then have "x \<in> set xs" using that set by simp
    then show ?thesis using c a False by auto
  qed
  have st2: "task_state (tasks k2 x) = (if x = t then RTOS_TASK_RUNNING else RTOS_TASK_READY)" if "x \<le> ?n" for x
    using st[OF that] by (simp add: k2_def upd_task_apply)
  obtain ys where "task_ring k1 ys" using c by blast
  moreover have "task_ring k2 ys = task_ring k1 ys"
    by (rule task_ring_cong) (simp_all add: k2_def upd_task_apply)
  moreover have f: "current_task k2 = Some t" "task_count k2 = task_count k1" "linked_at k2 = linked_at k1"
    by (simp_all add: k2_def c1)
  moreover have "x = t" if "x < Suc ?n" "task_state (tasks k2 x) = RTOS_TASK_RUNNING" for x
    using st2[of x] that by (auto split: if_splits)
  moreover have "task_state (tasks k2 t) = RTOS_TASK_RUNNING" "task_state (tasks k2 ?n) = RTOS_TASK_READY"
    using st2 tn by simp_all
  moreover have "stacks_aligned k2" using c f by (simp add: stacks_aligned_def)
  ultimately have "sys_inv ?n k2" unfolding sys_inv_def f(1,2) cnt by auto
  with start f(1) st2[of t] tn show ?thesis by (auto simp: xs)
qed

lemma scheduler_runs:
  assumes "startable k xs" and "isr_safe call"
  shows "\<exists>k0. rtos_start k = Some (Inr (Running k0)) \<and> current_task k0 = Some (hd xs) \<and>
    (\<forall>k'. reachable call (unat (task_count k)) k0 k' \<longrightarrow>
      (\<forall>x < unat (task_count k'). task_state (tasks k' x) = RTOS_TASK_RUNNING \<longrightarrow> current_task k' = Some x) \<and>
      (\<exists>k2 b. pendsv_exception k' = Some (Inr k2) \<and> current_task k2 = Some b \<and>
         task_state (tasks k2 b) = RTOS_TASK_RUNNING \<and>
         (scheduler_lock_count k' = 0 \<longrightarrow> (\<forall>x < unat (task_count k').
            task_state (tasks k2 x) = RTOS_TASK_READY \<longrightarrow> priority (tasks k' x) \<le> priority (tasks k' b)))))"
proof -
  obtain k0 where k0: "rtos_start k = Some (Inr (Running k0))" "sys_inv (unat (task_count k)) k0"
    "current_task k0 = Some (hd xs)" using start_sys_inv[OF assms(1)] by blast
  have "sys_inv (unat (task_count k)) k'" if "reachable call (unat (task_count k)) k0 k'" for k'
    using reachable_sys_inv[OF that assms(2) k0(2)] .
  with k0(1,3) switch_sys_inv show ?thesis unfolding sys_inv_def[of _ k0] by (metis sys_inv_def)
qed

section \<open>Properties\<close>

text \<open>
  C2. The scheduler never gets stuck. Once rtos\_start has handed over to the first task, then
  after any sequence of ticks, context switches, kernel calls, task creations and callbacks, in
  any order and whatever the objects they are made on contain, at most the current task is
  running, and the context switch exception finds a task to run whenever it comes: it neither loops
  nor follows a null pointer nor fails its assertion, and unless the scheduler is locked no ready
  task is more urgent than the one it starts. The hypotheses are that callbacks only wake tasks
  and that the idle task does not block.
\<close>

theorem scheduler_never_stuck:
  assumes "startable k xs" and "isr_safe call"
  shows "\<exists>k0. rtos_start k = Some (Inr (Running k0)) \<and> current_task k0 = Some (hd xs) \<and>
    (\<forall>k'. reachable call (unat (task_count k)) k0 k' \<longrightarrow>
      (\<forall>x < unat (task_count k'). task_state (tasks k' x) = RTOS_TASK_RUNNING \<longrightarrow> current_task k' = Some x) \<and>
      (\<exists>k2 b. pendsv_exception k' = Some (Inr k2) \<and> current_task k2 = Some b \<and>
         task_state (tasks k2 b) = RTOS_TASK_RUNNING \<and>
         (scheduler_lock_count k' = 0 \<longrightarrow> (\<forall>x < unat (task_count k').
            task_state (tasks k2 x) = RTOS_TASK_READY \<longrightarrow> priority (tasks k' x) \<le> priority (tasks k' b)))))"
  by (rule scheduler_runs[OF assms])

theorem scheduler_never_stuck_witness:
  "\<exists>k0 k2. rtos_start sample_tasks_kernel = Some (Inr (Running k0)) \<and> current_task k0 = Some 0 \<and>
     pendsv_exception k0 = Some (Inr k2)"
proof -
  have s: "startable sample_tasks_kernel [0]"
    using sample_tasks_ring sample_tasks_aligned
    by (simp add: startable_def) (simp add: sample_tasks_kernel_def zero_kernel_def sample_image_def zero_task_def)
  have i: "isr_safe sample_handlers" by (auto simp: isr_safe_def sample_handlers_def effect_def)
  from scheduler_never_stuck[OF s i] reachable.start show ?thesis by fastforce
qed

end
