(* ===== verification/Timeliness.thy ===== *)
theory Timeliness
  imports Kernel_Steps
begin

text \<open>
  Time, end to end: what the tick handler, the delay of a sleeping task and the scheduler give
  together. The system is run one tick period at a time: what tasks do until the next tick, the
  tick interrupt, and the context switch it requests.
\<close>

section \<open>Frames\<close>

text \<open>Stack guards of all tasks.\<close>

definition guards_ok :: "kernel \<Rightarrow> bool" where
  "guards_ok k \<longleftrightarrow> (\<forall>x < unat (task_count k). rtos_task_stack_guard_ok (Some x) k \<noteq> 0)"

lemma switch_frame:
  assumes "pendsv_exception k = Some (Inr k')"
  shows "scheduler_lock_count k' = scheduler_lock_count k \<and> ram k' = ram k \<and> timers k' = timers k \<and>
    timer_list k' = timer_list k \<and> task_count k' = task_count k \<and>
    priority (tasks k' x) = priority (tasks k x) \<and> delay_ticks (tasks k' x) = delay_ticks (tasks k x) \<and>
    stack_base (tasks k' x) = stack_base (tasks k x) \<and> stack_words (tasks k' x) = stack_words (tasks k x) \<and>
    (task_state (tasks k' x) = task_state (tasks k x) \<or> current_task k' = Some x \<or>
       current_task k = Some x \<and> task_state (tasks k x) = RTOS_TASK_RUNNING \<and> task_state (tasks k' x) = RTOS_TASK_READY)"
  using assms
  by (auto simp: pendsv_exception_def rtos_schedule_next_def RTOS_ASSERT_def Let_def upd_task_apply
      split: bind_splits if_splits option.splits)

text \<open>A switch from an unlocked scheduler: the task it starts can run and no ready task is more urgent.\<close>

lemma switch_most_urgent:
  assumes "sys_inv idle k" and "scheduler_lock_count k = 0"
  obtains k' b where "pendsv_exception k = Some (Inr k')" "sys_inv idle k'" "current_task k' = Some b"
    "b < unat (task_count k)" "task_state (tasks k' b) = RTOS_TASK_RUNNING"
    "task_state (tasks k b) \<in> {RTOS_TASK_READY, RTOS_TASK_RUNNING}"
    "\<And>x. x < unat (task_count k) \<Longrightarrow> task_state (tasks k x) \<in> {RTOS_TASK_READY, RTOS_TASK_RUNNING} \<Longrightarrow>
       priority (tasks k x) \<le> priority (tasks k b)"
proof -
  from switch_sys_inv[OF assms(1)] assms(2) obtain k' b where k': "pendsv_exception k = Some (Inr k')" "sys_inv idle k'"
    "current_task k' = Some b" "task_state (tasks k' b) = RTOS_TASK_RUNNING"
    "task_state (tasks k b) \<in> {RTOS_TASK_READY, RTOS_TASK_RUNNING}"
    and best: "\<forall>x < unat (task_count k). task_state (tasks k' x) = RTOS_TASK_READY \<longrightarrow>
      priority (tasks k x) \<le> priority (tasks k b)" by blast
  have n: "task_count k' = task_count k" using switch_frame[OF k'(1)] by simp
  have b: "b < unat (task_count k)"
  proof -
    obtain ys where "task_ring k' ys" using k'(2) by (auto simp: sys_inv_def)
    then show ?thesis using k'(3) n by (cases ys) (auto simp: task_ring_def)
  qed
  have "priority (tasks k x) \<le> priority (tasks k b)"
    if x: "x < unat (task_count k)" "task_state (tasks k x) \<in> {RTOS_TASK_READY, RTOS_TASK_RUNNING}" for x
  proof (cases "task_state (tasks k' x) = RTOS_TASK_READY")
    case True
    then show ?thesis using best x(1) by blast
  next
    case False
    have "task_state (tasks k' x) = RTOS_TASK_RUNNING \<longrightarrow> x = b"
      using k'(2,3) x(1) n by (auto simp: sys_inv_def)
    then show ?thesis using False x(2) switch_frame[OF k'(1), of x] k'(3,4) by auto
  qed
  from that[OF k'(1-3) b k'(4,5) this] show ?thesis .
qed

text \<open>A change that, whatever else it does, leaves the wait of task \<open>s\<close> and everybody's urgency alone.\<close>

definition polite :: "nat \<Rightarrow> kernel \<Rightarrow> kernel \<Rightarrow> bool" where
  "polite s k k' \<longleftrightarrow> effect {} k k' \<and> scheduler_lock_count k' = scheduler_lock_count k \<and>
     (\<forall>x. priority (tasks k' x) = priority (tasks k x)) \<and>
     task_state (tasks k' s) = task_state (tasks k s) \<and> delay_ticks (tasks k' s) = delay_ticks (tasks k s) \<and>
     (guards_ok k \<longrightarrow> guards_ok k')"

lemma polite_trans: "polite s a b \<Longrightarrow> polite s b c \<Longrightarrow> polite s a c"
  by (auto simp: polite_def intro: effect_trans)

lemma guards_ok_cong:
  "task_count k' = task_count k \<Longrightarrow> ram k' = ram k \<Longrightarrow>
     (\<And>x. stack_base (tasks k' x) = stack_base (tasks k x) \<and> stack_words (tasks k' x) = stack_words (tasks k x)) \<Longrightarrow>
     guards_ok k' = guards_ok k"
  unfolding guards_ok_def using guard_ok_cong[where k = k and k' = k'] by simp

lemma polite_ignores_timers: "ignores_timers (polite s)"
proof -
  have g: "guards_ok (upd_timer t f k) = guards_ok k" for t f k
    by (rule guards_ok_cong) (simp_all add: upd_timer_def)
  have "polite s k k" for k by (simp add: polite_def)
  moreover have "polite s k (upd_timer t f k)" for t f k
    by (simp add: polite_def g) (simp add: upd_timer_def effect_def)
  ultimately show ?thesis unfolding ignores_timers_def using polite_trans by blast
qed

definition polite_calls :: "callbacks \<Rightarrow> nat \<Rightarrow> bool" where
  "polite_calls call s \<longleftrightarrow> (\<forall>f a k k'. call f a k = Some k' \<longrightarrow> polite s k k')"

text \<open>A tick returns, and counts down the delay of a waiting task.\<close>

lemma tick_counts_down:
  assumes "observes call obs" and "polite_calls call s" and "timers_listed k xs" and "guards_ok k"
    and "task_count k \<noteq> 0" and "s < unat (task_count k)" and "current_task k \<noteq> Some s"
  shows "\<exists>k'. rtos_tick_handler call k = Some (Inr k') \<and> timers_listed k' xs \<and> guards_ok k' \<and>
    scheduler_lock_count k' = scheduler_lock_count k \<and> pendsv_pending (port k') \<and>
    (\<forall>x. priority (tasks k' x) = priority (tasks k x)) \<and>
    task_state (tasks k' s) = task_state (tick_block (tasks k s)) \<and>
    delay_ticks (tasks k' s) = delay_ticks (tick_block (tasks k s))"
proof -
  from tick_handler_parts[OF assms(1,3)] obtain k4 where
    k4: "rtos_timer_tick call (tick_start k) = Some k4" "timers_listed k4 xs"
    and h: "rtos_tick_handler call k =
       Some (case rtos_check_stack_guards k4 of Inl parked \<Rightarrow> Inl parked | Inr k5 \<Rightarrow> Inr (tick_end k5))" by metis
  have p: "polite s (tick_start k) k4"
    using timer_scan_rel[OF polite_ignores_timers _ k4(1)[unfolded rtos_timer_tick_def]] assms(2)
    unfolding polite_calls_def by blast
  have "guards_ok (tick_start k)" using assms(4) guards_ok_cong[of "tick_start k" k] by simp
  then have g4: "guards_ok k4" and n4: "task_count k4 = task_count k"
    using p by (simp_all add: polite_def effect_def)
  have "guard_cursor k4 < unat (task_count k4)"
    using assms(5) by (auto simp: guard_cursor_def n4 word_less_nat_alt word_le_nat_alt unat_gt_0)
  then have "rtos_task_stack_guard_ok (Some (guard_cursor k4)) k4 \<noteq> 0" using g4 by (simp add: guards_ok_def)
  then obtain i where i: "rtos_check_stack_guards k4 = Inr (k4\<lparr>stack_guard_check_index := i\<rparr>)"
    using guard_check_step[of k4] assms(5) by (auto simp: n4)
  let ?k = "tick_end (k4\<lparr>stack_guard_check_index := i\<rparr>)"
  have "timers_listed ?k xs" using k4(2) timers_listed_cong[of ?k k4 xs] by simp
  moreover have "guards_ok ?k" using g4 guards_ok_cong[of ?k k4] by simp
  moreover have "ticked k s = tick_block (tasks k s)" using assms(6,7) by (simp add: ticked_def)
  moreover have "priority (ticked k x) = priority (tasks k x)" for x by (simp add: ticked_def Let_def tick_block_def)
  ultimately show ?thesis using p by (simp add: polite_def h i)
qed

section \<open>Tick periods\<close>

text \<open>
  One tick period: the activity of the tasks, then the tick interrupt, then the context switch it
  requests. \<open>Inl\<close> is a parked system.
\<close>

fun periods :: "callbacks \<Rightarrow> (kernel \<Rightarrow> kernel) list \<Rightarrow> kernel \<Rightarrow> (kernel + kernel) option" where
  "periods call [] k = Some (Inr k)"
| "periods call (act # acts) k = do {
     ticked \<leftarrow> SysTick_Handler call (act k);
     case ticked of Inl parked \<Rightarrow> Some (Inl parked)
     | Inr k1 \<Rightarrow> do {
         switched \<leftarrow> pendsv_exception k1;
         case switched of Inl parked \<Rightarrow> Some (Inl parked) | Inr k2 \<Rightarrow> periods call acts k2
       }
   }"

text \<open>
  A system in which \<open>s\<close> waits for its delay, more urgent than all others: \<open>n\<close> ticks are left.
\<close>

definition settled :: "nat \<Rightarrow> u32 list \<Rightarrow> nat \<Rightarrow> kernel \<Rightarrow> bool" where
  "settled idle xs s k \<longleftrightarrow> sys_inv idle k \<and> timers_listed k xs \<and> guards_ok k \<and>
     scheduler_lock_count k = 0 \<and> s < unat (task_count k) \<and>
     (\<forall>x < unat (task_count k). x \<noteq> s \<longrightarrow> priority (tasks k x) < priority (tasks k s))"

definition waits :: "nat \<Rightarrow> u32 list \<Rightarrow> nat \<Rightarrow> nat \<Rightarrow> kernel \<Rightarrow> bool" where
  "waits idle xs s n k \<longleftrightarrow> settled idle xs s k \<and> current_task k \<noteq> Some s \<and>
     task_state (tasks k s) = RTOS_TASK_BLOCKED \<and> unat (delay_ticks (tasks k s)) = n"

text \<open>The context switch passes over a blocked task and takes the most urgent ready one.\<close>

lemma switch_settled:
  assumes "settled idle xs s k"
  shows "\<exists>k'. pendsv_exception k = Some (Inr k') \<and> settled idle xs s k' \<and>
    delay_ticks (tasks k' s) = delay_ticks (tasks k s) \<and>
    (task_state (tasks k s) = RTOS_TASK_BLOCKED \<longrightarrow>
       current_task k' \<noteq> Some s \<and> task_state (tasks k' s) = RTOS_TASK_BLOCKED) \<and>
    (task_state (tasks k s) = RTOS_TASK_READY \<and> current_task k \<noteq> Some s \<longrightarrow>
       current_task k' = Some s \<and> task_state (tasks k' s) = RTOS_TASK_RUNNING)"
proof -
  note a = assms[unfolded settled_def]
  have inv: "sys_inv idle k" using a by blast
  have "scheduler_lock_count k = 0" using a by blast
  from switch_most_urgent[OF inv this] obtain k' b where k': "pendsv_exception k = Some (Inr k')" "sys_inv idle k'"
    "current_task k' = Some b" "b < unat (task_count k)" "task_state (tasks k' b) = RTOS_TASK_RUNNING"
    "task_state (tasks k b) \<in> {RTOS_TASK_READY, RTOS_TASK_RUNNING}"
    and best: "\<And>x. x < unat (task_count k) \<Longrightarrow> task_state (tasks k x) \<in> {RTOS_TASK_READY, RTOS_TASK_RUNNING} \<Longrightarrow>
      priority (tasks k x) \<le> priority (tasks k b)" by metis
  have f: "scheduler_lock_count k' = scheduler_lock_count k" "ram k' = ram k" "timers k' = timers k"
    "timer_list k' = timer_list k" "task_count k' = task_count k" using switch_frame[OF k'(1)] by simp_all
  have g: "priority (tasks k' x) = priority (tasks k x)" "delay_ticks (tasks k' x) = delay_ticks (tasks k x)"
    "stack_base (tasks k' x) = stack_base (tasks k x)" "stack_words (tasks k' x) = stack_words (tasks k x)"
    "task_state (tasks k' x) = task_state (tasks k x) \<or> current_task k' = Some x \<or>
      current_task k = Some x \<and> task_state (tasks k x) = RTOS_TASK_RUNNING \<and> task_state (tasks k' x) = RTOS_TASK_READY"
    for x using switch_frame[OF k'(1), of x] by simp_all
  have "timers_listed k' xs" using a timers_listed_cong[of k' k xs] by (simp add: f)
  moreover have "guards_ok k'" using a guards_ok_cong[of k' k] by (simp add: f g)
  ultimately have "settled idle xs s k'" using a k'(2) by (simp add: settled_def f g)
  moreover have "b = s" if "task_state (tasks k s) = RTOS_TASK_READY" "current_task k \<noteq> Some s"
    using best[of s] that(1) a k'(4) by (metis insert_iff leD)
  ultimately show ?thesis using k' g(2,5)[of s] by auto
qed

text \<open>One period of a waiting task.\<close>

lemma tick_settled:
  assumes "observes call obs" and "polite_calls call s" and "waits idle xs s (Suc n) k"
  shows "\<exists>k'. SysTick_Handler call k = Some (Inr k') \<and> settled idle xs s k' \<and> current_task k' \<noteq> Some s \<and>
    unat (delay_ticks (tasks k' s)) = n \<and>
    task_state (tasks k' s) = (if n = 0 then RTOS_TASK_READY else RTOS_TASK_BLOCKED)"
proof -
  note w = assms(3)[unfolded waits_def settled_def]
  have "isr_safe call" using assms(2) by (simp add: isr_safe_def polite_calls_def polite_def)
  note e = tick_effect[OF this]
  have "task_count k \<noteq> 0" using w by auto
  with tick_counts_down[OF assms(1,2), of k xs] w obtain k' where
    k': "rtos_tick_handler call k = Some (Inr k')" "timers_listed k' xs" "guards_ok k'"
    "scheduler_lock_count k' = 0" "\<forall>x. priority (tasks k' x) = priority (tasks k x)"
    "task_state (tasks k' s) = task_state (tick_block (tasks k s))"
    "delay_ticks (tasks k' s) = delay_ticks (tick_block (tasks k s))" by auto
  have c: "current_task k' = current_task k" "task_count k' = task_count k"
    using e[OF k'(1)] by (simp_all add: effect_def)
  have "sys_inv idle k'" using effect_sys_inv[OF _ e[OF k'(1)]] w by simp
  then have "settled idle xs s k'" using w k' by (simp add: settled_def c)
  moreover have d: "unat (delay_ticks (tasks k s) - 1) = n" using w by (simp add: unat_pred_u32 unat_eq_0 flip: unat_0_iff)
  then have "delay_ticks (tasks k s) = 1 \<longleftrightarrow> n = 0" by (auto simp: unat_eq_0)
  with d have "unat (delay_ticks (tasks k' s)) = n"
    "task_state (tasks k' s) = (if n = 0 then RTOS_TASK_READY else RTOS_TASK_BLOCKED)"
    using w by (auto simp: k' tick_block_def u32_gt_0 Let_def)
  ultimately show ?thesis using k'(1) w by (simp add: SysTick_Handler_def c)
qed

lemma one_period:
  assumes "observes call obs" and "polite_calls call s" and "waits idle xs s (Suc n) (act k)"
  shows "\<exists>k'. periods call [act] k = Some (Inr k') \<and> periods call (act # acts) k = periods call acts k' \<and>
    (if n = 0 then current_task k' = Some s \<and> task_state (tasks k' s) = RTOS_TASK_RUNNING
     else waits idle xs s n k')"
proof -
  from tick_settled[OF assms] obtain k1 where k1: "SysTick_Handler call (act k) = Some (Inr k1)" "settled idle xs s k1"
    "current_task k1 \<noteq> Some s" "unat (delay_ticks (tasks k1 s)) = n"
    "task_state (tasks k1 s) = (if n = 0 then RTOS_TASK_READY else RTOS_TASK_BLOCKED)" by blast
  from switch_settled[OF k1(2)] obtain k2 where k2: "pendsv_exception k1 = Some (Inr k2)" "settled idle xs s k2"
    "delay_ticks (tasks k2 s) = delay_ticks (tasks k1 s)"
    "if n = 0 then current_task k2 = Some s \<and> task_state (tasks k2 s) = RTOS_TASK_RUNNING
     else current_task k2 \<noteq> Some s \<and> task_state (tasks k2 s) = RTOS_TASK_BLOCKED"
    using k1(3,5) by (cases "n = 0") auto
  then show ?thesis using k1 by (auto simp: waits_def)
qed


text \<open>All of the wait.\<close>

lemma waits_periods:
  assumes "observes call obs" and "polite_calls call s"
    and rely: "\<forall>act \<in> set acts. \<forall>n k. waits idle xs s n k \<longrightarrow> waits idle xs s n (act k)"
    and "waits idle xs s (m + n) k" and "length acts = m" and "0 < n"
  shows "\<exists>k'. periods call acts k = Some (Inr k') \<and> waits idle xs s n k'"
  using rely assms(4,5)
proof (induction acts arbitrary: k m)
  case Nil
  then show ?case by auto
next
  case (Cons act acts)
  then obtain j where j: "m = Suc j" by (cases m) auto
  have "waits idle xs s (Suc (j + n)) (act k)" using Cons.prems j by simp
  from one_period[where act = act and k = k and acts = acts, OF assms(1,2) this] assms(6) obtain k' where
    k': "periods call (act # acts) k = periods call acts k'" "waits idle xs s (j + n) k'" by auto
  from Cons.IH[OF _ k'(2)] Cons.prems(1,3) j show ?case by (simp add: k'(1) del: periods.simps)
qed

lemma periods_snoc:
  "periods call acts k = Some (Inr k') \<Longrightarrow> periods call (acts @ [act]) k = periods call [act] k'"
proof (induction acts arbitrary: k)
  case Nil
  then show ?case by simp
next
  case (Cons a acts)
  then show ?case by (auto split: bind_splits sum.splits)
qed

lemma sleep_state:
  assumes "current_task k = Some s" and "ms \<noteq> 0"
  obtains k1 where "rtos_sleep ms k = Some k1" "timers k1 = timers k" "timer_list k1 = timer_list k"
    "ram k1 = ram k" "scheduler_lock_count k1 = scheduler_lock_count k" "task_count k1 = task_count k"
    "tasks k1 = upd_task s (\<lambda>b. b\<lparr>delay_ticks := rtos_ms_to_ticks ms, wait_type := RTOS_WAIT_SLEEP,
       wait_result := RTOS_OK, task_state := RTOS_TASK_BLOCKED\<rparr>) (tasks k)"
proof -
  let ?f = "\<lambda>b. b\<lparr>delay_ticks := rtos_ms_to_ticks ms, wait_type := RTOS_WAIT_SLEEP,
       wait_result := RTOS_OK, task_state := RTOS_TASK_BLOCKED\<rparr>"
  have "rtos_sleep ms k = Some (rtos_yield (rtos_exit_critical
      ((rtos_enter_critical k)\<lparr>tasks := upd_task s ?f (tasks k)\<rparr>)))"
    using assms by (simp add: rtos_sleep_def Let_def)
  then show ?thesis by (rule that) simp_all
qed

text \<open>The most urgent task goes to sleep and the processor goes to another.\<close>

lemma sleep_waits:
  assumes "settled idle xs s k" and "current_task k = Some s" and "s \<noteq> idle"
    and "0 < unat ms" and "unat ms \<le> 4294966"
  shows "\<exists>k1 k2. rtos_sleep ms k = Some k1 \<and> pendsv_exception k1 = Some (Inr k2) \<and> waits idle xs s (unat ms) k2"
proof -
  note a = assms(1)[unfolded settled_def]
  have "ms \<noteq> 0" using assms(4) by auto
  from sleep_state[OF assms(2) this] obtain k1 where k1: "rtos_sleep ms k = Some k1"
    "timers k1 = timers k" "timer_list k1 = timer_list k" "ram k1 = ram k"
    "scheduler_lock_count k1 = scheduler_lock_count k" "task_count k1 = task_count k"
    "tasks k1 = upd_task s (\<lambda>b. b\<lparr>delay_ticks := rtos_ms_to_ticks ms, wait_type := RTOS_WAIT_SLEEP,
       wait_result := RTOS_OK, task_state := RTOS_TASK_BLOCKED\<rparr>) (tasks k)" .
  have "sys_inv idle k1" using effect_sys_inv[OF _ sleep_effect[OF k1(1) assms(2)]] a assms(3) by simp
  moreover have "timers_listed k1 xs" using a timers_listed_cong[of k1 k xs] by (simp add: k1)
  moreover have "guards_ok k1" using a guards_ok_cong[of k1 k] by (simp add: k1 upd_task_apply)
  ultimately have "settled idle xs s k1" using a by (simp add: settled_def k1 upd_task_apply)
  from switch_settled[OF this] obtain k2 where k2: "pendsv_exception k1 = Some (Inr k2)" "settled idle xs s k2"
    "delay_ticks (tasks k2 s) = delay_ticks (tasks k1 s)" "current_task k2 \<noteq> Some s"
    "task_state (tasks k2 s) = RTOS_TASK_BLOCKED" by (auto simp: k1)
  have "unat (delay_ticks (tasks k1 s)) = unat ms" using ms_to_ticks_exact[OF assms(5)] assms(4) by (simp add: k1)
  with k1(1) k2 show ?thesis by (simp add: waits_def)
qed

section \<open>Properties\<close>


text \<open>Two tasks, of which the first is the more urgent and runs; the other one is idle.\<close>

definition sample_time_kernel :: kernel where
  "sample_time_kernel = sample_timer_kernel\<lparr>task_count := 2, current_task := Some 0,
     tasks := (\<lambda>_. zero_task)(
       0 := zero_task\<lparr>next_task := Some 1, priority := 2, task_state := RTOS_TASK_RUNNING, stack_base := 0x20000400\<rparr>,
       1 := zero_task\<lparr>next_task := Some 0, stack_base := 0x20000800\<rparr>)\<rparr>"

lemma sample_time_settled: "settled 1 [0x20004000] 0 sample_time_kernel"
proof -
  have f: "task_count sample_time_kernel = 2" "current_task sample_time_kernel = Some 0"
    "tasks sample_time_kernel 0 = zero_task\<lparr>next_task := Some 1, priority := 2, task_state := RTOS_TASK_RUNNING,
       stack_base := 0x20000400\<rparr>"
    "tasks sample_time_kernel (Suc 0) = zero_task\<lparr>next_task := Some 0, stack_base := 0x20000800\<rparr>"
    by (simp_all add: sample_time_kernel_def)
  have two: "x < (2::nat) \<longleftrightarrow> x = 0 \<or> x = Suc 0" for x by auto
  have "task_ring sample_time_kernel [0, 1]" by (auto simp: task_ring_def f)
  moreover have "stacks_aligned sample_time_kernel"
    by (simp add: stacks_aligned_def sample_time_kernel_def sample_timer_kernel_def zero_kernel_def sample_image_def)
  ultimately have "sys_inv 1 sample_time_kernel" by (auto simp: sys_inv_def f two zero_task_def)
  moreover have "timers_listed sample_time_kernel [0x20004000]"
    using sample_timers_listed by (simp add: sample_time_kernel_def timers_listed_def)
  moreover have "guards_ok sample_time_kernel"
    by (auto simp: guards_ok_def f two rtos_task_stack_guard_ok_def Let_def zero_task_def)
  moreover have "scheduler_lock_count sample_time_kernel = 0"
    by (simp add: sample_time_kernel_def sample_timer_kernel_def zero_kernel_def)
  ultimately show ?thesis by (auto simp: settled_def f two zero_task_def)
qed

text \<open>What leaves the wait alone, in the sense above, may happen between ticks.\<close>

lemma polite_waits:
  assumes "waits idle xs s n k" and "polite s k k'" and "timers_listed k' xs"
  shows "waits idle xs s n k'"
proof -
  have e: "effect {} k k'" using assms(2) by (simp add: polite_def)
  then have "sys_inv idle k'" using effect_sys_inv[OF _ e] assms(1) by (simp add: waits_def settled_def)
  with assms e show ?thesis by (auto simp: waits_def settled_def polite_def effect_def)
qed

lemma notify_waits:
  assumes "waits idle xs s n k" and "t \<noteq> s"
  shows "waits idle xs s n (snd (rtos_task_notify (Some t) v k))"
proof (rule polite_waits[OF assms(1)])
  let ?k = "snd (rtos_task_notify (Some t) v k)"
  have f: "task_count ?k = task_count k" "ram ?k = ram k" "scheduler_lock_count ?k = scheduler_lock_count k"
    "timers ?k = timers k" "timer_list ?k = timer_list k"
    "stack_base (tasks ?k x) = stack_base (tasks k x)" "stack_words (tasks ?k x) = stack_words (tasks k x)"
    "priority (tasks ?k x) = priority (tasks k x)" "tasks ?k s = tasks k s" for x
    using assms(2) by (simp_all add: rtos_task_notify_def notify_common_def Let_def upd_task_apply)
  have "effect {} k ?k" by (cases "rtos_task_notify (Some t) v k") (simp add: rtos_task_notify_def notify_effect)
  moreover have "guards_ok ?k = guards_ok k" by (rule guards_ok_cong) (simp_all add: f)
  ultimately show "polite s k ?k" by (simp add: polite_def f)
  show "timers_listed ?k xs" using assms(1) timers_listed_cong[of ?k k xs]
    by (simp add: f waits_def settled_def)
qed


end
