(* ===== verification/Interplay.thy ===== *)
theory Interplay
  imports Timeliness
begin

text \<open>
  What synchronisation and scheduling give together: a mutex bounds how long an urgent task waits
  for a less urgent one, and a message is in the hands of an urgent receiver after one context
  switch.
\<close>

section \<open>Frames\<close>

lemma switch_frame_wait:
  assumes "pendsv_exception k = Some (Inr k')"
  shows "queues k' = queues k \<and> mutexes k' = mutexes k \<and> wait_next (tasks k' x) = wait_next (tasks k x) \<and>
    wait_result (tasks k' x) = wait_result (tasks k x)"
  using assms
  by (auto simp: pendsv_exception_def rtos_schedule_next_def RTOS_ASSERT_def Let_def upd_task_apply
      split: bind_splits if_splits option.splits)

text \<open>A ready task that is more urgent than all others is the one a switch starts.\<close>

lemma switch_to:
  assumes "sys_inv idle k" and "scheduler_lock_count k = 0" and "c < unat (task_count k)"
    and "task_state (tasks k c) = RTOS_TASK_READY"
    and "\<And>x. x < unat (task_count k) \<Longrightarrow> x \<noteq> c \<Longrightarrow>
      task_state (tasks k x) \<in> {RTOS_TASK_READY, RTOS_TASK_RUNNING} \<Longrightarrow> priority (tasks k x) < priority (tasks k c)"
  obtains k' where "pendsv_exception k = Some (Inr k')" "current_task k' = Some c"
    "task_state (tasks k' c) = RTOS_TASK_RUNNING"
proof -
  from switch_most_urgent[OF assms(1,2)] obtain k' b where k': "pendsv_exception k = Some (Inr k')"
    "current_task k' = Some b" "b < unat (task_count k)" "task_state (tasks k' b) = RTOS_TASK_RUNNING"
    "task_state (tasks k b) \<in> {RTOS_TASK_READY, RTOS_TASK_RUNNING}"
    and best: "\<And>x. x < unat (task_count k) \<Longrightarrow> task_state (tasks k x) \<in> {RTOS_TASK_READY, RTOS_TASK_RUNNING} \<Longrightarrow>
       priority (tasks k x) \<le> priority (tasks k b)" by metis
  have "priority (tasks k c) \<le> priority (tasks k b)" using best[of c] assms(3,4) by simp
  then have "b = c" using assms(5)[OF k'(3) _ k'(5)] by (metis not_less)
  with k' that show ?thesis by blast
qed

section \<open>Mutexes and the scheduler\<close>

lemma mutex_lock_unlocked:
  "mutex_lock_try p ms k = Some (r, k') \<Longrightarrow> scheduler_lock_count k' = scheduler_lock_count k"
  by (auto simp: mutex_lock_try_def Let_def split: option.splits if_splits bind_splits)

text \<open>As long as an owner that can run inherits, whatever runs is as urgent as any live waiter.\<close>

lemma switch_inherits:
  assumes "sys_inv idle k" and "scheduler_lock_count k = 0" and "inherits k p xs"
    and "mtx_owner (mutexes k p) = Some ow" and "ow < unat (task_count k)"
    and "task_state (tasks k ow) \<in> {RTOS_TASK_READY, RTOS_TASK_RUNNING}"
  obtains k' b where "pendsv_exception k = Some (Inr k')" "current_task k' = Some b"
    "task_state (tasks k' b) = RTOS_TASK_RUNNING" "b < unat (task_count k)"
    "task_state (tasks k b) \<in> {RTOS_TASK_READY, RTOS_TASK_RUNNING}"
    "priority (tasks k ow) \<le> priority (tasks k b)"
    "\<And>x. x \<in> set xs \<Longrightarrow> live (tasks k) x \<Longrightarrow> priority (tasks k x) \<le> priority (tasks k b)"
proof -
  from switch_most_urgent[OF assms(1,2)] obtain k' b where k': "pendsv_exception k = Some (Inr k')"
    "current_task k' = Some b" "task_state (tasks k' b) = RTOS_TASK_RUNNING" "b < unat (task_count k)"
    "task_state (tasks k b) \<in> {RTOS_TASK_READY, RTOS_TASK_RUNNING}"
    and best: "\<And>x. x < unat (task_count k) \<Longrightarrow> task_state (tasks k x) \<in> {RTOS_TASK_READY, RTOS_TASK_RUNNING} \<Longrightarrow>
       priority (tasks k x) \<le> priority (tasks k b)" by metis
  have o: "priority (tasks k ow) \<le> priority (tasks k b)" using best assms(5,6) by blast
  have "priority (tasks k x) \<le> priority (tasks k b)" if "x \<in> set xs" "live (tasks k) x" for x
    using assms(3,4) that o unfolding inherits_def by (meson order_trans)
  from that[OF k' o this] show ?thesis .
qed

section \<open>Queues and the scheduler\<close>

lemma send_room_keeps:
  assumes "queue_inv k p xs ys" and "q_count (queues k p) < q_capacity (queues k p)"
    and "queue_send_try p v ms k = Some (r, k')"
  shows "scheduler_lock_count k' = scheduler_lock_count k \<and> priority (tasks k' x) = priority (tasks k x) \<and>
    wait_result (tasks k' x) = (if first_live (tasks k) xs = Some x then RTOS_OK else wait_result (tasks k x))"
proof -
  let ?q = "queues k p"
  let ?q2 = "?q\<lparr>q_tail := (q_tail ?q + 1) mod q_capacity ?q, q_count := q_count ?q + 1\<rparr>"
  have "waitq (tasks k) (recv_ends ?q2) xs" using assms(1) by (simp add: queue_inv_def recv_ends_def)
  from receivers.pop_law[OF this] obtain q3 where
    "recv_pop ?q2 (tasks k) = Some (first_live (tasks k) xs, q3, pop_store (tasks k) xs)" by auto
  then show ?thesis
    using assms(2,3) by (auto simp: queue_send_try_def queue_finish_def Let_def upd_task_apply split: option.splits)
qed

lemma switch_queue_inv:
  assumes "pendsv_exception k = Some (Inr k')"
  shows "queue_inv k' p xs ys = queue_inv k p xs ys" "queue_messages k' q = queue_messages k q"
proof -
  have "waitq (tasks k') e zs = waitq (tasks k) e zs" for e zs
    by (rule waitq_cong) (use switch_frame_wait[OF assms] in blast)
  moreover have "queues k' = queues k" "ram k' = ram k" using switch_frame_wait[OF assms] switch_frame[OF assms] by blast+
  ultimately show "queue_inv k' p xs ys = queue_inv k p xs ys" "queue_messages k' q = queue_messages k q"
    by (simp_all add: queue_inv_def queue_messages_def)
qed

text \<open>A receiver that was woken and finds a message returns with it.\<close>

lemma woken_receiver:
  assumes "queue_inv k p xs ys" and "wait_result (tasks k c) = RTOS_OK"
    and "queue_messages k (queues k p) \<noteq> []"
    and "\<And>i. i < unat (q_capacity (queues k p)) \<Longrightarrow> vp \<noteq> slot (q_buffer (queues k p)) i"
  shows "\<exists>k1 k2. queue_recv_resume p c k = Some (None, k1) \<and> queue_recv_loop p vp ms susps k1 = Some (RTOS_OK, k2) \<and>
    ram k2 vp # queue_messages k2 (queues k2 p) = queue_messages k (queues k p)"
proof -
  define k1 where "k1 = rtos_exit_critical (rtos_enter_critical k)"
  have resume: "queue_recv_resume p c k = Some (None, k1)"
    using assms(2) by (simp add: queue_recv_resume_def Let_def k1_def)
  have q: "queue_inv k1 p xs ys" "queues k1 = queues k"
    "queue_messages k1 (queues k1 p) = queue_messages k (queues k p)"
    using assms(1) by (simp_all add: k1_def queue_inv_def queue_messages_def)
  have "unat (q_count (queues k1 p)) \<noteq> 0"
    using assms(3) q(3) length_queue_messages[of k1 "queues k1 p"] by (metis length_0_conv)
  then have "0 < q_count (queues k1 p)" by (simp add: word_less_nat_alt)
  from queue_recv_some[OF q(1) this, of vp ms] assms(4) q(2) obtain k2 where
    k2: "queue_recv_try p vp ms k1 = Some (Some 0, k2)"
    "queue_messages k1 (queues k1 p) = ram k2 vp # queue_messages k2 (queues k2 p)" by auto
  have "queue_recv_loop p vp ms susps k1 = Some (RTOS_OK, k2)"
    using k2(1) by (simp add: queue_recv_loop.simps)
  with resume k2(2) q(3) show ?thesis by auto
qed

section \<open>Properties\<close>

text \<open>
  C4. No priority inversion on a mutex. When a task blocks on a mutex whose owner is ready to run,
  the context switch it requests starts a task at least as urgent as the one that blocked, and as
  every other live waiter; a task between the two in urgency does not run. If no ready task but
  the owner was as urgent, it is the owner that runs.
\<close>

theorem no_priority_inversion:
  assumes "sys_inv idle k" and "scheduler_lock_count k = 0" and "current_task k = Some w" and "w \<noteq> idle"
    and "mutex_inv k p xs" and "inherits k p xs" and "w \<notin> set xs" and "ms \<noteq> 0"
    and "mtx_owner (mutexes k p) = Some ow" and "ow \<noteq> w"
    and "ow < unat (task_count k)" and "task_state (tasks k ow) = RTOS_TASK_READY"
  shows "\<exists>k1 k2 b. mutex_lock_try p ms k = Some (None, k1) \<and> pendsv_exception k1 = Some (Inr k2) \<and>
    current_task k2 = Some b \<and> task_state (tasks k2 b) = RTOS_TASK_RUNNING \<and> b \<noteq> w \<and>
    (\<forall>x \<in> insert w (set xs). live (tasks k1) x \<longrightarrow> priority (tasks k2 x) \<le> priority (tasks k2 b)) \<and>
    ((\<forall>x < unat (task_count k). x \<noteq> w \<longrightarrow> x \<noteq> ow \<longrightarrow> task_state (tasks k x) = RTOS_TASK_READY \<longrightarrow>
       priority (tasks k x) < priority (tasks k w)) \<longrightarrow> b = ow)"
proof -
  let ?xs = "prio_insert (\<lambda>x. priority (tasks k x)) w xs"
  from mutex_block[OF assms(5,3,7,9,10,8)] obtain k1 where k1: "mutex_lock_try p ms k = Some (None, k1)"
    "mutex_inv k1 p ?xs" "mutex_payload (mutexes k1 p) = mutex_payload (mutexes k p)" "live (tasks k1) w"
    "\<forall>x. x \<noteq> w \<longrightarrow> live (tasks k1) x = live (tasks k) x \<and> task_state (tasks k1 x) = task_state (tasks k x)"
    "\<forall>x. priority (tasks k1 x) =
       (if x = ow then max (priority (tasks k ow)) (priority (tasks k w)) else priority (tasks k x))" by blast
  have e: "effect {w} k k1" by (rule mutex_lock_effect[OF k1(1) assms(3)])
  have inv1: "sys_inv idle k1" using effect_sys_inv[OF assms(1) e] assms(4) by simp
  have u: "scheduler_lock_count k1 = 0" using mutex_lock_unlocked[OF k1(1)] assms(2) by simp
  have ow: "mtx_owner (mutexes k1 p) = Some ow" using k1(3) assms(9) by (simp add: mutex_payload_def)
  have n: "task_count k1 = task_count k" using e by (simp add: effect_def)
  have no: "ow \<notin> set xs" using assms(5,9) by (simp add: mutex_inv_def)
  have old: "priority (tasks k1 x) \<le> priority (tasks k1 ow)" if "x \<in> set xs" "live (tasks k1) x" for x
  proof -
    have "x \<noteq> w" "x \<noteq> ow" using that(1) assms(7) no by auto
    moreover have "live (tasks k) x" using that(2) k1(5) \<open>x \<noteq> w\<close> by simp
    ultimately show ?thesis using assms(6,9) that(1) k1(6) by (simp add: inherits_def le_max_iff_disj)
  qed
  have "priority (tasks k1 w) \<le> priority (tasks k1 ow)" using k1(6) by simp
  with old have inh: "inherits k1 p ?xs" by (auto simp: inherits_def ow)
  have owr: "task_state (tasks k1 ow) \<in> {RTOS_TASK_READY, RTOS_TASK_RUNNING}" using k1(5) assms(10,12) by simp
  have own: "ow < unat (task_count k1)" using assms(11) n by simp
  from switch_inherits[OF inv1 u inh ow own owr] obtain k2 b where k2: "pendsv_exception k1 = Some (Inr k2)"
    "current_task k2 = Some b" "task_state (tasks k2 b) = RTOS_TASK_RUNNING" "b < unat (task_count k1)"
    "task_state (tasks k1 b) \<in> {RTOS_TASK_READY, RTOS_TASK_RUNNING}" "priority (tasks k1 ow) \<le> priority (tasks k1 b)"
    and best: "\<And>x. x \<in> set ?xs \<Longrightarrow> live (tasks k1) x \<Longrightarrow> priority (tasks k1 x) \<le> priority (tasks k1 b)" by metis
  have p: "priority (tasks k2 x) = priority (tasks k1 x)" for x using switch_frame[OF k2(1)] by blast
  have bw: "b \<noteq> w" using k2(5) k1(4) by (auto simp: live_def)
  have "b = ow" if least: "\<forall>x < unat (task_count k). x \<noteq> w \<longrightarrow> x \<noteq> ow \<longrightarrow>
    task_state (tasks k x) = RTOS_TASK_READY \<longrightarrow> priority (tasks k x) < priority (tasks k w)"
  proof (rule ccontr)
    assume ne: "b \<noteq> ow"
    have "task_state (tasks k b) \<in> {RTOS_TASK_READY, RTOS_TASK_RUNNING}" using k2(5) k1(5) bw by simp
    moreover have "task_state (tasks k b) \<noteq> RTOS_TASK_RUNNING"
      using assms(1,3) bw k2(4) n by (auto simp: sys_inv_def)
    ultimately have "priority (tasks k b) < priority (tasks k w)" using least bw ne k2(4) n by simp
    moreover have "priority (tasks k w) \<le> priority (tasks k b)"
      using best[of w] k1(4,6) assms(10) ne by (simp split: if_splits)
    ultimately show False by simp
  qed
  with k1(1) k2(1-3) bw best p show ?thesis by auto
qed

text \<open>
  Task 0, urgent, runs and asks for the mutex that task 1 holds; task 2 lies between them; task 3
  is idle.
\<close>

definition sample_inversion_kernel :: kernel where
  "sample_inversion_kernel = (zero_kernel sample_image)\<lparr>task_count := 4, current_task := Some 0,
     tasks := (\<lambda>_. zero_task)(
       0 := zero_task\<lparr>next_task := Some 1, priority := 5, base_priority := 5, task_state := RTOS_TASK_RUNNING\<rparr>,
       1 := zero_task\<lparr>next_task := Some 2, priority := 1, base_priority := 1\<rparr>,
       2 := zero_task\<lparr>next_task := Some 3, priority := 3, base_priority := 3\<rparr>,
       3 := zero_task\<lparr>next_task := Some 0\<rparr>),
     mutexes := (\<lambda>_. \<lparr>mtx_owner = Some 1, mtx_lock_count = 1, mtx_wait_head = None, mtx_wait_tail = None\<rparr>)\<rparr>"

lemma sample_inversion_inv: "sys_inv 3 sample_inversion_kernel"
proof -
  have "task_ring sample_inversion_kernel [0, 1, 2, 3]"
    by (auto simp: task_ring_def sample_inversion_kernel_def)
  moreover have "stacks_aligned sample_inversion_kernel"
    by (simp add: stacks_aligned_def sample_inversion_kernel_def zero_kernel_def sample_image_def)
  ultimately show ?thesis
    unfolding sys_inv_def by (auto simp: sample_inversion_kernel_def zero_task_def split: if_splits)
qed

theorem no_priority_inversion_witness:
  "\<exists>k1 k2. mutex_lock_try 0x20001000 1 sample_inversion_kernel = Some (None, k1) \<and>
     pendsv_exception k1 = Some (Inr k2) \<and> current_task k2 = Some 1"
proof -
  let ?k = sample_inversion_kernel
  have k: "scheduler_lock_count ?k = 0" "current_task ?k = Some 0" "mutex_inv ?k 0x20001000 []"
    "inherits ?k 0x20001000 []" "mtx_owner (mutexes ?k 0x20001000) = Some 1" "1 < unat (task_count ?k)"
    "task_state (tasks ?k 1) = RTOS_TASK_READY"
    by (simp_all add: sample_inversion_kernel_def zero_kernel_def zero_task_def mutex_inv_def mutex_ends_def inherits_def)
  have n: "(0::nat) \<noteq> 3" "(0::nat) \<notin> set []" "(1::u32) \<noteq> 0" "(1::nat) \<noteq> 0" by simp_all
  have least: "\<forall>x < unat (task_count ?k). x \<noteq> 0 \<longrightarrow> x \<noteq> 1 \<longrightarrow> task_state (tasks ?k x) = RTOS_TASK_READY \<longrightarrow>
      priority (tasks ?k x) < priority (tasks ?k 0)"
    by (auto simp: sample_inversion_kernel_def zero_task_def)
  from no_priority_inversion[OF sample_inversion_inv k(1,2) n(1) k(3,4) n(2,3) k(5) n(4) k(6,7)] least
  show ?thesis by blast
qed

text \<open>
  C5. A message is handed over promptly. When a task sends to a queue with room on which a more
  urgent task is the first to wait, the call returns, the context switch it requests starts the
  receiver, and the receiver's call returns there with the oldest message of the queue, which is
  the one just sent if the queue was empty.
\<close>

theorem prompt_handoff:
  assumes "sys_inv idle k" and "scheduler_lock_count k = 0" and "current_task k = Some t"
    and "p \<noteq> 0" and "vp \<noteq> 0" and "queue_inv k p xs ys" and "q_count (queues k p) < q_capacity (queues k p)"
    and "first_live (tasks k) xs = Some c" and "c < unat (task_count k)"
    and "\<forall>x < unat (task_count k). x \<noteq> c \<longrightarrow> task_state (tasks k x) \<in> {RTOS_TASK_READY, RTOS_TASK_RUNNING} \<longrightarrow>
      priority (tasks k x) < priority (tasks k c)"
    and "\<forall>i < unat (q_capacity (queues k p)). vp \<noteq> slot (q_buffer (queues k p)) i"
  shows "\<exists>k1 k2 k3 k4. rtos_queue_send p v [] k = Some (0, k1) \<and> pendsv_exception k1 = Some (Inr k2) \<and>
    current_task k2 = Some c \<and> task_state (tasks k2 c) = RTOS_TASK_RUNNING \<and>
    queue_recv_resume p c k2 = Some (None, k3) \<and> queue_recv_loop p vp ms susps k3 = Some (RTOS_OK, k4) \<and>
    ram k4 vp # queue_messages k4 (queues k4 p) = queue_messages k (queues k p) @ [v]"
proof -
  from queue_send_room[OF assms(6,7), of v RTOS_TIMEOUT_FOREVER] obtain k1 where
    k1: "queue_send_try p v RTOS_TIMEOUT_FOREVER k = Some (Some 0, k1)" "queue_inv k1 p (after_live (tasks k) xs) ys"
    "queue_messages k1 (queues k1 p) = queue_messages k (queues k p) @ [v]"
    "q_capacity (queues k1 p) = q_capacity (queues k p)" "q_buffer (queues k1 p) = q_buffer (queues k p)"
    "woke_first k xs k1" by blast
  note keeps = send_room_keeps[OF assms(6,7) k1(1)]
  have sent: "rtos_queue_send p v [] k = Some (0, k1)"
    using k1(1) assms(4) by (simp add: rtos_queue_send_def rtos_queue_send_timeout_def queue_send_loop.simps)
  have st: "task_state (tasks k1 x) = (if x = c then RTOS_TASK_READY else task_state (tasks k x))" for x
    using k1(6) assms(8) by (auto simp: woke_first_def)
  have "queue_send_try p v 0 k = queue_send_try p v RTOS_TIMEOUT_FOREVER k"
    using assms(7) by (simp add: queue_send_try_def Let_def)
  then have e: "effect {} k k1" using queue_send_poll_effect k1(1) by simp
  have inv1: "sys_inv idle k1" using effect_sys_inv[OF assms(1) e] by simp
  have u: "scheduler_lock_count k1 = 0" and n: "task_count k1 = task_count k"
    using keeps assms(2) e by (simp_all add: effect_def)
  have "priority (tasks k1 x) < priority (tasks k1 c)" if "x < unat (task_count k1)" "x \<noteq> c"
    "task_state (tasks k1 x) \<in> {RTOS_TASK_READY, RTOS_TASK_RUNNING}" for x
    using assms(10) that n st[of x] keeps by metis
  with assms(9) n st obtain k2 where k2: "pendsv_exception k1 = Some (Inr k2)"
    "current_task k2 = Some c" "task_state (tasks k2 c) = RTOS_TASK_RUNNING"
    using switch_to[OF inv1 u, of c] by metis
  have q2: "queue_inv k2 p (after_live (tasks k) xs) ys" "queues k2 = queues k1"
    "queue_messages k2 (queues k2 p) = queue_messages k (queues k p) @ [v]"
    using k1(2,3) switch_queue_inv[OF k2(1)] switch_frame_wait[OF k2(1)] by simp_all
  have ok: "wait_result (tasks k2 c) = RTOS_OK" using switch_frame_wait[OF k2(1), of c] keeps[of c] assms(8) by simp
  have "vp \<noteq> slot (q_buffer (queues k2 p)) i" if "i < unat (q_capacity (queues k2 p))" for i
    using assms(11) that k1(4,5) q2(2) by simp
  from woken_receiver[OF q2(1) ok _ this, of ms susps] q2(3) sent k2 show ?thesis by auto
qed

text \<open>The queue of task 1, which waits to receive; task 0 sends; task 2 is idle.\<close>

definition sample_handoff_kernel :: kernel where
  "sample_handoff_kernel = sample_queue_kernel\<lparr>task_count := 3,
     tasks := (\<lambda>_. zero_task)(
       0 := zero_task\<lparr>next_task := Some 1, priority := 1, task_state := RTOS_TASK_RUNNING\<rparr>,
       1 := zero_task\<lparr>next_task := Some 2, priority := 2, task_state := RTOS_TASK_BLOCKED,
         wait_type := RTOS_WAIT_QUEUE\<rparr>,
       2 := zero_task\<lparr>next_task := Some 0\<rparr>)\<rparr>"

theorem prompt_handoff_witness:
  "\<exists>k1 k2 k3 k4. rtos_queue_send 0x20001000 7 [] sample_handoff_kernel = Some (0, k1) \<and>
     pendsv_exception k1 = Some (Inr k2) \<and> current_task k2 = Some 1 \<and>
     queue_recv_resume 0x20001000 1 k2 = Some (None, k3) \<and>
     queue_recv_loop 0x20001000 0x20003000 0 [] k3 = Some (RTOS_OK, k4) \<and> ram k4 0x20003000 = 7"
proof -
  let ?k = sample_handoff_kernel
  have q: "queues ?k = queues sample_queue_kernel" by (simp add: sample_handoff_kernel_def)
  have "task_ring ?k [0, 1, 2]"
    by (auto simp: task_ring_def sample_handoff_kernel_def sample_queue_kernel_def)
  moreover have "stacks_aligned ?k"
    by (simp add: stacks_aligned_def sample_handoff_kernel_def sample_queue_kernel_def zero_kernel_def sample_image_def)
  ultimately have inv: "sys_inv 2 ?k"
    unfolding sys_inv_def
    by (auto simp: sample_handoff_kernel_def sample_queue_kernel_def zero_task_def split: if_splits)
  have qi: "queue_inv ?k 0x20001000 [1] []"
    using sample_queue_inv by (simp add: queue_inv_def q) (simp add: waitq_def sample_handoff_kernel_def zero_task_def sample_queue_kernel_def)
  have k: "scheduler_lock_count ?k = 0" "current_task ?k = Some 0"
    "q_count (queues ?k 0x20001000) < q_capacity (queues ?k 0x20001000)"
    "first_live (tasks ?k) [1] = Some 1" "1 < unat (task_count ?k)" "queue_messages ?k (queues ?k 0x20001000) = []"
    "\<forall>x < unat (task_count ?k). x \<noteq> 1 \<longrightarrow> task_state (tasks ?k x) \<in> {RTOS_TASK_READY, RTOS_TASK_RUNNING} \<longrightarrow>
      priority (tasks ?k x) < priority (tasks ?k 1)"
    "\<forall>i < unat (q_capacity (queues ?k 0x20001000)). (0x20003000 :: u32) \<noteq> slot (q_buffer (queues ?k 0x20001000)) i"
    by (auto simp: sample_handoff_kernel_def sample_queue_kernel_def zero_kernel_def zero_task_def live_def
        queue_messages_def slot_def less_2_cases_iff)
  have "(0x20001000 :: u32) \<noteq> 0" "(0x20003000 :: u32) \<noteq> 0" by simp_all
  from prompt_handoff[OF inv k(1,2) this qi k(3-5,7,8), of 7 0 "[]"] show ?thesis by (auto simp: k(6))
qed

end
