(* ===== verification/Board_Support.thy ===== *)
theory Board_Support
  imports Rtos_Prelude
begin

text \<open>
  The code around the kernel: reset and vector table (startup/startup\_stm32f4.c), the hard fault
  record (port/cortex\_m4/fault.c) and the board's LED (board/board.c). What lies outside the
  sources is a parameter: the addresses of the sections, which the linker chooses, the body of
  \<open>main\<close>, and the effect of a store to the bit set/reset register of the GPIO port.
\<close>

section \<open>The LED (board/board.c, board/stm32f446re.h)\<close>

definition LED_PIN :: nat where [simp]: "LED_PIN = 5"

text \<open>The registers of the clock controller and of GPIO port A that the board touches.\<close>

record gpio_state =
  RCC_AHB1ENR :: u32
  GPIOA_MODER :: u32
  GPIOA_OTYPER :: u32
  GPIOA_OSPEEDR :: u32
  GPIOA_PUPDR :: u32
  GPIOA_ODR :: u32

type_synonym bsrr_store = "u32 \<Rightarrow> gpio_state \<Rightarrow> gpio_state"

definition board_init :: "gpio_state \<Rightarrow> gpio_state" where
  "board_init g =
     (let g1 = g\<lparr>RCC_AHB1ENR := RCC_AHB1ENR g OR push_bit 0 1\<rparr>;
          g2 = g1\<lparr>GPIOA_MODER := GPIOA_MODER g1 AND NOT (push_bit (LED_PIN * 2) 3)\<rparr>;
          g3 = g2\<lparr>GPIOA_MODER := GPIOA_MODER g2 OR push_bit (LED_PIN * 2) 1\<rparr>;
          g4 = g3\<lparr>GPIOA_OTYPER := GPIOA_OTYPER g3 AND NOT (push_bit LED_PIN 1)\<rparr>;
          g5 = g4\<lparr>GPIOA_OSPEEDR := GPIOA_OSPEEDR g4 AND NOT (push_bit (LED_PIN * 2) 3)\<rparr>
      in g5\<lparr>GPIOA_PUPDR := GPIOA_PUPDR g5 AND NOT (push_bit (LED_PIN * 2) 3)\<rparr>)"

definition board_led_on :: "bsrr_store \<Rightarrow> gpio_state \<Rightarrow> gpio_state" where
  "board_led_on bsrr g = bsrr (push_bit LED_PIN 1) g"

definition board_led_off :: "bsrr_store \<Rightarrow> gpio_state \<Rightarrow> gpio_state" where
  "board_led_off bsrr g = bsrr (push_bit (LED_PIN + 16) 1) g"

definition board_led_toggle :: "bsrr_store \<Rightarrow> gpio_state \<Rightarrow> gpio_state" where
  "board_led_toggle bsrr g =
     (if GPIOA_ODR g AND push_bit LED_PIN 1 \<noteq> 0 then board_led_off bsrr g else board_led_on bsrr g)"

text \<open>The busy loop: the number of turns it takes, and the last value of its counter.\<close>

function board_delay :: "u32 \<Rightarrow> nat \<Rightarrow> nat \<times> u32" where
  "board_delay ticks turns =
     (if ticks = 0 then (turns, ticks - 1) else board_delay (ticks - 1) (Suc turns))"
  by auto

termination
  by (relation "measure (\<lambda>(ticks, turns). unat ticks)") (auto simp: unat_pred_u32 unat_gt_0)

declare board_delay.simps [simp del]

section \<open>The hard fault record (port/cortex\_m4/fault.c)\<close>

record rtos_fault_info =
  fi_active :: u32
  fi_exc_return :: u32
  fi_stack_pointer :: u32
  fi_r0 :: u32
  fi_r1 :: u32
  fi_r2 :: u32
  fi_r3 :: u32
  fi_r12 :: u32
  fi_lr :: u32
  fi_pc :: u32
  fi_xpsr :: u32
  fi_cfsr :: u32
  fi_hfsr :: u32
  fi_dfsr :: u32
  fi_afsr :: u32
  fi_bfar :: u32
  fi_mmfar :: u32

record scb_fault_registers =
  SCB_CFSR :: u32
  SCB_HFSR :: u32
  SCB_DFSR :: u32
  SCB_MMFAR :: u32
  SCB_BFAR :: u32
  SCB_AFSR :: u32

definition rtos_fault_clear :: "rtos_fault_info \<Rightarrow> rtos_fault_info" where
  "rtos_fault_clear i = i\<lparr>fi_active := 0\<rparr>"

text \<open>The record the handler leaves before it waits for ever; \<open>m\<close> is the memory, \<open>sp\<close> the stacked frame.\<close>

definition port_hardfault_handler_c ::
  "(u32 \<Rightarrow> u32) \<Rightarrow> scb_fault_registers \<Rightarrow> u32 \<Rightarrow> u32 \<Rightarrow> rtos_fault_info \<Rightarrow> rtos_fault_info" where
  "port_hardfault_handler_c m scb sp exc_return i =
     (let i1 = i\<lparr>fi_active := 1, fi_exc_return := exc_return, fi_stack_pointer := sp\<rparr>;
          i2 = (if sp \<noteq> 0
                then i1\<lparr>fi_r0 := m sp, fi_r1 := m (sp + 4), fi_r2 := m (sp + 8), fi_r3 := m (sp + 12),
                       fi_r12 := m (sp + 16), fi_lr := m (sp + 20), fi_pc := m (sp + 24),
                       fi_xpsr := m (sp + 28)\<rparr>
                else i1)
      in i2\<lparr>fi_cfsr := SCB_CFSR scb, fi_hfsr := SCB_HFSR scb, fi_dfsr := SCB_DFSR scb,
            fi_afsr := SCB_AFSR scb, fi_bfar := SCB_BFAR scb, fi_mmfar := SCB_MMFAR scb\<rparr>)"

section \<open>Reset (startup/startup\_stm32f4.c)\<close>

datatype exception_entry =
    Initial_Stack | Reset | NMI | HardFault | MemManage | BusFault | UsageFault | Reserved
  | SVCall | DebugMon | PendSV | SysTick

definition vector_table :: "exception_entry list" where
  "vector_table = [Initial_Stack, Reset, NMI, HardFault, MemManage, BusFault, UsageFault, Reserved,
     Reserved, Reserved, Reserved, SVCall, DebugMon, Reserved, PendSV, SysTick]"

record sections =
  sec_etext :: u32
  sec_sdata :: u32
  sec_edata :: u32
  sec_sbss :: u32
  sec_ebss :: u32

text \<open>The two loops compare addresses; they would not end if the end address were passed over.\<close>

partial_function (option) copy_data :: "u32 \<Rightarrow> u32 \<Rightarrow> u32 \<Rightarrow> (u32 \<Rightarrow> u32) \<Rightarrow> (u32 \<Rightarrow> u32) option" where
  "copy_data edata src dst m =
     (if dst < edata then copy_data edata (src + 4) (dst + 4) (m(dst := m src)) else Some m)"

partial_function (option) zero_bss :: "u32 \<Rightarrow> u32 \<Rightarrow> (u32 \<Rightarrow> u32) \<Rightarrow> (u32 \<Rightarrow> u32) option" where
  "zero_bss ebss dst m =
     (if dst < ebss then zero_bss ebss (dst + 4) (m(dst := 0)) else Some m)"

text \<open>What \<open>main\<close> makes of the memory it starts with; it is followed by an endless loop.\<close>

definition Reset_Handler :: "sections \<Rightarrow> ((u32 \<Rightarrow> u32) \<Rightarrow> 's option) \<Rightarrow> (u32 \<Rightarrow> u32) \<Rightarrow> 's option" where
  "Reset_Handler s main m = do {
     m1 \<leftarrow> copy_data (sec_edata s) (sec_etext s) (sec_sdata s) m;
     m2 \<leftarrow> zero_bss (sec_ebss s) (sec_sbss s) m1;
     main m2
   }"

section \<open>The two loops of the reset handler\<close>

lemma unat_add_4: "unat (a::u32) + 4 \<le> unat (b::u32) \<Longrightarrow> unat (a + 4) = unat a + 4"
  using u32_less_max[of b] by (simp add: unat_word_ariths)

lemma word_offset: "a + 4 + 4 * of_nat i = a + 4 * of_nat (Suc i)" for a :: u32
  by simp

lemma offset_neq: "unat (a::u32) + 4 * n < 2 ^ 32 \<Longrightarrow> i < n \<Longrightarrow> 0 < i \<Longrightarrow> a + 4 * of_nat i \<noteq> a"
proof
  assume a: "unat a + 4 * n < 2 ^ 32" "i < n" "0 < i" "a + 4 * of_nat i = a"
  then have "(of_nat (4 * i) :: u32) = 0" by simp
  then have "unat (of_nat (4 * i) :: u32) = 0" by (simp only: unat_0)
  with a show False by (simp add: unat_of_nat del: of_nat_mult)
qed

text \<open>\<open>stored m dst n f m'\<close>: \<open>m'\<close> is \<open>m\<close> with the \<open>n\<close> words from \<open>dst\<close> on set to the values of \<open>f\<close>.\<close>

definition stored :: "(u32 \<Rightarrow> u32) \<Rightarrow> u32 \<Rightarrow> nat \<Rightarrow> (nat \<Rightarrow> u32) \<Rightarrow> (u32 \<Rightarrow> u32) \<Rightarrow> bool" where
  "stored m dst n f m' \<longleftrightarrow> (\<forall>i < n. m' (dst + 4 * of_nat i) = f i) \<and>
     (\<forall>a. (\<forall>i < n. a \<noteq> dst + 4 * of_nat i) \<longrightarrow> m' a = m a)"

lemma stored_0 [simp]: "stored m dst 0 f m' \<longleftrightarrow> m' = m"
  by (auto simp: stored_def)

lemma stored_Suc:
  assumes "stored (m(dst := f 0)) (dst + 4) n (\<lambda>i. f (Suc i)) m'" and "unat dst + 4 * Suc n < 2 ^ 32"
  shows "stored m dst (Suc n) f m'"
proof -
  note tail = assms(1)[unfolded stored_def word_offset]
  have keep: "dst \<noteq> dst + 4 * of_nat (Suc i)" if "i < n" for i
    using offset_neq[OF assms(2), of "Suc i"] that by (metis Suc_less_eq zero_less_Suc)
  have "m' (dst + 4 * of_nat i) = f i" if "i < Suc n" for i
  proof (cases i)
    case 0
    have "m' dst = (m(dst := f 0)) dst" using tail keep by blast
    then show ?thesis by (simp add: 0)
  next
    case (Suc j)
    with that tail show ?thesis by blast
  qed
  moreover have "m' a = m a" if "\<forall>i < Suc n. a \<noteq> dst + 4 * of_nat i" for a
  proof -
    have "a \<noteq> dst" using that by (auto dest: spec[of _ 0])
    moreover have "m' a = (m(dst := f 0)) a" using tail that by (meson Suc_mono)
    ultimately show ?thesis by simp
  qed
  ultimately show ?thesis unfolding stored_def by blast
qed

lemma copy_data_loop:
  "unat dst + 4 * n = unat edata \<Longrightarrow> unat src + 4 * n \<le> unat dst \<Longrightarrow>
     \<exists>m'. copy_data edata src dst m = Some m' \<and> stored m dst n (\<lambda>i. m (src + 4 * of_nat i)) m'"
proof (induction n arbitrary: src dst m)
  case 0
  then have "\<not> dst < edata" by (simp add: word_less_nat_alt)
  then show ?case by (subst copy_data.simps) simp
next
  case (Suc n)
  have d: "unat (dst + 4) = unat dst + 4" using Suc.prems(1) by (intro unat_add_4[of _ edata]) simp
  have s: "unat (src + 4) = unat src + 4" using Suc.prems by (intro unat_add_4[of _ edata]) simp
  have lt: "dst < edata" using Suc.prems(1) by (simp add: word_less_nat_alt)
  have apart: "src + 4 + 4 * of_nat i \<noteq> dst" if "i < n" for i
  proof -
    have "unat (of_nat (4 * i) :: u32) = 4 * i"
      using that Suc.prems u32_less_max[of dst] by (simp add: unat_of_nat del: of_nat_mult)
    then have "unat (src + 4 + 4 * of_nat i) = unat src + 4 + 4 * i"
      using that Suc.prems u32_less_max[of dst] s by (simp add: unat_word_ariths(1))
    then show ?thesis using that Suc.prems by auto
  qed
  have "unat (dst + 4) + 4 * n = unat edata" "unat (src + 4) + 4 * n \<le> unat (dst + 4)"
    using Suc.prems d s by simp_all
  from Suc.IH[OF this, of "m(dst := m src)"] obtain m' where
    m': "copy_data edata (src + 4) (dst + 4) (m(dst := m src)) = Some m'"
    "stored (m(dst := m src)) (dst + 4) n (\<lambda>i. (m(dst := m src)) (src + 4 + 4 * of_nat i)) m'" by blast
  then have "stored (m(dst := m src)) (dst + 4) n (\<lambda>i. m (src + 4 * of_nat (Suc i))) m'"
    using apart unfolding stored_def word_offset by simp
  then have "stored m dst (Suc n) (\<lambda>i. m (src + 4 * of_nat i)) m'"
    using Suc.prems(1) u32_less_max[of edata] by (intro stored_Suc) simp_all
  with m'(1) lt show ?case by (subst copy_data.simps) simp
qed

lemma zero_bss_loop:
  "unat dst + 4 * n = unat ebss \<Longrightarrow> \<exists>m'. zero_bss ebss dst m = Some m' \<and> stored m dst n (\<lambda>_. 0) m'"
proof (induction n arbitrary: dst m)
  case 0
  then have "\<not> dst < ebss" by (simp add: word_less_nat_alt)
  then show ?case by (subst zero_bss.simps) simp
next
  case (Suc n)
  have "unat (dst + 4) = unat dst + 4" using Suc.prems by (intro unat_add_4[of _ ebss]) simp
  then have "unat (dst + 4) + 4 * n = unat ebss" using Suc.prems by simp
  from Suc.IH[OF this, of "m(dst := 0)"] obtain m' where
    m': "zero_bss ebss (dst + 4) (m(dst := 0)) = Some m'" "stored (m(dst := 0)) (dst + 4) n (\<lambda>_. 0) m'" by blast
  from m'(2) have "stored m dst (Suc n) (\<lambda>_. 0) m'"
    using Suc.prems u32_less_max[of ebss] by (intro stored_Suc) simp_all
  moreover have "dst < ebss" using Suc.prems by (simp add: word_less_nat_alt)
  ultimately show ?case using m'(1) by (subst zero_bss.simps) simp
qed

section \<open>Properties\<close>

text \<open>
  The linker script places the sections word aligned, the initial values of the data in flash below
  the RAM, and .bss behind .data: \<open>nd\<close> and \<open>nb\<close> are their lengths in words.
\<close>

definition laid_out :: "sections \<Rightarrow> nat \<Rightarrow> nat \<Rightarrow> bool" where
  "laid_out s nd nb \<longleftrightarrow> unat (sec_sdata s) + 4 * nd = unat (sec_edata s) \<and>
     unat (sec_sbss s) + 4 * nb = unat (sec_ebss s) \<and> sec_edata s \<le> sec_sbss s \<and>
     unat (sec_etext s) + 4 * nd \<le> unat (sec_sdata s)"

text \<open>
  C39. Reset prepares the memory a C program expects: both loops end, and \<open>main\<close> starts with .data
  holding its initial values from flash, .bss all zero, and every other word as it was.
\<close>

theorem reset_prepares_memory:
  assumes "laid_out s nd nb"
  shows "\<exists>m'. Reset_Handler s main m = main m' \<and>
    (\<forall>i < nd. m' (sec_sdata s + 4 * of_nat i) = m (sec_etext s + 4 * of_nat i)) \<and>
    (\<forall>i < nb. m' (sec_sbss s + 4 * of_nat i) = 0) \<and>
    (\<forall>a. (\<forall>i < nd. a \<noteq> sec_sdata s + 4 * of_nat i) \<longrightarrow> (\<forall>i < nb. a \<noteq> sec_sbss s + 4 * of_nat i) \<longrightarrow> m' a = m a)"
proof -
  have l: "unat (sec_sdata s) + 4 * nd = unat (sec_edata s)" "unat (sec_sbss s) + 4 * nb = unat (sec_ebss s)"
    "unat (sec_edata s) \<le> unat (sec_sbss s)" "unat (sec_etext s) + 4 * nd \<le> unat (sec_sdata s)"
    using assms by (simp_all add: laid_out_def word_le_nat_alt)
  obtain m1 where m1: "copy_data (sec_edata s) (sec_etext s) (sec_sdata s) m = Some m1"
    "stored m (sec_sdata s) nd (\<lambda>i. m (sec_etext s + 4 * of_nat i)) m1" using copy_data_loop[OF l(1,4)] by blast
  obtain m2 where m2: "zero_bss (sec_ebss s) (sec_sbss s) m1 = Some m2" "stored m1 (sec_sbss s) nb (\<lambda>_. 0) m2"
    using zero_bss_loop[OF l(2)] by blast
  have off: "unat (a + 4 * of_nat i) = unat a + 4 * i" if "unat a + 4 * n = unat b" "i < n" for a b :: u32 and i n
  proof -
    have "unat (of_nat (4 * i) :: u32) = 4 * i"
      using that u32_less_max[of b] by (simp add: unat_of_nat del: of_nat_mult)
    then show ?thesis using that u32_less_max[of b] by (simp add: unat_word_ariths(1))
  qed
  have "sec_sdata s + 4 * of_nat i \<noteq> sec_sbss s + 4 * of_nat j" if "i < nd" "j < nb" for i j
    using off[OF l(1) that(1)] off[OF l(2) that(2)] l that by auto
  then have "m2 (sec_sdata s + 4 * of_nat i) = m (sec_etext s + 4 * of_nat i)" if "i < nd" for i
    using m1(2) m2(2) that unfolding stored_def by metis
  moreover have "Reset_Handler s main m = main m2" by (simp add: Reset_Handler_def m1(1) m2(1))
  ultimately show ?thesis using m1(2) m2(2) unfolding stored_def by (intro exI[of _ m2]) simp
qed

theorem reset_prepares_memory_witness:
  "\<exists>m'. Reset_Handler \<lparr>sec_etext = 0x08004000, sec_sdata = 0x20000000, sec_edata = 0x20000008,
       sec_sbss = 0x20000008, sec_ebss = 0x20000010\<rparr> Some (\<lambda>a. a + 1) = Some m' \<and>
     m' 0x20000004 = 0x08004005 \<and> m' 0x2000000C = 0"
proof -
  let ?s = "\<lparr>sec_etext = 0x08004000, sec_sdata = 0x20000000, sec_edata = 0x20000008,
       sec_sbss = 0x20000008, sec_ebss = 0x20000010\<rparr>"
  have "laid_out ?s 2 2" by (simp add: laid_out_def)
  from reset_prepares_memory[OF this, of Some "\<lambda>a. a + 1"] obtain m' where
    "Reset_Handler ?s Some (\<lambda>a. a + 1) = Some m'"
    "\<forall>i < 2. m' (0x20000000 + 4 * of_nat i) = 0x08004000 + 4 * of_nat i + 1"
    "\<forall>i < 2. m' (0x20000008 + 4 * of_nat i) = 0" by auto
  then show ?thesis by (auto dest: spec[of _ 1])
qed

text \<open>
  The reference manual's rule for a store to GPIOx\_BSRR: the upper half resets output bits, the
  lower half sets them.
\<close>

definition bsrr_rule :: "bsrr_store \<Rightarrow> bool" where
  "bsrr_rule bsrr \<longleftrightarrow> (\<forall>v g. bsrr v g =
     g\<lparr>GPIOA_ODR := (GPIOA_ODR g AND NOT (drop_bit 16 v)) OR (v AND 0xFFFF)\<rparr>)"


definition led_bit :: u32 where
  "led_bit = push_bit LED_PIN 1"

lemma bit_led: "bit led_bit n \<longleftrightarrow> n = 5"
  unfolding led_bit_def bit_push_bit_iff bit_1_iff by auto

lemma led_masks:
  "drop_bit 16 led_bit = 0" "led_bit AND 0xFFFF = led_bit"
  "drop_bit 16 (push_bit (LED_PIN + 16) (1::u32)) = led_bit"
  "push_bit (LED_PIN + 16) (1::u32) AND 0xFFFF = 0"
  by (simp_all add: led_bit_def push_bit_eq_mult drop_bit_eq_div)

lemma led_odr:
  assumes "bsrr_rule bsrr"
  shows "board_led_on bsrr g = g\<lparr>GPIOA_ODR := GPIOA_ODR g OR led_bit\<rparr>"
    "board_led_off bsrr g = g\<lparr>GPIOA_ODR := GPIOA_ODR g AND NOT led_bit\<rparr>"
  using assms unfolding board_led_on_def board_led_off_def bsrr_rule_def led_bit_def[symmetric]
  by (simp_all only: led_masks) simp_all

lemma and_led: "x AND led_bit = (if bit x 5 then led_bit else 0)"
  by (rule bit_word_eqI) (auto simp: bit_and_iff bit_led)

lemma led_bit_nonzero: "led_bit \<noteq> 0"
  using bit_led[of 5] by auto

lemma toggle_odr:
  assumes "bsrr_rule bsrr"
  shows "board_led_toggle bsrr g = g\<lparr>GPIOA_ODR := GPIOA_ODR g XOR led_bit\<rparr>"
proof -
  have "GPIOA_ODR g AND NOT led_bit = GPIOA_ODR g XOR led_bit" if "bit (GPIOA_ODR g) 5"
    using that by (intro bit_word_eqI) (auto simp: bit_and_iff bit_xor_iff bit_not_iff bit_led)
  moreover have "GPIOA_ODR g OR led_bit = GPIOA_ODR g XOR led_bit" if "\<not> bit (GPIOA_ODR g) 5"
    using that by (intro bit_word_eqI) (auto simp: bit_or_iff bit_xor_iff bit_led)
  ultimately show ?thesis
    unfolding board_led_toggle_def led_bit_def[symmetric] and_led led_odr[OF assms]
    using led_bit_nonzero by simp
qed

text \<open>
  The LED follows its commands. Under the store rule of the port, on sets the LED's output bit,
  off resets it, and toggling inverts it; no other output bit and no other register changes, and
  toggling twice restores the port exactly.
\<close>

lemma led_toggle_roundtrip:
  assumes "bsrr_rule bsrr"
  shows "bit (GPIOA_ODR (board_led_on bsrr g)) n = (bit (GPIOA_ODR g) n \<or> n = LED_PIN) \<and>
    bit (GPIOA_ODR (board_led_off bsrr g)) n = (bit (GPIOA_ODR g) n \<and> n \<noteq> LED_PIN) \<and>
    bit (GPIOA_ODR (board_led_toggle bsrr g)) n = (bit (GPIOA_ODR g) n \<noteq> (n = LED_PIN)) \<and>
    GPIOA_MODER (board_led_toggle bsrr g) = GPIOA_MODER g \<and>
    board_led_toggle bsrr (board_led_toggle bsrr g) = g"
proof -
  have "(GPIOA_ODR g XOR led_bit) XOR led_bit = GPIOA_ODR g"
    by (rule bit_word_eqI) (auto simp: bit_xor_iff)
  then show ?thesis
    unfolding led_odr[OF assms] toggle_odr[OF assms] using bit_imp_le_length[of "GPIOA_ODR g" n]
    by (auto simp: bit_and_iff bit_or_iff bit_xor_iff bit_not_iff bit_led)
qed

lemma led_toggle_roundtrip_example:
  "let bsrr = (\<lambda>v g. g\<lparr>GPIOA_ODR := (GPIOA_ODR g AND NOT (drop_bit 16 v)) OR (v AND 0xFFFF)\<rparr>);
       g = \<lparr>RCC_AHB1ENR = 0, GPIOA_MODER = 0, GPIOA_OTYPER = 0, GPIOA_OSPEEDR = 0, GPIOA_PUPDR = 0, GPIOA_ODR = 1\<rparr>
   in bit (GPIOA_ODR (board_led_toggle bsrr g)) 5 \<and> board_led_toggle bsrr (board_led_toggle bsrr g) = g"
proof -
  let ?bsrr = "\<lambda>v g. g\<lparr>GPIOA_ODR := (GPIOA_ODR g AND NOT (drop_bit 16 v)) OR (v AND 0xFFFF)\<rparr>"
  have "bsrr_rule ?bsrr" by (simp add: bsrr_rule_def)
  from led_toggle_roundtrip[OF this, of _ 5] show ?thesis by (simp add: Let_def bit_1_iff)
qed

end
