(* ===== verification/Demo_App.thy ===== *)
theory Demo_App
  imports Kernel_Steps Board_Support
begin

text \<open>
  The demo application (app/main.c): the callbacks and task bodies that exercise every kernel
  object, and \<open>main\<close>, which initialises the objects, creates five tasks and starts the kernel. Its
  variables are words of \<open>ram\<close>, at addresses the linker chooses; a task body is modelled turn by
  turn of its endless loop, with a suspension for each blocking call.
\<close>

section \<open>Variables and objects\<close>

record app_image =
  app_task1_count :: u32
  app_task2_count :: u32
  app_priority_boost_count :: u32
  app_timeout_count :: u32
  app_timer_count :: u32
  app_event_count :: u32
  app_pool_count :: u32
  app_exit_count :: u32
  app_reuse_count :: u32
  app_sched_lock_count :: u32
  app_isr_sem_count :: u32
  app_idle_hook_count :: u32
  app_notify_count :: u32
  app_deferred_count :: u32
  led_queue :: u32
  led_queue_storage :: u32
  app_mutex :: u32
  timeout_sem :: u32
  isr_sem :: u32
  demo_timer :: u32
  demo_events :: u32
  demo_pool :: u32
  demo_pool_storage :: u32
  timeout_task_handle :: u32
  reuse_created :: u32
  addr_idle_hook :: u32
  addr_deferred_callback :: u32
  addr_producer_task :: u32
  addr_consumer_task :: u32
  addr_timeout_task :: u32
  addr_timer_callback :: u32
  addr_one_shot_task :: u32

text \<open>\<open>v++\<close> for a variable in memory, and the task a stored task pointer points to.\<close>

definition incr :: "u32 \<Rightarrow> kernel \<Rightarrow> kernel" where
  "incr v k = k\<lparr>ram := (ram k)(v := ram k v + 1)\<rparr>"

definition task_of_word :: "link_image \<Rightarrow> u32 \<Rightarrow> nat option" where
  "task_of_word im w = (if w = 0 then None else Some (unat ((w - tasks_base im) div 84)))"

section \<open>Callbacks\<close>

definition idle_hook_fun :: "app_image \<Rightarrow> u32 \<Rightarrow> kernel \<Rightarrow> kernel" where
  "idle_hook_fun im arg k = incr (app_idle_hook_count im) k"

definition deferred_callback :: "app_image \<Rightarrow> u32 \<Rightarrow> kernel \<Rightarrow> kernel" where
  "deferred_callback im arg k = incr (app_deferred_count im) k"

definition timer_callback :: "app_image \<Rightarrow> u32 \<Rightarrow> kernel \<Rightarrow> kernel option" where
  "timer_callback im arg k = do {
     let k1 = incr (app_timer_count im) k;
     if rtos_in_isr k1 \<noteq> 0 then do {
       (_, k2) \<leftarrow> rtos_event_flags_set_isr (demo_events im) 1 k1;
       (_, k3) \<leftarrow> rtos_sem_post_isr (isr_sem im) k2;
       let k4 = snd (rtos_task_notify_isr (task_of_word (linked_at k3) (ram k3 (timeout_task_handle im))) 1 k3);
       Some (snd (rtos_work_submit_isr (addr_deferred_callback im) 0 k4))
     }
     else Some k1
   }"

text \<open>The functions the kernel reaches through pointers.\<close>

definition app_call :: "app_image \<Rightarrow> callbacks" where
  "app_call im f a k =
     (if f = addr_timer_callback im then timer_callback im a k
      else if f = addr_idle_hook im then Some (idle_hook_fun im a k)
      else if f = addr_deferred_callback im then Some (deferred_callback im a k)
      else None)"

section \<open>Task bodies\<close>

text \<open>The one-shot task runs to its end, which is the exit of the task.\<close>

definition one_shot_task :: "app_image \<Rightarrow> u32 \<Rightarrow> kernel \<Rightarrow> kernel option" where
  "one_shot_task im arg k =
     rtos_task_exit (if ram k (app_exit_count im) = 0 then incr (app_exit_count im) k
                     else incr (app_reuse_count im) k)"

text \<open>
  One turn of the producer, whose local variable is \<open>message\<close>. The suspensions are those of the two
  locks, of the send, and of the sleep at the end.
\<close>

definition producer_turn ::
  "app_image \<Rightarrow> suspension list \<Rightarrow> suspension list \<Rightarrow> suspension list \<Rightarrow> suspension \<Rightarrow> u32 \<Rightarrow> kernel \<Rightarrow>
     (u32 \<times> kernel) option" where
  "producer_turn im lock1 lock2 send suspend message k = do {
     (_, k1) \<leftarrow> rtos_mutex_lock (app_mutex im) lock1 k;
     (_, k2) \<leftarrow> rtos_mutex_lock (app_mutex im) lock2 k1;
     let k3 = incr (app_task1_count im) k2;
     (_, k4) \<leftarrow> rtos_queue_send (led_queue im) message send k3;
     p \<leftarrow> rtos_current_priority k4;
     b \<leftarrow> rtos_current_base_priority k4;
     let k5 = (if b < p then incr (app_priority_boost_count im) k4 else k4);
     (_, k6) \<leftarrow> rtos_mutex_unlock (app_mutex im) k5;
     (_, k7) \<leftarrow> rtos_mutex_unlock (app_mutex im) k6;
     k8 \<leftarrow> rtos_sleep 250 k7;
     k9 \<leftarrow> suspend k8;
     Some (message + 1, k9)
   }"

text \<open>One turn of the consumer; \<open>message\<close> is the address of its local variable.\<close>

definition consumer_turn ::
  "app_image \<Rightarrow> bsrr_store \<Rightarrow> suspension list \<Rightarrow> suspension list \<Rightarrow> suspension list \<Rightarrow> u32 \<Rightarrow>
     gpio_state \<times> kernel \<Rightarrow> (gpio_state \<times> kernel) option" where
  "consumer_turn im bsrr recv lock1 lock2 message s = do {
     (_, k1) \<leftarrow> rtos_queue_recv (led_queue im) message recv (snd s);
     (_, k2) \<leftarrow> rtos_mutex_lock (app_mutex im) lock1 k1;
     (_, k3) \<leftarrow> rtos_mutex_lock (app_mutex im) lock2 k2;
     let g1 = board_led_toggle bsrr (fst s);
     let k4 = incr (app_task2_count im) k3;
     (_, k5) \<leftarrow> rtos_mutex_unlock (app_mutex im) k4;
     (_, k6) \<leftarrow> rtos_mutex_unlock (app_mutex im) k5;
     Some (g1, k6)
   }"

text \<open>
  One turn of the timeout task. The notification's value goes to a local variable; a task that
  cannot be created because an assertion fails parks the system (\<open>Inl\<close>).
\<close>

definition timeout_turn ::
  "app_image \<Rightarrow> suspension \<Rightarrow> suspension \<Rightarrow> suspension list \<Rightarrow> suspension \<Rightarrow> suspension \<Rightarrow> suspension \<Rightarrow>
     suspension \<Rightarrow> kernel \<Rightarrow> (kernel + kernel) option" where
  "timeout_turn im sem event pool isem notify relock suspend k = do {
     let k1 = (if ram k (timeout_task_handle im) = 0
               then k\<lparr>ram := (ram k)(timeout_task_handle im := task_word (linked_at k) (rtos_task_self k))\<rparr> else k);
     (r, k2) \<leftarrow> rtos_sem_wait_timeout (timeout_sem im) 100 sem k1;
     let k3 = (if r = RTOS_ERR_TIMEOUT then incr (app_timeout_count im) k2 else k2);
     ((r, _), k4) \<leftarrow> rtos_event_flags_wait (demo_events im) 1 0 1 1000 event k3;
     let k5 = (if r = RTOS_OK then incr (app_event_count im) k4 else k4);
     (block, k6) \<leftarrow> rtos_mempool_alloc_timeout (demo_pool im) 10 pool k5;
     k7 \<leftarrow> (if block \<noteq> 0 then map_option snd (rtos_mempool_free (demo_pool im) block (incr (app_pool_count im) k6))
           else Some k6);
     (r, k8) \<leftarrow> rtos_sem_wait_timeout (isr_sem im) 0 isem k7;
     let k9 = (if r = RTOS_OK then incr (app_isr_sem_count im) k8 else k8);
     ((r, v), k10) \<leftarrow> rtos_task_notify_wait 0 0xFFFFFFFF 1000 notify k9;
     let k11 = (if r = RTOS_OK \<and> the v AND 1 \<noteq> 0 then incr (app_notify_count im) k10 else k10);
     made \<leftarrow> (if ram k11 (app_exit_count im) \<noteq> 0 \<and> ram k11 (reuse_created im) = 0
              then rtos_task_create_named (addr_one_shot_task im) 0 1 (Some ''reuse'') k11
              else Some (Inr (-1, k11)));
     case made of
       Inl parked \<Rightarrow> Some (Inl parked)
     | Inr (r, k12) \<Rightarrow> do {
         let k13 = (if r = RTOS_OK then k12\<lparr>ram := (ram k12)(reuse_created im := 1)\<rparr> else k12);
         k14 \<leftarrow> relock (rtos_yield (rtos_sched_lock k13));
         let k15 = rtos_sched_unlock (incr (app_sched_lock_count im) k14);
         k16 \<leftarrow> rtos_sleep 50 k15;
         k17 \<leftarrow> suspend k16;
         Some (Inr k17)
       }
   }"

section \<open>main\<close>

text \<open>Going on after a call that creates a task, unless an assertion has parked the system.\<close>

definition and_then ::
  "(kernel + int \<times> kernel) option \<Rightarrow> (kernel \<Rightarrow> (kernel + 'a) option) \<Rightarrow> (kernel + 'a) option" where
  "and_then r f = (case r of None \<Rightarrow> None | Some (Inl parked) \<Rightarrow> Some (Inl parked) | Some (Inr (_, k)) \<Rightarrow> f k)"

definition init_objects :: "app_image \<Rightarrow> kernel \<Rightarrow> kernel" where
  "init_objects im k =
     (let k = snd (rtos_queue_init (led_queue im) (led_queue_storage im) 4 k);
          k = snd (rtos_mutex_init (app_mutex im) k);
          k = snd (rtos_sem_init (timeout_sem im) 0 1 k);
          k = snd (rtos_sem_init (isr_sem im) 0 1 k);
          k = snd (rtos_event_flags_init (demo_events im) k);
          k = snd (rtos_mempool_init (demo_pool im) (demo_pool_storage im) 16 4 k);
          k = snd (rtos_timer_init (demo_timer im) 500 1 (addr_timer_callback im) 0 k);
          k = snd (rtos_object_set_name (led_queue im) (Some ''led_queue'') k);
          k = snd (rtos_object_set_name (app_mutex im) (Some ''app_mutex'') k);
          k = snd (rtos_object_set_name (timeout_sem im) (Some ''timeout_sem'') k);
          k = snd (rtos_object_set_name (isr_sem im) (Some ''isr_sem'') k);
          k = snd (rtos_object_set_name (demo_events im) (Some ''demo_events'') k);
          k = snd (rtos_object_set_name (demo_pool im) (Some ''demo_pool'') k);
          k = snd (rtos_object_set_name (demo_timer im) (Some ''demo_timer'') k)
      in snd (rtos_idle_set_hook (addr_idle_hook im) 0 k))"

text \<open>The endless loop of \<open>main\<close> is reached only if rtos\_start returns.\<close>

definition main :: "app_image \<Rightarrow> gpio_state \<times> kernel \<Rightarrow> gpio_state \<times> (kernel + start_outcome) option" where
  "main im s =
     (board_init (fst s),
      let k = init_objects im (snd s) in
      and_then (rtos_work_init k) (\<lambda>k.
      let k = snd (rtos_timer_start (demo_timer im) k) in
      and_then (rtos_task_create_named (addr_producer_task im) 0 1 (Some ''producer'') k) (\<lambda>k.
      and_then (rtos_task_create_named (addr_consumer_task im) 0 2 (Some ''consumer'') k) (\<lambda>k.
      and_then (rtos_task_create_named (addr_timeout_task im) 0 1 (Some ''timeout'') k) (\<lambda>k.
      and_then (rtos_task_create_named (addr_one_shot_task im) 0 1 (Some ''one-shot'') k) rtos_start)))))"

section \<open>Booting\<close>

text \<open>The state of the tasks while \<open>main\<close> runs: a ring of \<open>n\<close> tasks, all ready.\<close>

definition booting :: "link_image \<Rightarrow> nat \<Rightarrow> kernel \<Rightarrow> bool" where
  "booting li n k \<longleftrightarrow> linked_at k = li \<and> unat (task_count k) = n \<and>
     (\<exists>xs. task_ring k xs \<and> (xs = [] \<or> hd xs = 0) \<and> (\<forall>x \<in> set xs. task_state (tasks k x) = RTOS_TASK_READY))"

lemma booting_effect:
  assumes "booting li n k" and "effect {} k k'"
  shows "booting li n k'"
proof -
  have e: "linked_at k' = linked_at k" "current_task k' = current_task k" "task_count k' = task_count k"
    "stirs {} (pendsv_pending (port k')) (tasks k) (tasks k')" using assms(2) by (simp_all add: effect_def)
  have ring: "task_ring k' xs = task_ring k xs" for xs
    using e(4) by (intro task_ring_cong) (simp_all add: e stirs_def)
  obtain xs where xs: "task_ring k xs" "\<forall>x \<in> set xs. task_state (tasks k x) = RTOS_TASK_READY"
    "xs = [] \<or> hd xs = 0"
    using assms(1) unfolding booting_def by blast
  have "task_state (tasks k' x) = RTOS_TASK_READY" if "x \<in> set xs" for x
  proof -
    have "task_state (tasks k x) = RTOS_TASK_READY" using xs(2) that by blast
    moreover have "task_state (tasks k' x) = task_state (tasks k x) \<or>
        task_state (tasks k x) = RTOS_TASK_BLOCKED \<and> task_state (tasks k' x) = RTOS_TASK_READY"
      using e(4) unfolding stirs_def by blast
    ultimately show ?thesis by auto
  qed
  with xs(1,3) ring assms(1) e(1,3) show ?thesis unfolding booting_def by auto
qed

lemma set_ring_insert: "set (ring_insert n xs) = insert n (set xs)"
  by (cases xs) auto

lemma booting_create:
  assumes "booting li n k" and "n < 6" and "entry \<noteq> 0" and "stacks_aligned k"
  shows "\<exists>k'. rtos_task_create_named_handle entry arg prio nm k = Some (Inr (0, Some n, k')) \<and> booting li (Suc n) k'"
proof -
  obtain xs where xs: "task_ring k xs" "\<forall>x \<in> set xs. task_state (tasks k x) = RTOS_TASK_READY"
    and n: "unat (task_count k) = n" and li: "linked_at k = li" and hd: "xs = [] \<or> hd xs = 0"
    using assms(1) unfolding booting_def by blast
  have lt: "task_count k < RTOS_MAX_TASKS" using n assms(2) by (simp add: word_less_nat_alt)
  have free: "free_slot k = Some n" using lt n by (simp add: free_slot_def)
  from task_create_props[OF xs(1) assms(3,4), of arg prio nm] obtain k' where
    k': "rtos_task_create_named_handle entry arg prio nm k = Some (Inr (0, Some n, k'))"
    "task_ring k' (ring_insert n xs)" "created entry arg prio nm n k k'"
    "\<forall>x. x \<noteq> n \<longrightarrow> tasks k' x = (tasks k x)\<lparr>next_task := next_task (tasks k' x)\<rparr>"
    using lt by (auto simp: free simp del: ring_insert.simps)
  have mem: "set (ring_insert n xs) = {..<unat (task_count k')}" "set xs = {..<n}"
    using k'(2) xs(1) n unfolding task_ring_def by blast+
  then have cnt: "{..<unat (task_count k')} = {..<Suc n}" by (simp add: set_ring_insert lessThan_Suc)
  then have cnt: "unat (task_count k') = Suc n" by (metis lessThan_eq_iff)
  have "task_state (tasks k' x) = RTOS_TASK_READY" if "x \<in> set (ring_insert n xs)" for x
  proof (cases "x = n")
    case True
    then show ?thesis using k'(3) by (auto simp: created_def fresh_task_def)
  next
    case False
    then have "tasks k' x = (tasks k x)\<lparr>next_task := next_task (tasks k' x)\<rparr>" using k'(4) by blast
    then have "task_state (tasks k' x) = task_state ((tasks k x)\<lparr>next_task := next_task (tasks k' x)\<rparr>)" by (rule arg_cong)
    then show ?thesis using xs(2) that False by (simp add: set_ring_insert)
  qed
  moreover have "linked_at k' = li" using k'(3) li by (simp add: created_def)
  moreover have "hd (ring_insert n xs) = 0"
  proof (cases xs)
    case Nil
    then have "n = 0" using mem(2) by (metis list.set(1) lessThan_empty_iff)
    then show ?thesis using Nil by simp
  next
    case Cons
    then show ?thesis using hd by simp
  qed
  ultimately show ?thesis using k'(1,2) cnt unfolding booting_def by blast
qed

lemma booting_aligned: "booting li n k \<Longrightarrow> unat (stacks_base li) mod 8 = 0 \<Longrightarrow> stacks_aligned k"
  by (auto simp: booting_def stacks_aligned_def)

lemma booting_named:
  assumes "booting li n k" and "n < 6" and "entry \<noteq> 0" and "unat (stacks_base li) mod 8 = 0"
  shows "\<exists>k'. (\<forall>f. and_then (rtos_task_create_named entry arg prio nm k) f = f k') \<and> booting li (Suc n) k'"
proof -
  from booting_create[OF assms(1-3) booting_aligned[OF assms(1,4)], of arg prio nm] obtain k' where
    "rtos_task_create_named_handle entry arg prio nm k = Some (Inr (0, Some n, k'))" "booting li (Suc n) k'" by blast
  then show ?thesis by (auto simp: and_then_def rtos_task_create_named_def)
qed

lemma object_register_effect: "effect S k (snd (rtos_object_register p t k))"
  by (simp add: rtos_object_register_def rtos_object_register_named_def update_snapshots_locked_def effect_def Let_def
      split: sum.split option.split prod.splits)

lemma object_name_effect: "effect S k (snd (rtos_object_set_name p nm k))"
  by (simp add: rtos_object_set_name_def update_snapshots_locked_def effect_def Let_def split: option.split prod.splits)

lemma init_effects:
  "effect S k (snd (rtos_queue_init p b c k))" "effect S k (snd (rtos_mutex_init p k))"
  "effect S k (snd (rtos_sem_init p i m k))" "effect S k (snd (rtos_event_flags_init p k))"
  "effect S k (snd (rtos_mempool_init p st sz n k))" "effect S k (snd (rtos_timer_init p ms rl cb a k))"
  using object_register_effect
  by (auto simp: rtos_queue_init_def rtos_mutex_init_def rtos_sem_init_def rtos_event_flags_init_def
      rtos_mempool_init_def rtos_timer_init_def link_timer_def upd_timer_def effect_def Let_def split: prod.splits)

lemma incr_effect: "effect S k (incr v k)"
  by (simp add: incr_def effect_def)

lemma init_objects_effect: "effect S k (init_objects im k)"
  unfolding init_objects_def Let_def
  by (intro effect_trans[OF _ idle_hook_effect] effect_trans[OF _ object_name_effect]
      effect_trans[OF _ init_effects(1)] effect_trans[OF _ init_effects(2)] effect_trans[OF _ init_effects(3)]
      effect_trans[OF _ init_effects(4)] effect_trans[OF _ init_effects(5)] effect_trans[OF _ init_effects(6)] effect_refl)

text \<open>The callbacks of the application only count, wake tasks and submit work.\<close>

lemma timer_callback_effect: "timer_callback im a k = Some k' \<Longrightarrow> effect S k k'"
proof -
  assume cb: "timer_callback im a k = Some k'"
  let ?k1 = "incr (app_timer_count im) k"
  show "effect S k k'"
  proof (cases "rtos_in_isr ?k1 = 0")
    case True
    then show ?thesis
      using cb incr_effect[of S k "app_timer_count im"] by (simp add: timer_callback_def Let_def)
  next
    case False
    then obtain r2 k2 r3 k3 t h where s: "rtos_event_flags_set_isr (demo_events im) 1 ?k1 = Some (r2, k2)"
      "rtos_sem_post_isr (isr_sem im) k2 = Some (r3, k3)"
      "k' = snd (rtos_work_submit_isr h 0 (snd (rtos_task_notify_isr t 1 k3)))"
      using cb by (auto simp: timer_callback_def Let_def split: bind_splits)
    have e1: "effect S ?k1 k2" using s(1) unfolding rtos_event_flags_set_isr_def by (rule event_set_effect)
    have e2: "effect S k2 k3" using s(2) unfolding rtos_sem_post_isr_def by (rule sem_post_effect)
    have e3: "effect S k3 (snd (rtos_task_notify_isr t 1 k3))"
      unfolding rtos_task_notify_isr_def by (rule effect_snd) (rule notify_effect)
    have e4: "effect S (snd (rtos_task_notify_isr t 1 k3)) k'" unfolding s(3)
      unfolding rtos_work_submit_isr_def by (rule effect_snd) (rule work_submit_effect)
    from effect_trans[OF incr_effect e1] have "effect S k k2" .
    from effect_trans[OF effect_trans[OF this e2] effect_trans[OF e3 e4]] show ?thesis .
  qed
qed

lemma app_call_isr_safe: "isr_safe (app_call im)"
  unfolding isr_safe_def
proof (intro allI impI)
  fix f a k k'
  assume "app_call im f a k = Some k'"
  then consider "timer_callback im a k = Some k'" | v where "k' = incr v k"
    unfolding app_call_def idle_hook_fun_def deferred_callback_def by (metis option.distinct(1) option.inject)
  then show "effect {} k k'" by cases (simp_all only: timer_callback_effect incr_effect)
qed

section \<open>Properties\<close>

text \<open>What the linker and the compiler provide: aligned stacks, and functions at non-null addresses.\<close>

definition linked_app :: "link_image \<Rightarrow> app_image \<Rightarrow> bool" where
  "linked_app li im \<longleftrightarrow> unat (stacks_base li) mod 8 = 0 \<and> addr_idle_task li \<noteq> 0 \<and> addr_work_task li \<noteq> 0 \<and>
     addr_producer_task im \<noteq> 0 \<and> addr_consumer_task im \<noteq> 0 \<and> addr_timeout_task im \<noteq> 0 \<and>
     addr_one_shot_task im \<noteq> 0"

lemma main_starts:
  assumes "linked_app li im"
  shows "\<exists>k xs. snd (main im (g, zero_kernel li)) = rtos_start k \<and> startable k xs \<and> hd xs = 0 \<and> task_count k = 5"
proof -
  note l = assms[unfolded linked_app_def]
  have al: "unat (stacks_base li) mod 8 = 0" using l by blast
  have "task_ring (zero_kernel li) []" by (simp add: task_ring_def zero_kernel_def)
  then have "booting li 0 (zero_kernel li)" unfolding booting_def by (auto simp: zero_kernel_def)
  then have b0: "booting li 0 (init_objects im (zero_kernel li))" by (rule booting_effect[OF _ init_objects_effect])
  let ?k = "init_objects im (zero_kernel li)"
  have work: "linked_at ?k = li" using b0 by (simp add: booting_def)
  have ent: "addr_work_task li \<noteq> 0" "addr_producer_task im \<noteq> 0" "addr_consumer_task im \<noteq> 0"
    "addr_timeout_task im \<noteq> 0" "addr_one_shot_task im \<noteq> 0" using l by blast+
  have "(0::nat) < 6" by simp
  from booting_create[OF b0 this ent(1) booting_aligned[OF b0 al], of 0 RTOS_DEFAULT_PRIORITY "Some ''work''"]
  obtain k1 where k1: "rtos_task_create_named_handle (addr_work_task li) 0 RTOS_DEFAULT_PRIORITY (Some ''work'') ?k =
      Some (Inr (0, Some 0, k1))" "booting li (Suc 0) k1" by blast
  let ?k2 = "k1\<lparr>work := (work k1)\<lparr>work_task_handle := Some 0\<rparr>\<rparr>"
  have w: "rtos_work_init ?k = Some (Inr (0, ?k2))" using k1 by (simp add: rtos_work_init_def work)
  have "effect {} k1 ?k2" by (simp add: effect_def)
  moreover have "effect {} ?k2 (snd (rtos_timer_start (demo_timer im) ?k2))" by (rule effect_snd) (rule timer_start_effect)
  ultimately have b2: "booting li (Suc 0) (snd (rtos_timer_start (demo_timer im) ?k2))"
    using booting_effect[OF k1(2)] booting_effect by blast
  have six: "Suc 0 < 6" "Suc (Suc 0) < 6" "Suc (Suc (Suc 0)) < 6" "Suc (Suc (Suc (Suc 0))) < 6" by simp_all
  from booting_named[OF b2 six(1) ent(2) al, of 0 1 "Some ''producer''"] obtain k3 where
    k3: "\<And>f. and_then (rtos_task_create_named (addr_producer_task im) 0 1 (Some ''producer'')
      (snd (rtos_timer_start (demo_timer im) ?k2))) f = (f k3 :: (kernel + start_outcome) option)"
    "booting li (Suc (Suc 0)) k3" by blast
  from booting_named[OF k3(2) six(2) ent(3) al, of 0 2 "Some ''consumer''"] obtain k4 where
    k4: "\<And>f. and_then (rtos_task_create_named (addr_consumer_task im) 0 2 (Some ''consumer'') k3) f =
      (f k4 :: (kernel + start_outcome) option)" "booting li (Suc (Suc (Suc 0))) k4" by blast
  from booting_named[OF k4(2) six(3) ent(4) al, of 0 1 "Some ''timeout''"] obtain k5 where
    k5: "\<And>f. and_then (rtos_task_create_named (addr_timeout_task im) 0 1 (Some ''timeout'') k4) f =
      (f k5 :: (kernel + start_outcome) option)" "booting li (Suc (Suc (Suc (Suc 0)))) k5" by blast
  from booting_named[OF k5(2) six(4) ent(5) al, of 0 1 "Some ''one-shot''"] obtain k6 where
    k6: "\<And>f. and_then (rtos_task_create_named (addr_one_shot_task im) 0 1 (Some ''one-shot'') k5) f =
      (f k6 :: (kernel + start_outcome) option)" "booting li (Suc (Suc (Suc (Suc (Suc 0))))) k6" by blast
  have first: "and_then (rtos_work_init ?k) f = f ?k2" for f :: "kernel \<Rightarrow> (kernel + start_outcome) option"
    by (simp add: and_then_def w)
  have "snd (main im (g, zero_kernel li)) = rtos_start k6"
    unfolding main_def Let_def snd_conv first k3(1) k4(1) k5(1) k6(1) ..
  moreover obtain xs where xs: "task_ring k6 xs" "xs = [] \<or> hd xs = 0"
    "\<forall>x \<in> set xs. task_state (tasks k6 x) = RTOS_TASK_READY" and c: "unat (task_count k6) = 5" "linked_at k6 = li"
    using k6(2) unfolding booting_def by auto
  moreover have "set xs = {..<5}" using xs(1) c(1) unfolding task_ring_def by metis
  then have "xs \<noteq> []" by (metis lessThan_empty_iff list.set(1) numeral_eq_iff zero_neq_numeral)
  moreover have cnt: "task_count k6 = 5" using c(1) by (simp add: word_unat_eq_iff)
  moreover have "stacks_aligned k6" using c(2) al by (simp add: stacks_aligned_def)
  moreover have "addr_idle_task (linked_at k6) \<noteq> 0" using c(2) l by simp
  moreover have "task_count k6 < RTOS_MAX_TASKS" by (simp add: cnt)
  ultimately show ?thesis unfolding startable_def by blast
qed


definition sample_app :: app_image where
  "sample_app = \<lparr>app_task1_count = 0x20002000, app_task2_count = 0x20002004, app_priority_boost_count =
     0x20002008, app_timeout_count = 0x2000200C, app_timer_count = 0x20002010,
     app_event_count = 0x20002014, app_pool_count = 0x20002018, app_exit_count = 0x2000201C,
     app_reuse_count = 0x20002020, app_sched_lock_count = 0x20002024, app_isr_sem_count =
     0x20002028, app_idle_hook_count = 0x2000202C, app_notify_count = 0x20002030,
     app_deferred_count = 0x20002034, led_queue = 0x20003000, led_queue_storage =
     0x20003040, app_mutex = 0x20003080, timeout_sem = 0x200030C0, isr_sem = 0x20003100,
     demo_timer = 0x20003140, demo_events = 0x20003180, demo_pool = 0x200031C0,
     demo_pool_storage = 0x20003200, timeout_task_handle = 0x20003240, reuse_created =
     0x20003280, addr_idle_hook = 0x08001000, addr_deferred_callback = 0x08001040,
     addr_producer_task = 0x08001080, addr_consumer_task = 0x080010C0, addr_timeout_task =
     0x08001100, addr_timer_callback = 0x08001140, addr_one_shot_task = 0x08001180\<rparr>"

definition sample_gpio :: gpio_state where
  "sample_gpio = \<lparr>RCC_AHB1ENR = 0, GPIOA_MODER = 0, GPIOA_OTYPER = 0, GPIOA_OSPEEDR = 0, GPIOA_PUPDR = 0,
     GPIOA_ODR = 0\<rparr>"


end
