(* ===== verification/Spec2Isabelle.thy ===== *)
theory Spec2Isabelle
  imports Interplay Demo_App
begin

text \<open>
  A small preemptive real-time kernel for a Cortex-M4 microcontroller (STM32F446), with its port,
  start-up code, board support and demo application, modelled function by function from the C
  sources in src/. This theory collects the development; the properties are in the theories of the
  components they are about.

  \<^bold>\<open>The program.\<close> A fixed table of tasks, linked into a ring, is scheduled by priority, and in turn
  among equals. A tick interrupt runs \<open>rtos_tick_handler\<close>: it counts down the delays of blocked
  tasks and the software timers, checks one stack guard, now and then refreshes the debug
  snapshots, and requests a context switch. The context switch exception calls
  \<open>rtos_schedule_next\<close>. Semaphores, message queues, mutexes, event flags and memory pools keep a
  queue of the tasks blocked on them, ordered by priority, through the \<open>wait_next\<close> field of the
  task control blocks; whoever wakes a task only marks it ready, and a task that was timed out
  takes itself out of the queue when it runs again. Direct notifications and the deferred work
  queue let interrupts hand work to tasks.

  \<^bold>\<open>Theories and sources.\<close>
  \<^item> \<open>Rtos_Prelude\<close>: words, null-terminated linked lists, insertion by priority, ring arithmetic.
  \<^item> \<open>Kernel_State\<close> (include/*.h): one datatype per enumeration, one record per structure, and the
    record \<open>kernel\<close> of all variables of the kernel, with the target's memory \<open>ram\<close>.
  \<^item> \<open>Port_Layer\<close> (port/cortex_m4/port.c, kernel/critical.c): the special registers, nested
    critical sections, the context switch request. \<open>Ticks\<close> (kernel/tick.c): tick conversion.
    \<open>Assertion\<close> (kernel/assert.c). \<open>Trace_Ring\<close> (kernel/trace.c). \<open>Object_Registry\<close>
    (kernel/object.c).
  \<^item> \<open>Wait_Queue\<close>: the functions \<open>wait_push\<close>, \<open>wait_pop\<close> and \<open>wait_remove\<close>, of which every object has
    its own copy in the sources, proved once against lists. \<open>Wait_Object\<close>: the contract between an
    object and its queue. \<open>Bounded_Fifo\<close>: the contract of a bounded buffer.
  \<^item> \<open>Semaphore\<close> (kernel/sem.c), \<open>Msg_Queue\<close> (kernel/queue.c), \<open>Mutex\<close> (kernel/mutex.c), \<open>Event_Flags\<close>
    (kernel/event.c), \<open>Mem_Pool\<close> (kernel/mempool.c), \<open>Work_Queue\<close> (kernel/work.c), \<open>Soft_Timer\<close>
    (kernel/timer.c), \<open>Tasks\<close> (kernel/task.c), \<open>Scheduler\<close> (kernel/sched.c), \<open>Debug_Snapshots\<close>
    (kernel/debug.c), \<open>Tick_Handler\<close> (the handler of kernel/tick.c).
  \<^item> \<open>Kernel_Effects\<close>: a bound, proved for every kernel call, on what it can do to the life of the
    tasks. \<open>Kernel_Steps\<close>: the step relation of the whole kernel and its invariant.
  \<^item> \<open>Timeliness\<close> and \<open>Interplay\<close>: what the components give together, over the definitions of the
    others: sleeping with the tick handler and the scheduler; a mutex with the scheduler; a message
    queue with the scheduler.
  \<^item> \<open>Board_Support\<close> (startup/startup_stm32f4.c, port/cortex_m4/fault.c, board/board.c) and \<open>Demo_App\<close>
    (app/main.c).

  \<^bold>\<open>How state corresponds.\<close> A task control block is named by its index in the static table, a
  pointer to one is \<open>nat option\<close>; \<open>tasks k\<close> is the table. Synchronisation objects are named by
  their address, a \<open>u32\<close>, null being 0; \<open>sems k\<close>, \<open>queues k\<close> and so on give their contents. What
  the caller provides as storage (queue buffers, pool blocks, stacks, out-parameters, the demo's
  variables) is in the word memory \<open>ram k\<close>, at its address. Unsigned integers are 32-bit words and
  wrap; the task and object tables are indexed by \<open>nat\<close>. Addresses the linker chooses are the
  parameter \<open>linked_at k\<close>.

  \<^bold>\<open>Blocking calls.\<close> A call that gives up the processor is cut at the yield: \<open>sem_wait_enter\<close>,
  \<open>queue_send_try\<close>, \<open>mutex_lock_try\<close>, \<open>event_wait_enter\<close>, \<open>pool_alloc_enter\<close>, \<open>notify_wait_enter\<close> and
  \<open>rtos_sleep\<close> are the code up to it, and the functions named \<open>resume\<close> the code behind it. Between
  them anything may happen. The complete calls take this as an argument: a function \<open>suspend\<close> from
  kernel to kernel for a call that blocks at most once, a list of them for the calls that loop,
  where the length of the list is how often the call may be put off; it is not a bound on the
  program, since the statements about them hold for every list, and the rounds themselves are total.
  In \<open>Kernel_Steps\<close> the two halves are separate steps.

  \<^bold>\<open>Partiality and errors.\<close> A null pointer that is followed, and a list or a ring that is circular
  where the code loops until null, make the model's value \<open>None\<close>, by \<open>partial_function (option)\<close>; the
  theorems prove that a value is returned. A failed \<open>RTOS_ASSERT\<close> is the left side of a sum, with
  the parked system. Status codes are values. No fuel is used.

  \<^bold>\<open>Interfaces.\<close> The locale \<open>wait_list\<close> states what pushing and removing a waiter promise, and
  \<open>wait_object\<close> what popping adds; \<open>embedded_list\<close> and \<open>embedded_queue\<close> describe an object that stores
  the two ends of its queue in fields of its own, and are shown to give the former by sublocales.
  Semaphores, both sides of message queues, mutexes, event flags and memory pools interpret them on
  the code's functions. The locale \<open>bounded_fifo\<close> is interpreted by message queues and by the
  deferred work queue; its lemma on runs of puts and takes is what their order properties rest on.

  \<^bold>\<open>What the groups of lemmas show.\<close>
  \<^item> For each object: an invariant, kept by every operation; what each operation does on every
    branch, errors included; and an abstract specification where there is one (a counter with a
    queue of waiters, a first-in first-out buffer, a finite map, a flight recorder).
  \<^item> For mutexes: the owner's priority is the maximum of its own and those of the live waiters,
    across locking, timing out and unlocking. A task that holds several contended mutexes is outside
    the code's design, as docs/architecture.md says, and outside the invariant, which is about one mutex.
  \<^item> For time: a delay ends with the tick it asked for, a timer fires once per period, tasks of
    equal priority share the processor, the scheduler lock defers and never loses a switch. End to
    end, the most urgent task runs again with the very tick its sleep ends.
  \<^item> For urgency: while the owner of a mutex can run, nothing less urgent than its waiters does; a
    message for a more urgent receiver is received after the next switch.
  \<^item> For the kernel as a whole: from start-up on, in every interleaving of ticks, switches, calls,
    task creations and callbacks, the scheduler finds a task to run and no two tasks run; the demo
    application is an instance, from the reset of memory on.
  \<^item> Where the code does less than it promises, the theorem says what it does: starting a one-shot
    timer in its own callback, long delays, clearing notification bits on entry, and usage figures
    after 71 minutes.

  \<^bold>\<open>Not modelled.\<close>
  \<^item> port/cortex_m4/port_asm.S: saving and restoring registers and \<open>task_sp\<close> around
    \<open>rtos_schedule_next\<close>. It is assembly; the stack layout it pops is checked against the frame
    that task creation writes.
  \<^item> Interrupts between two statements of a call. Most code runs with interrupts masked; an interrupt
    in the gaps is a step before or behind the call in \<open>Kernel_Steps\<close>.
  \<^item> Callbacks, work handlers and the idle hook are parameters of the kernel; the demo's are modelled.
  \<^item> kernel/list.c, which is empty, headers with prototypes only, the Python tools, the linker script
    and the makefile.
\<close>

end
